(* ===== verification/Prelude.thy ===== *)
theory Prelude
  imports Main "HOL-Library.Word" "HOL-Library.Char_ord" "HOL-Library.List_Lexorder"
    "HOL-Library.Sublist"
begin

text \<open>
  What every component shares: byte strings and Go strings, error values, the
  state-and-error computations that the methods of the server are, and the rules
  by which properties of such computations are composed.
\<close>

section \<open>Bytes, strings and errors\<close>

text \<open>
  A Go \<open>[]byte\<close> is a list of 8-bit words. A Go \<open>string\<close> is a sequence of bytes too,
  here a \<open>string\<close> of 8-bit characters; \<open>stringOfBytes\<close> is the conversion
  \<open>string(value)\<close>. Strings are compared bytewise, as the order of
  \<open>HOL-Library.List_Lexorder\<close> over \<open>HOL-Library.Char_ord\<close> does.
\<close>

type_synonym byte = "8 word"
type_synonym bytes = "8 word list"

definition charOfByte :: "byte \<Rightarrow> char" where
  "charOfByte b = char_of (unat b)"

definition byteOfChar :: "char \<Rightarrow> byte" where
  "byteOfChar c = word_of_nat (of_char c)"

definition stringOfBytes :: "bytes \<Rightarrow> string" where
  "stringOfBytes bs = map charOfByte bs"

definition bytesOfString :: "string \<Rightarrow> bytes" where
  "bytesOfString cs = map byteOfChar cs"

text \<open>\<open>strconv.Itoa\<close> of a number that is not negative, and \<open>strings.Split\<close> at one character.\<close>

fun decimal :: "nat \<Rightarrow> string" where
  "decimal n = (if n < 10 then [char_of (48 + n)] else decimal (n div 10) @ [char_of (48 + n mod 10)])"

declare decimal.simps [simp del]

fun splitAt :: "char \<Rightarrow> string \<Rightarrow> string list" where
  "splitAt c [] = [[]]"
| "splitAt c (x # xs) =
     (if x = c then [] # splitAt c xs
      else case splitAt c xs of [] \<Rightarrow> [[x]] | part # parts \<Rightarrow> (x # part) # parts)"

lemma splitAt_nonempty [simp]: "splitAt c xs \<noteq> []"
  by (cases xs) (simp_all split: list.split)

lemma splitAt_append: "c \<notin> set xs \<Longrightarrow> splitAt c (xs @ c # ys) = xs # splitAt c ys"
  by (induction xs) auto

lemma splitAt_none: "c \<notin> set xs \<Longrightarrow> splitAt c xs = [xs]"
  by (induction xs) auto

lemma splitAt_first: "\<exists>part parts. splitAt c xs = part # parts \<and> c \<notin> set part \<and>
    (case parts of [] \<Rightarrow> xs = part | _ \<Rightarrow> \<exists>ys. xs = part @ c # ys \<and> parts = splitAt c ys)"
proof (induction xs)
  case (Cons x xs)
  then obtain part parts where xs: "splitAt c xs = part # parts" "c \<notin> set part"
    "case parts of [] \<Rightarrow> xs = part | _ \<Rightarrow> \<exists>ys. xs = part @ c # ys \<and> parts = splitAt c ys" by blast
  show ?case
  proof (cases "x = c")
    case True
    with xs show ?thesis by auto
  next
    case False
    with xs show ?thesis by (cases parts) auto
  qed
qed simp

lemma splitAt_one: "splitAt c xs = [a] \<longleftrightarrow> xs = a \<and> c \<notin> set xs"
proof
  assume "splitAt c xs = [a]"
  moreover obtain part parts where "splitAt c xs = part # parts" "c \<notin> set part"
    "case parts of [] \<Rightarrow> xs = part | _ \<Rightarrow> \<exists>ys. xs = part @ c # ys \<and> parts = splitAt c ys"
    using splitAt_first [of c xs] by blast
  ultimately show "xs = a \<and> c \<notin> set xs" by simp
qed (auto simp: splitAt_none)

lemma splitAt_two: "splitAt c xs = [a, b] \<longleftrightarrow> xs = a @ c # b \<and> c \<notin> set a \<and> c \<notin> set b"
proof
  assume split: "splitAt c xs = [a, b]"
  moreover obtain part parts where "splitAt c xs = part # parts" "c \<notin> set part"
    "case parts of [] \<Rightarrow> xs = part | _ \<Rightarrow> \<exists>ys. xs = part @ c # ys \<and> parts = splitAt c ys"
    using splitAt_first [of c xs] by blast
  ultimately obtain ys where "c \<notin> set a" "xs = a @ c # ys" "splitAt c ys = [b]" by auto
  then show "xs = a @ c # b \<and> c \<notin> set a \<and> c \<notin> set b" by (auto simp: splitAt_one)
qed (auto simp: splitAt_append splitAt_none)

text \<open>
  Errors. \<open>IncompleteActionResult\<close> and \<open>InvalidActionResult\<close> are the two sentinel errors of
  \<open>action_result_validation.go\<close>, which the handlers recognise with \<open>errors.Is\<close>; every other error
  is a \<open>Failure\<close> with its message. \<open>Panic\<close> is a run-time panic of the code, and \<open>Diverges\<close> stands
  for a loop that would never return: both are values so that the theorems have to exclude them.
\<close>

datatype go_error =
    Failure string
  | IncompleteActionResult string
  | InvalidActionResult string
  | Panic string
  | Diverges

fun errorText :: "go_error \<Rightarrow> string" where
  "errorText (Failure m) = m"
| "errorText (IncompleteActionResult m) = m"
| "errorText (InvalidActionResult m) = m"
| "errorText (Panic m) = m"
| "errorText Diverges = []"

text \<open>
  \<open>fmt.Errorf("%w: %v", errInvalidActionResult, err)\<close> keeps the class of the sentinel and the
  text of the inner error; a panic is not an error value and passes through.
\<close>

fun wrapInvalid :: "go_error \<Rightarrow> go_error" where
  "wrapInvalid (Panic m) = Panic m"
| "wrapInvalid Diverges = Diverges"
| "wrapInvalid e = InvalidActionResult (errorText e)"

text \<open>Go's int64 range, and slicing \<open>data[n:]\<close>, which panics out of range.\<close>

definition maxInt64 :: int where
  "maxInt64 = 9223372036854775807"

definition sliceFrom :: "'a list \<Rightarrow> int \<Rightarrow> go_error + 'a list" where
  "sliceFrom xs n =
     (if 0 \<le> n \<and> n \<le> int (length xs) then Inr (drop (nat n) xs)
      else Inl (Panic ''slice bounds out of range''))"

text \<open>A result that is no Go error value: the code panicked or never returned.\<close>

fun crashed :: "go_error + 'a \<Rightarrow> bool" where
  "crashed (Inl (Panic m)) = True"
| "crashed (Inl Diverges) = True"
| "crashed r = False"

lemma crashed_Inl_iff: "crashed (Inl e) \<longleftrightarrow> (\<exists>m. e = Panic m) \<or> e = Diverges"
  by (cases e) auto

lemma crashed_Inl_cong: "crashed (Inl e :: go_error + 'a) = crashed (Inl e :: go_error + 'b)"
  by (simp add: crashed_Inl_iff)

named_theorems safe "introduction rules for results that are not crashes"

lemma not_crashed_Inr [safe]: "\<not> crashed (Inr x)"
  by simp

lemma not_crashed_Failure [safe]: "\<not> crashed (Inl (Failure m))"
  by simp

lemma not_crashed_case [safe]:
  "\<not> crashed r \<Longrightarrow> (\<And>x. r = Inr x \<Longrightarrow> \<not> crashed (k x)) \<Longrightarrow>
     \<not> crashed (case r of Inl e \<Rightarrow> Inl e | Inr x \<Rightarrow> k x)"
  by (auto simp: crashed_Inl_iff split: sum.split)

lemma not_crashed_if [safe]:
  "(b \<Longrightarrow> \<not> crashed x) \<Longrightarrow> (\<not> b \<Longrightarrow> \<not> crashed y) \<Longrightarrow> \<not> crashed (if b then x else y)"
  by simp

lemma not_crashed_prod [safe]:
  "(\<And>a b. p = (a, b) \<Longrightarrow> \<not> crashed (k a b)) \<Longrightarrow> \<not> crashed (case p of (a, b) \<Rightarrow> k a b)"
  by (cases p) simp

lemma not_crashed_option [safe]:
  "(m = None \<Longrightarrow> \<not> crashed x) \<Longrightarrow> (\<And>a. m = Some a \<Longrightarrow> \<not> crashed (k a)) \<Longrightarrow>
     \<not> crashed (case m of None \<Rightarrow> x | Some a \<Rightarrow> k a)"
  by (cases m) simp_all

text \<open>An early return on an error, read backwards from a successful result.\<close>

lemma case_Inr_iff:
  "(case r of Inl e \<Rightarrow> Inl e | Inr x \<Rightarrow> k x) = Inr y \<longleftrightarrow> (\<exists>x. r = Inr x \<and> k x = Inr y)"
  by (cases r) auto

lemma case_prod_eq_iff: "(case p of (a, b) \<Rightarrow> k a b) = y \<longleftrightarrow> (\<exists>a b. p = (a, b) \<and> k a b = y)"
  by (cases p) auto

lemma case_option_eq_iff:
  "(case m of None \<Rightarrow> x | Some a \<Rightarrow> k a) = y \<longleftrightarrow> (m = None \<and> x = y) \<or> (\<exists>a. m = Some a \<and> k a = y)"
  by (cases m) auto

lemma if_eq_iff: "(if b then x else y) = z \<longleftrightarrow> (b \<and> x = z) \<or> (\<not> b \<and> y = z)"
  by auto

lemmas success_iffs = case_Inr_iff case_prod_eq_iff case_option_eq_iff if_eq_iff

lemma sliceFrom_Inr: "sliceFrom xs n = Inr ys \<longleftrightarrow> 0 \<le> n \<and> n \<le> int (length xs) \<and> ys = drop (nat n) xs"
  by (auto simp: sliceFrom_def)

lemma charOfByte_byteOfChar [simp]: "charOfByte (byteOfChar c) = c"
proof -
  have "(of_char c :: nat) < 256"
    by (metis of_char_mod_256 mod_less_divisor zero_less_numeral)
  then show ?thesis
    by (simp add: charOfByte_def byteOfChar_def unat_of_nat)
qed

lemma stringOfBytes_bytesOfString [simp]: "stringOfBytes (bytesOfString s) = s"
  by (simp add: stringOfBytes_def bytesOfString_def comp_def)

lemma length_stringOfBytes [simp]: "length (stringOfBytes bs) = length bs"
  by (simp add: stringOfBytes_def)

section \<open>Running a visitor over a list\<close>

fun foldE :: "('a \<Rightarrow> 's \<Rightarrow> go_error + 's) \<Rightarrow> 'a list \<Rightarrow> 's \<Rightarrow> go_error + 's" where
  "foldE f [] s = Inr s"
| "foldE f (x # xs) s = (case f x s of Inl e \<Rightarrow> Inl e | Inr s' \<Rightarrow> foldE f xs s')"

lemma foldE_append:
  "foldE f (xs @ ys) s = (case foldE f xs s of Inl e \<Rightarrow> Inl e | Inr s' \<Rightarrow> foldE f ys s')"
  by (induction xs arbitrary: s) (auto split: sum.splits)

lemma foldE_snoc: "foldE f (xs @ [x]) s = (case foldE f xs s of Inl e \<Rightarrow> Inl e | Inr s' \<Rightarrow> f x s')"
  by (simp add: foldE_append split: sum.splits)

lemma foldE_inv:
  assumes "foldE f xs s = Inr t" and "I s"
    and "\<And>x u v. x \<in> set xs \<Longrightarrow> I u \<Longrightarrow> f x u = Inr v \<Longrightarrow> I v"
  shows "I t"
  using assms
proof (induction xs arbitrary: s)
  case Nil
  then show ?case by simp
next
  case (Cons x xs)
  from Cons.prems(1) obtain u where u: "f x s = Inr u" "foldE f xs u = Inr t"
    by (auto split: sum.splits)
  from Cons.prems(2,3) u(1) have "I u" by (meson list.set_intros(1))
  with u(2) show ?case
    using Cons.IH Cons.prems(3) by (meson list.set_intros(2))
qed

lemma foldE_not_crashed:
  assumes "\<And>x s. \<not> crashed (f x s)"
  shows "\<not> crashed (foldE f xs s)"
proof (induction xs arbitrary: s)
  case Nil
  show ?case by simp
next
  case (Cons x xs)
  with assms [of x s] show ?case by (auto split: sum.split)
qed

lemma foldE_step_ok:
  assumes "foldE f xs s = Inr t" and "x \<in> set xs"
  shows "\<exists>u v. f x u = Inr v"
  using assms by (induction xs arbitrary: s) (auto split: sum.splits)

end
