(* ===== verification/Io.thy ===== *)
theory Io
  imports Prelude
begin

text \<open>
  Computations over a state, in the shape of Go code: a function takes the state and returns its
  result with the new state, and an \<open>error\<close> result is the left side of a sum, so that what was done
  before an error stays done. \<open>triple\<close> is the Hoare triple of such a computation and \<open>keeps\<close> the
  preservation of a state property; the rules in \<open>keeps_rules\<close> take a property through every
  combinator, so that the proof for a handler is one application of its parts' rules.
\<close>

section \<open>Combinators\<close>

type_synonym ('s, 'r) comp = "'s \<Rightarrow> 'r \<times> 's"
type_synonym ('s, 'a) io = "'s \<Rightarrow> (go_error + 'a) \<times> 's"

definition returning :: "'r \<Rightarrow> ('s, 'r) comp" where
  "returning r = (\<lambda>s. (r, s))"

definition ok :: "'a \<Rightarrow> ('s, 'a) io" where
  "ok x = (\<lambda>s. (Inr x, s))"

definition fail :: "go_error \<Rightarrow> ('s, 'a) io" where
  "fail e = (\<lambda>s. (Inl e, s))"

definition andThen :: "('s, 'q) comp \<Rightarrow> ('q \<Rightarrow> ('s, 'r) comp) \<Rightarrow> ('s, 'r) comp" where
  "andThen m k = (\<lambda>s. case m s of (r, s') \<Rightarrow> k r s')"

text \<open>\<open>if err != nil { return err }\<close>.\<close>

definition attempt :: "('s, 'a) io \<Rightarrow> ('a \<Rightarrow> ('s, 'b) io) \<Rightarrow> ('s, 'b) io" where
  "attempt m k = andThen m (\<lambda>r. case r of Inl e \<Rightarrow> fail e | Inr x \<Rightarrow> k x)"

definition reading :: "('s \<Rightarrow> 'x) \<Rightarrow> ('x \<Rightarrow> ('s, 'r) comp) \<Rightarrow> ('s, 'r) comp" where
  "reading f k = (\<lambda>s. k (f s) s)"

definition updating :: "('s \<Rightarrow> 's) \<Rightarrow> ('s, 'r) comp \<Rightarrow> ('s, 'r) comp" where
  "updating f k = (\<lambda>s. k (f s))"

lemmas comp_defs = returning_def ok_def fail_def andThen_def attempt_def reading_def updating_def

text \<open>Running a computation: equations and inversion.\<close>

lemma reading_run [simp]: "reading f k s = k (f s) s"
  by (simp add: reading_def)

lemma updating_run [simp]: "updating f k s = k (f s)"
  by (simp add: updating_def)

lemma ok_run [simp]: "ok x s = (Inr x, s)"
  by (simp add: ok_def)

lemma fail_run [simp]: "fail e s = (Inl e, s)"
  by (simp add: fail_def)

lemma returning_run [simp]: "returning x s = (x, s)"
  by (simp add: returning_def)

lemma andThen_iff: "andThen m k s = (r, s') \<longleftrightarrow> (\<exists>q s1. m s = (q, s1) \<and> k q s1 = (r, s'))"
  by (auto simp: andThen_def split: prod.splits)

lemma attempt_Inr_iff:
  "attempt m k s = (Inr y, s') \<longleftrightarrow> (\<exists>x s1. m s = (Inr x, s1) \<and> k x s1 = (Inr y, s'))"
  by (auto simp: attempt_def andThen_def fail_def split: prod.splits sum.splits)

lemma attempt_Inl_iff:
  "attempt m k s = (Inl e, s') \<longleftrightarrow>
     m s = (Inl e, s') \<or> (\<exists>x s1. m s = (Inr x, s1) \<and> k x s1 = (Inl e, s'))"
  by (auto simp: attempt_def andThen_def fail_def split: prod.splits sum.splits)

lemma case_sum_run:
  "(case x of Inl e \<Rightarrow> f e | Inr a \<Rightarrow> k a) s = t \<longleftrightarrow>
     (\<exists>e. x = Inl e \<and> f e s = t) \<or> (\<exists>a. x = Inr a \<and> k a s = t)"
  by (cases x) auto

lemma case_option_run:
  "(case x of None \<Rightarrow> m | Some a \<Rightarrow> k a) s = t \<longleftrightarrow> x = None \<and> m s = t \<or> (\<exists>a. x = Some a \<and> k a s = t)"
  by (cases x) auto

lemma case_prod_run:
  "(case x of (a, b) \<Rightarrow> k a b) s = t \<longleftrightarrow> (\<exists>a b. x = (a, b) \<and> k a b s = t)"
  by (cases x) auto

lemma if_run: "(if b then m else n) s = t \<longleftrightarrow> b \<and> m s = t \<or> \<not> b \<and> n s = t"
  by simp

lemmas run_iffs = attempt_Inr_iff andThen_iff case_sum_run case_option_run case_prod_run if_run

section \<open>Hoare triples\<close>

definition triple :: "('s \<Rightarrow> bool) \<Rightarrow> ('s, 'r) comp \<Rightarrow> ('r \<Rightarrow> 's \<Rightarrow> bool) \<Rightarrow> bool" where
  "triple P m Q \<longleftrightarrow> (\<forall>s. P s \<longrightarrow> Q (fst (m s)) (snd (m s)))"

definition keeps :: "('s \<Rightarrow> bool) \<Rightarrow> ('s, 'r) comp \<Rightarrow> bool" where
  "keeps I m \<longleftrightarrow> triple I m (\<lambda>_. I)"

lemma tripleD: "triple P m Q \<Longrightarrow> P s \<Longrightarrow> m s = (r, s') \<Longrightarrow> Q r s'"
  by (auto simp: triple_def split: prod.splits)

lemma tripleI: "(\<And>s r s'. P s \<Longrightarrow> m s = (r, s') \<Longrightarrow> Q r s') \<Longrightarrow> triple P m Q"
  unfolding triple_def by (metis prod.collapse)

lemma triple_weaken:
  "triple P' m Q' \<Longrightarrow> (\<And>s. P s \<Longrightarrow> P' s) \<Longrightarrow> (\<And>r s. Q' r s \<Longrightarrow> Q r s) \<Longrightarrow> triple P m Q"
  by (auto simp: triple_def)

lemma triple_andThen:
  "triple P m R \<Longrightarrow> (\<And>r. triple (R r) (k r) Q) \<Longrightarrow> triple P (andThen m k) Q"
  by (auto simp: triple_def andThen_def split: prod.split)

lemma triple_returning: "triple (Q r) (returning r) Q"
  by (simp add: triple_def returning_def)

lemma triple_ok: "triple (Q (Inr x)) (ok x) Q"
  by (simp add: triple_def ok_def)

lemma triple_fail: "triple (Q (Inl e)) (fail e) Q"
  by (simp add: triple_def fail_def)

lemma triple_attempt:
  assumes "triple P m R" and "\<And>e s. R (Inl e) s \<Longrightarrow> Q (Inl e) s"
    and "\<And>x. triple (R (Inr x)) (k x) Q"
  shows "triple P (attempt m k) Q"
  unfolding attempt_def
proof (rule triple_andThen [OF assms(1)])
  fix r
  show "triple (R r) (case r of Inl e \<Rightarrow> fail e | Inr x \<Rightarrow> k x) Q"
    using assms(2,3) by (cases r) (auto simp: triple_def fail_def)
qed

lemma triple_reading:
  "(\<And>x. triple (\<lambda>s. P s \<and> f s = x) (k x) Q) \<Longrightarrow> triple P (reading f k) Q"
  by (auto simp: triple_def reading_def)

lemma triple_updating: "triple P k Q \<Longrightarrow> triple (\<lambda>s. P (f s)) (updating f k) Q"
  by (auto simp: triple_def updating_def)

lemma triple_conj:
  "triple P m Q \<Longrightarrow> triple P' m Q' \<Longrightarrow> triple (\<lambda>s. P s \<and> P' s) m (\<lambda>r s. Q r s \<and> Q' r s)"
  by (auto simp: triple_def)

text \<open>The same rules with the consequence rule built in, for goals whose assertions are given.\<close>

lemma triple_ret: "(\<And>s. P s \<Longrightarrow> Q r s) \<Longrightarrow> triple P (returning r) Q"
  by (simp add: triple_def returning_def)

lemma triple_okI: "(\<And>s. P s \<Longrightarrow> Q (Inr x) s) \<Longrightarrow> triple P (ok x) Q"
  by (simp add: triple_def ok_def)

lemma triple_failI: "(\<And>s. P s \<Longrightarrow> Q (Inl e) s) \<Longrightarrow> triple P (fail e) Q"
  by (simp add: triple_def fail_def)

lemma triple_update: "(\<And>s. P s \<Longrightarrow> P' (f s)) \<Longrightarrow> triple P' k Q \<Longrightarrow> triple P (updating f k) Q"
  by (auto simp: triple_def updating_def)

lemma triple_if: "(b \<Longrightarrow> triple P m Q) \<Longrightarrow> (\<not> b \<Longrightarrow> triple P n Q) \<Longrightarrow> triple P (if b then m else n) Q"
  by simp

lemma triple_option:
  "(x = None \<Longrightarrow> triple P m Q) \<Longrightarrow> (\<And>a. x = Some a \<Longrightarrow> triple P (k a) Q) \<Longrightarrow>
     triple P (case x of None \<Rightarrow> m | Some a \<Rightarrow> k a) Q"
  by (cases x) auto

lemma triple_sum:
  "(\<And>e. x = Inl e \<Longrightarrow> triple P (m e) Q) \<Longrightarrow> (\<And>a. x = Inr a \<Longrightarrow> triple P (k a) Q) \<Longrightarrow>
     triple P (case x of Inl e \<Rightarrow> m e | Inr a \<Rightarrow> k a) Q"
  by (cases x) auto

lemma triple_prod:
  "(\<And>a b. x = (a, b) \<Longrightarrow> triple P (k a b) Q) \<Longrightarrow> triple P (case x of (a, b) \<Rightarrow> k a b) Q"
  by (cases x) auto

lemma triple_pre: "triple P' m Q \<Longrightarrow> (\<And>s. P s \<Longrightarrow> P' s) \<Longrightarrow> triple P m Q"
  by (simp add: triple_def)

lemma triple_ex: "(\<And>d. triple (P d) m Q) \<Longrightarrow> triple (\<lambda>s. \<exists>d. P d s) m Q"
  by (auto simp: triple_def)

lemma triple_assume: "(b \<Longrightarrow> triple P m Q) \<Longrightarrow> triple (\<lambda>s. P s \<and> b) m Q"
  by (auto simp: triple_def)

section \<open>Preservation\<close>

named_theorems keeps_rules "rules that take a preserved property through a computation"

lemma keepsD: "keeps I m \<Longrightarrow> I s \<Longrightarrow> m s = (r, s') \<Longrightarrow> I s'"
  by (auto simp: keeps_def dest: tripleD)

lemma keeps_snd: "keeps I m \<Longrightarrow> I s \<Longrightarrow> I (snd (m s))"
  by (auto simp: keeps_def triple_def)

lemma keepsI: "(\<And>s r s'. I s \<Longrightarrow> m s = (r, s') \<Longrightarrow> I s') \<Longrightarrow> keeps I m"
  unfolding keeps_def by (rule tripleI)

lemma keeps_returning [keeps_rules]: "keeps I (returning r)"
  by (simp add: keeps_def triple_def returning_def)

lemma keeps_ok [keeps_rules]: "keeps I (ok x)"
  by (simp add: keeps_def triple_def ok_def)

lemma keeps_fail [keeps_rules]: "keeps I (fail e)"
  by (simp add: keeps_def triple_def fail_def)

lemma keeps_andThen [keeps_rules]: "keeps I m \<Longrightarrow> (\<And>r. keeps I (k r)) \<Longrightarrow> keeps I (andThen m k)"
  unfolding keeps_def by (rule triple_andThen)

lemma keeps_attempt [keeps_rules]: "keeps I m \<Longrightarrow> (\<And>x. keeps I (k x)) \<Longrightarrow> keeps I (attempt m k)"
  unfolding keeps_def by (rule triple_attempt)

lemma keeps_reading [keeps_rules]: "(\<And>x. keeps I (k x)) \<Longrightarrow> keeps I (reading f k)"
  by (simp add: keeps_def triple_def reading_def)

lemma keeps_updating [keeps_rules]:
  "(\<And>s. I s \<Longrightarrow> I (f s)) \<Longrightarrow> keeps I k \<Longrightarrow> keeps I (updating f k)"
  by (simp add: keeps_def triple_def updating_def)

lemma keeps_if [keeps_rules]: "(b \<Longrightarrow> keeps I m) \<Longrightarrow> (\<not> b \<Longrightarrow> keeps I n) \<Longrightarrow> keeps I (if b then m else n)"
  by simp

lemma keeps_option [keeps_rules]:
  "(x = None \<Longrightarrow> keeps I m) \<Longrightarrow> (\<And>a. x = Some a \<Longrightarrow> keeps I (k a)) \<Longrightarrow>
     keeps I (case x of None \<Rightarrow> m | Some a \<Rightarrow> k a)"
  by (cases x) auto

lemma keeps_sum [keeps_rules]:
  "(\<And>e. x = Inl e \<Longrightarrow> keeps I (m e)) \<Longrightarrow> (\<And>a. x = Inr a \<Longrightarrow> keeps I (k a)) \<Longrightarrow>
     keeps I (case x of Inl e \<Rightarrow> m e | Inr a \<Rightarrow> k a)"
  by (cases x) auto

lemma keeps_prod [keeps_rules]:
  "(\<And>a b. x = (a, b) \<Longrightarrow> keeps I (k a b)) \<Longrightarrow> keeps I (case x of (a, b) \<Rightarrow> k a b)"
  by (cases x) auto

lemma triple_attempt_keeps:
  "keeps I m \<Longrightarrow> (\<And>e s. I s \<Longrightarrow> Q (Inl e) s) \<Longrightarrow> (\<And>x. triple I (k x) Q) \<Longrightarrow> triple I (attempt m k) Q"
  unfolding keeps_def by (rule triple_attempt)

lemma triple_andThen_keeps: "keeps I m \<Longrightarrow> (\<And>x. triple I (k x) Q) \<Longrightarrow> triple I (andThen m k) Q"
  unfolding keeps_def by (rule triple_andThen)

section \<open>Loops\<close>

text \<open>A loop over a list that stops at the first error, threading a value.\<close>

fun forEach :: "('a \<Rightarrow> 'v \<Rightarrow> ('s, 'v) io) \<Rightarrow> 'a list \<Rightarrow> 'v \<Rightarrow> ('s, 'v) io" where
  "forEach f [] v = ok v"
| "forEach f (x # xs) v = attempt (f x v) (forEach f xs)"

lemma keeps_forEach [keeps_rules]: "(\<And>x v. keeps I (f x v)) \<Longrightarrow> keeps I (forEach f xs v)"
  by (induction xs arbitrary: v) (auto intro!: keeps_rules)

lemma triple_forEach:
  assumes "\<And>x v. x \<in> set xs \<Longrightarrow> triple (J v) (f x v) (\<lambda>r s. case r of Inl e \<Rightarrow> F e s | Inr v' \<Rightarrow> J v' s)"
  shows "triple (J v) (forEach f xs v) (\<lambda>r s. case r of Inl e \<Rightarrow> F e s | Inr v' \<Rightarrow> J v' s)"
  using assms
proof (induction xs arbitrary: v)
  case Nil
  show ?case by (simp add: triple_def ok_def)
next
  case (Cons x xs)
  show ?case
    unfolding forEach.simps
  proof (rule triple_attempt)
    show "triple (J v) (f x v) (\<lambda>r s. case r of Inl e \<Rightarrow> F e s | Inr v' \<Rightarrow> J v' s)"
      by (rule Cons.prems) simp
    fix v'
    have "triple (J v') (forEach f xs v') (\<lambda>r s. case r of Inl e \<Rightarrow> F e s | Inr v' \<Rightarrow> J v' s)"
      by (rule Cons.IH) (rule Cons.prems, simp)
    then show "triple (\<lambda>s. case Inr v' of Inl e \<Rightarrow> F e s | Inr v' \<Rightarrow> J v' s) (forEach f xs v')
      (\<lambda>r s. case r of Inl e \<Rightarrow> F e s | Inr v' \<Rightarrow> J v' s)"
      by simp
  qed simp
qed

section \<open>Results that are no crash\<close>

text \<open>\<open>calm\<close>: whatever the state, the computation returns, with a value or with an error value.\<close>

definition calm :: "('s, 'a) io \<Rightarrow> bool" where
  "calm m \<longleftrightarrow> (\<forall>s. \<not> crashed (fst (m s)))"

named_theorems calm_rules "rules for computations that do not crash"

lemma calmI: "(\<And>s. \<not> crashed (fst (m s))) \<Longrightarrow> calm m"
  by (simp add: calm_def)

lemma calm_ok [calm_rules]: "calm (ok x)"
  by (simp add: calm_def)

lemma calm_fail [calm_rules]: "\<not> crashed (Inl e :: go_error + unit) \<Longrightarrow> calm (fail e)"
  by (auto simp: calm_def crashed_Inl_iff)

lemma calm_attempt [calm_rules]: "calm m \<Longrightarrow> (\<And>x. calm (k x)) \<Longrightarrow> calm (attempt m k)"
  by (auto simp: calm_def attempt_def andThen_def crashed_Inl_iff split: prod.split sum.split)
    (metis crashed.simps(1,2) fst_conv)+

lemma calm_andThen [calm_rules]: "(\<And>x. calm (k x)) \<Longrightarrow> calm (andThen m k)"
  by (auto simp: calm_def andThen_def split: prod.split)

lemma calm_reading [calm_rules]: "(\<And>x. calm (k x)) \<Longrightarrow> calm (reading f k)"
  by (simp add: calm_def)

lemma calm_updating [calm_rules]: "calm k \<Longrightarrow> calm (updating f k)"
  by (simp add: calm_def)

lemma calm_if [calm_rules]: "(b \<Longrightarrow> calm m) \<Longrightarrow> (\<not> b \<Longrightarrow> calm n) \<Longrightarrow> calm (if b then m else n)"
  by simp

lemma calm_option [calm_rules]:
  "(x = None \<Longrightarrow> calm m) \<Longrightarrow> (\<And>a. x = Some a \<Longrightarrow> calm (k a)) \<Longrightarrow>
     calm (case x of None \<Rightarrow> m | Some a \<Rightarrow> k a)"
  by (cases x) auto

lemma calm_sum [calm_rules]:
  "(\<And>e. x = Inl e \<Longrightarrow> calm (m e)) \<Longrightarrow> (\<And>a. x = Inr a \<Longrightarrow> calm (k a)) \<Longrightarrow>
     calm (case x of Inl e \<Rightarrow> m e | Inr a \<Rightarrow> k a)"
  by (cases x) auto

lemma calm_prod [calm_rules]: "(\<And>a b. x = (a, b) \<Longrightarrow> calm (k a b)) \<Longrightarrow> calm (case x of (a, b) \<Rightarrow> k a b)"
  by (cases x) auto

lemma calm_forEach [calm_rules]: "(\<And>x v. calm (f x v)) \<Longrightarrow> calm (forEach f xs v)"
  by (induction xs arbitrary: v) (auto intro!: calm_rules)

end
