(* ===== verification/Limiter.thy ===== *)
theory Limiter
  imports Prelude
begin

text \<open>
  \<open>internal/server/limiter.go\<close>. The limiter reserves evenly spaced time slots;
  times are nanoseconds as unbounded integers, the zero \<open>time.Time\<close> is 0.
\<close>

section \<open>Reserving slots\<close>

record intervalLimiter =
  limNext :: int
  limInterval :: int

definition timeMinute :: int where
  "timeMinute = 60000000000"

definition newIntervalLimiter :: "int \<Rightarrow> intervalLimiter" where
  "newIntervalLimiter perMinute =
     (if perMinute \<le> 0 then \<lparr>limNext = 0, limInterval = 0\<rparr>
      else \<lparr>limNext = 0, limInterval = timeMinute div perMinute\<rparr>)"

text \<open>The part of \<open>wait\<close> under the mutex: the slot for a caller at time \<open>now\<close>, and the next one.\<close>

definition limiter_reserve :: "int \<Rightarrow> intervalLimiter \<Rightarrow> int \<times> intervalLimiter" where
  "limiter_reserve now l =
     (let slot = (if now < limNext l then limNext l else now)
      in (slot, l\<lparr>limNext := slot + limInterval l\<rparr>))"

fun limiter_slots :: "intervalLimiter \<Rightarrow> int list \<Rightarrow> int list" where
  "limiter_slots l [] = []"
| "limiter_slots l (now # nows) =
     (case limiter_reserve now l of (slot, l') \<Rightarrow> slot # limiter_slots l' nows)"

lemma limiter_slots_spaced:
  assumes "0 \<le> limInterval l" and "j < length nows"
  shows "limNext l + int j * limInterval l \<le> limiter_slots l nows ! j"
  using assms
proof (induction nows arbitrary: l j)
  case (Cons now nows)
  show ?case
  proof (cases j)
    case 0
    then show ?thesis by (simp add: limiter_reserve_def Let_def)
  next
    case (Suc i)
    define l' where "l' = snd (limiter_reserve now l)"
    have l': "limInterval l' = limInterval l" "limNext l + limInterval l \<le> limNext l'"
      by (auto simp: l'_def limiter_reserve_def Let_def)
    have "limNext l' + int i * limInterval l' \<le> limiter_slots l' nows ! i"
      using Cons.prems Suc l'(1) by (intro Cons.IH) auto
    moreover have "limiter_slots l (now # nows) ! j = limiter_slots l' nows ! i"
      by (simp add: Suc l'_def split: prod.split)
    ultimately show ?thesis
      using l' by (simp add: Suc algebra_simps)
  qed
qed simp

lemma limiter_slots_distance:
  assumes "0 \<le> limInterval l" and "i \<le> j" and "j < length nows"
  shows "int (j - i) * limInterval l \<le> limiter_slots l nows ! j - limiter_slots l nows ! i"
  using assms
proof (induction nows arbitrary: l i j)
  case (Cons now nows)
  define l' where "l' = snd (limiter_reserve now l)"
  have l': "limInterval l' = limInterval l"
    and first: "limNext l' = limiter_slots l (now # nows) ! 0 + limInterval l"
    by (auto simp: l'_def limiter_reserve_def Let_def)
  have later: "limiter_slots l (now # nows) ! Suc k = limiter_slots l' nows ! k" for k
    by (simp add: l'_def split: prod.split)
  show ?case
  proof (cases i)
    case (Suc i')
    with Cons.prems obtain j' where "j = Suc j'" by (cases j) auto
    with Suc Cons.prems l' show ?thesis
      using Cons.IH [of l' i' j'] by (simp add: later del: limiter_slots.simps)
  next
    case 0
    show ?thesis
    proof (cases j)
      case (Suc j')
      then have "limNext l' + int j' * limInterval l' \<le> limiter_slots l' nows ! j'"
        using Cons.prems l' by (intro limiter_slots_spaced) auto
      with Suc 0 first l' show ?thesis
        by (simp add: later algebra_simps del: limiter_slots.simps)
    qed (simp add: 0)
  qed
qed simp

lemma length_limiter_slots [simp]: "length (limiter_slots l nows) = length nows"
  by (induction nows arbitrary: l) (auto split: prod.split)

lemma limiter_slots_not_early: "j < length nows \<Longrightarrow> nows ! j \<le> limiter_slots l nows ! j"
proof (induction nows arbitrary: l j)
  case (Cons now nows)
  then show ?case
    by (cases j) (auto simp: limiter_reserve_def Let_def)
qed simp

text \<open>
  C11. The limiter has no burst: whenever the callers arrive, the slots it hands out one after the
  other are at least a whole interval apart, so with a rate of \<open>n\<close> per minute (\<open>New\<close> accepts 1 to 199)
  any \<open>n + 2\<close> consecutive reservations span more than a minute, and no slot is before its caller.
\<close>

theorem limiter_rate:
  assumes "1 \<le> n" and "n \<le> 199" and "i + nat (n + 1) < length nows"
  shows "timeMinute < limiter_slots (newIntervalLimiter n) nows ! (i + nat (n + 1))
      - limiter_slots (newIntervalLimiter n) nows ! i \<and>
    nows ! i \<le> limiter_slots (newIntervalLimiter n) nows ! i"
proof -
  let ?l = "newIntervalLimiter n" and ?d = "timeMinute div n"
  have int: "limInterval ?l = ?d" using assms by (simp add: newIntervalLimiter_def)
  have pos: "0 \<le> ?d" using assms by (simp add: timeMinute_def pos_imp_zdiv_nonneg_iff)
  have "int (nat (n + 1)) * ?d \<le> limiter_slots ?l nows ! (i + nat (n + 1)) - limiter_slots ?l nows ! i"
    using limiter_slots_distance [of ?l i "i + nat (n + 1)" nows] assms int pos by simp
  moreover have "timeMinute < (n + 1) * ?d"
  proof -
    have "n * ?d = timeMinute - timeMinute mod n" by (simp only: minus_mod_eq_mult_div)
    moreover have "timeMinute mod n < n" using assms by simp
    moreover have "301507537 \<le> ?d"
    proof -
      have "timeMinute div 199 \<le> ?d"
        using assms by (intro zdiv_mono2) (auto simp: timeMinute_def)
      then show ?thesis by (simp add: timeMinute_def)
    qed
    moreover have "(n + 1) * ?d = n * ?d + ?d" by (simp add: algebra_simps)
    ultimately show ?thesis using assms(2) by linarith
  qed
  moreover have "nows ! i \<le> limiter_slots ?l nows ! i"
    using assms by (intro limiter_slots_not_early) simp
  ultimately show ?thesis using assms by simp
qed

theorem limiter_rate_witness:
  "timeMinute < limiter_slots (newIntervalLimiter 1) [0, 0, 0] ! (0 + nat (1 + 1))
      - limiter_slots (newIntervalLimiter 1) [0, 0, 0] ! 0 \<and>
    [0, 0, 0] ! 0 \<le> limiter_slots (newIntervalLimiter 1) [0, 0, 0] ! 0"
  by (rule limiter_rate) simp_all

lemma limiter_slots_together:
  "0 \<le> limNext l \<Longrightarrow> 0 \<le> limInterval l \<Longrightarrow>
     limiter_slots l (replicate k 0) = map (\<lambda>j. limNext l + int j * limInterval l) [0..<k]"
proof (induction k arbitrary: l)
  case (Suc k)
  let ?l' = "l\<lparr>limNext := limNext l + limInterval l\<rparr>"
  have "limiter_reserve 0 l = (limNext l, ?l')"
    using Suc.prems by (auto simp: limiter_reserve_def Let_def)
  moreover have "map (\<lambda>j. limNext l + int j * limInterval l) [0..<Suc k] =
      limNext l # map (\<lambda>j. limNext ?l' + int j * limInterval ?l') [0..<k]"
    by (simp add: upt_conv_Cons map_Suc_upt [symmetric] algebra_simps del: upt_Suc)
  ultimately show ?case using Suc.IH [of ?l'] Suc.prems by simp
qed simp

text \<open>
  The comment on \<open>intervalLimiter\<close> promises to stay below 200 uploads per minute. At the highest rate that \<open>New\<close>
  accepts, 200 callers that arrive together get 200 slots within less than a minute, because the interval is
  rounded down and the first and the last slot both count.
\<close>

lemma limiter_at_limit:
  "length (limiter_slots (newIntervalLimiter 199) (replicate 200 0)) = 200 \<and>
   (\<forall>slot \<in> set (limiter_slots (newIntervalLimiter 199) (replicate 200 0)). 0 \<le> slot \<and> slot < timeMinute)"
proof -
  have start: "limNext (newIntervalLimiter 199) = 0" "limInterval (newIntervalLimiter 199) = 301507537"
    by (simp_all add: newIntervalLimiter_def timeMinute_def)
  then have "limiter_slots (newIntervalLimiter 199) (replicate 200 0) = map (\<lambda>j. int j * 301507537) [0..<200]"
    using limiter_slots_together [of "newIntervalLimiter 199" 200] by simp
  moreover have "0 \<le> int j * 301507537 \<and> int j * 301507537 < timeMinute" if "j < 200" for j
    using that by (simp add: timeMinute_def)
  ultimately show ?thesis by simp
qed

end
