(* ===== verification/Stats.thy ===== *)
theory Stats
  imports Prelude
begin

text \<open>
  \<open>internal/server/stats.go\<close>: the counters of the server. Each is an \<open>atomic.Uint64\<close>, here a 64-bit word
  that wraps around; the \<open>counters\<close> struct is a function from the field names. \<open>StatsFields\<close>
  lists the fields in the order of the \<open>Stats\<close> struct, which \<open>snapshot\<close> follows; the instance of \<open>enum\<close> is that list.
\<close>

datatype counter =
    Requests | Hits | Misses | Uploads | DeduplicatedUploads | DiscardedUploads
  | BackendDownloads | BackendExistenceChecks | BackendLoadErrors | BackendSaveErrors
  | RejectedRequests | ValidatedActionResults | IncompleteActionResults | InvalidActionResults
  | SkippedActionResultUploads | BytesServed | BytesReceived | ThrottleWaits | PackUploads
  | ManifestUploads | PackDownloads | ManifestsDiscovered | ManifestDiscoveryErrors
  | ManifestLoadErrors | ActionDigestConflicts

definition StatsFields :: "counter list" where
  "StatsFields =
    [Requests, Hits, Misses, Uploads, DeduplicatedUploads, DiscardedUploads,
     BackendDownloads, BackendExistenceChecks, BackendLoadErrors, BackendSaveErrors,
     RejectedRequests, ValidatedActionResults, IncompleteActionResults, InvalidActionResults,
     SkippedActionResultUploads, BytesServed, BytesReceived, ThrottleWaits, PackUploads,
     ManifestUploads, PackDownloads, ManifestsDiscovered, ManifestDiscoveryErrors,
     ManifestLoadErrors, ActionDigestConflicts]"

instantiation counter :: enum
begin

definition enum_counter :: "counter list" where
  "enum_counter = StatsFields"

definition enum_all_counter :: "(counter \<Rightarrow> bool) \<Rightarrow> bool" where
  "enum_all_counter P = list_all P enum_class.enum"

definition enum_ex_counter :: "(counter \<Rightarrow> bool) \<Rightarrow> bool" where
  "enum_ex_counter P = list_ex P enum_class.enum"

instance
proof
  have all: "c \<in> set (enum_class.enum :: counter list)" for c
    by (cases c) (simp_all add: enum_counter_def StatsFields_def)
  then show "UNIV = set (enum_class.enum :: counter list)" by auto
  show "distinct (enum_class.enum :: counter list)" by (simp add: enum_counter_def StatsFields_def)
  show "enum_class.enum_all P = Ball UNIV P" for P :: "counter \<Rightarrow> bool"
    using all by (auto simp: enum_all_counter_def list_all_iff)
  show "enum_class.enum_ex P = Bex UNIV P" for P :: "counter \<Rightarrow> bool"
    using all by (auto simp: enum_ex_counter_def list_ex_iff)
qed

end

type_synonym counters = "counter \<Rightarrow> 64 word"

definition counters0 :: counters where
  "counters0 = (\<lambda>_. 0)"

definition counter_Add :: "counter \<Rightarrow> nat \<Rightarrow> counters \<Rightarrow> counters" where
  "counter_Add c n st = st(c := st c + of_nat n)"

text \<open>The JSON names of the \<open>Stats\<close> fields, in the order of the struct.\<close>

fun jsonName :: "counter \<Rightarrow> string" where
  "jsonName Requests = ''requests''"
| "jsonName Hits = ''hits''"
| "jsonName Misses = ''misses''"
| "jsonName Uploads = ''uploads''"
| "jsonName DeduplicatedUploads = ''deduplicated_uploads''"
| "jsonName DiscardedUploads = ''discarded_uploads''"
| "jsonName BackendDownloads = ''backend_downloads''"
| "jsonName BackendExistenceChecks = ''backend_existence_checks''"
| "jsonName BackendLoadErrors = ''backend_load_errors''"
| "jsonName BackendSaveErrors = ''backend_save_errors''"
| "jsonName RejectedRequests = ''rejected_requests''"
| "jsonName ValidatedActionResults = ''validated_action_results''"
| "jsonName IncompleteActionResults = ''incomplete_action_results''"
| "jsonName InvalidActionResults = ''invalid_action_results''"
| "jsonName SkippedActionResultUploads = ''skipped_action_result_uploads''"
| "jsonName BytesServed = ''bytes_served''"
| "jsonName BytesReceived = ''bytes_received''"
| "jsonName ThrottleWaits = ''throttle_waits''"
| "jsonName PackUploads = ''pack_uploads''"
| "jsonName ManifestUploads = ''manifest_uploads''"
| "jsonName PackDownloads = ''pack_downloads''"
| "jsonName ManifestsDiscovered = ''manifests_discovered''"
| "jsonName ManifestDiscoveryErrors = ''manifest_discovery_errors''"
| "jsonName ManifestLoadErrors = ''manifest_load_errors''"
| "jsonName ActionDigestConflicts = ''action_digest_conflicts''"

definition counters_snapshot :: "counters \<Rightarrow> (string \<times> 64 word) list" where
  "counters_snapshot st = map (\<lambda>c. (jsonName c, st c)) Enum.enum"

text \<open>The encoding of \<open>Stats\<close> by \<open>encoding/json\<close>: an object with the fields in their order, without spaces.\<close>

definition Stats_JSON :: "(string \<times> 64 word) list \<Rightarrow> bytes" where
  "Stats_JSON st = bytesOfString (''{'' @
     concat (case map (\<lambda>(name, n). CHR 34 # name @ CHR 34 # CHR 58 # decimal (unat n)) st of
       [] \<Rightarrow> [] | field # fields \<Rightarrow> field # map (\<lambda>f. CHR 44 # f) fields) @ ''}'')"

lemma inj_jsonName: "jsonName c = jsonName d \<longleftrightarrow> c = d"
  by (cases c; cases d) simp_all

lemma snapshot_lookup: "map_of (counters_snapshot st) (jsonName c) = Some (st c)"
proof -
  have "map_of (map (\<lambda>c. (jsonName c, st c)) cs) (jsonName c) = (if c \<in> set cs then Some (st c) else None)" for cs
    by (induction cs) (auto simp: inj_jsonName)
  then show ?thesis by (simp add: counters_snapshot_def enum_UNIV)
qed

end
