(* ===== verification/Sha256.thy ===== *)
theory Sha256
  imports Prelude
begin

text \<open>
  The parts of Go's standard library that the cache uses to name content: \<open>crypto/sha256\<close>
  (\<open>sha256.Sum256\<close>, FIPS 180-4) and \<open>encoding/hex\<close> (\<open>EncodeToString\<close>, \<open>DecodeString\<close>), together with
  \<open>digestPattern\<close> of \<open>server.go\<close> and \<open>emptySHA256Digest\<close> of \<open>reapi_wire.go\<close>. The lemmas say that
  the name of any content is 64 lowercase hexadecimal digits and that decoding it gives the hash
  back.
\<close>

unbundle bit_operations_syntax

section \<open>SHA-256\<close>

type_synonym u32 = "32 word"

definition rotr :: "nat \<Rightarrow> u32 \<Rightarrow> u32" where
  "rotr n x = drop_bit n x OR push_bit (32 - n) x"

text \<open>The 32-bit fractions of the cube roots of the first 64 primes, in decimal.\<close>

definition sha256_k :: "u32 list" where
  "sha256_k =
    [1116352408, 1899447441, 3049323471, 3921009573, 961987163, 1508970993, 2453635748, 2870763221,
     3624381080, 310598401, 607225278, 1426881987, 1925078388, 2162078206, 2614888103, 3248222580,
     3835390401, 4022224774, 264347078, 604807628, 770255983, 1249150122, 1555081692, 1996064986,
     2554220882, 2821834349, 2952996808, 3210313671, 3336571891, 3584528711, 113926993, 338241895,
     666307205, 773529912, 1294757372, 1396182291, 1695183700, 1986661051, 2177026350, 2456956037,
     2730485921, 2820302411, 3259730800, 3345764771, 3516065817, 3600352804, 4094571909, 275423344,
     430227734, 506948616, 659060556, 883997877, 958139571, 1322822218, 1537002063, 1747873779,
     1955562222, 2024104815, 2227730452, 2361852424, 2428436474, 2756734187, 3204031479, 3329325298]"


text \<open>Big-endian bytes of a number, and padding to whole 64-byte blocks.\<close>

fun bigEndian :: "nat \<Rightarrow> nat \<Rightarrow> bytes" where
  "bigEndian 0 n = []"
| "bigEndian (Suc k) n = bigEndian k (n div 256) @ [word_of_nat n]"

definition sha256_pad :: "bytes \<Rightarrow> bytes" where
  "sha256_pad m =
     m @ [0x80] @ replicate ((119 - length m mod 64) mod 64) 0 @ bigEndian 8 (8 * length m)"

fun wordsOfBytes :: "bytes \<Rightarrow> u32 list" where
  "wordsOfBytes (a # b # c # d # bs) =
     (push_bit 24 (ucast a) OR push_bit 16 (ucast b) OR push_bit 8 (ucast c) OR ucast d)
       # wordsOfBytes bs"
| "wordsOfBytes _ = []"

text \<open>
  The message schedule is kept newest word first: the word at distance \<open>k\<close> back is at position
  \<open>k - 1\<close>. \<open>sha256_extend n\<close> adds \<open>n\<close> words.
\<close>

fun sha256_extend :: "nat \<Rightarrow> u32 list \<Rightarrow> u32 list" where
  "sha256_extend 0 w = w"
| "sha256_extend (Suc n) w =
     (let w15 = w ! 14; w2 = w ! 1;
          s0 = rotr 7 w15 XOR rotr 18 w15 XOR drop_bit 3 w15;
          s1 = rotr 17 w2 XOR rotr 19 w2 XOR drop_bit 10 w2
      in sha256_extend n ((w ! 15 + s0 + w ! 6 + s1) # w))"

type_synonym sha256_state = "u32 \<times> u32 \<times> u32 \<times> u32 \<times> u32 \<times> u32 \<times> u32 \<times> u32"

fun sha256_rounds :: "(u32 \<times> u32) list \<Rightarrow> sha256_state \<Rightarrow> sha256_state" where
  "sha256_rounds [] hs = hs"
| "sha256_rounds ((k, w) # kws) (a, b, c, d, e, f, g, h) =
     (let s1 = rotr 6 e XOR rotr 11 e XOR rotr 25 e;
          ch = (e AND f) XOR (NOT e AND g);
          t1 = h + s1 + ch + k + w;
          s0 = rotr 2 a XOR rotr 13 a XOR rotr 22 a;
          maj = (a AND b) XOR (a AND c) XOR (b AND c);
          t2 = s0 + maj
      in sha256_rounds kws (t1 + t2, a, b, c, d + t1, e, f, g))"

text \<open>The 32-bit fractions of the square roots of the first 8 primes.\<close>

definition sha256_init :: sha256_state where
  "sha256_init =
    (1779033703, 3144134277, 1013904242, 2773480762, 1359893119, 2600822924, 528734635, 1541459225)"

fun sha256_add :: "sha256_state \<Rightarrow> sha256_state \<Rightarrow> sha256_state" where
  "sha256_add (a, b, c, d, e, f, g, h) (a', b', c', d', e', f', g', h') =
     (a + a', b + b', c + c', d + d', e + e', f + f', g + g', h + h')"

definition sha256_block :: "sha256_state \<Rightarrow> bytes \<Rightarrow> sha256_state" where
  "sha256_block hs block =
     sha256_add hs (sha256_rounds
       (zip sha256_k (rev (sha256_extend 48 (rev (wordsOfBytes block))))) hs)"

text \<open>The padded message is a whole number of blocks; \<open>sha256_blocks\<close> takes them one by one.\<close>

fun sha256_blocks :: "nat \<Rightarrow> sha256_state \<Rightarrow> bytes \<Rightarrow> sha256_state" where
  "sha256_blocks 0 hs m = hs"
| "sha256_blocks (Suc n) hs m = sha256_blocks n (sha256_block hs (take 64 m)) (drop 64 m)"

definition bytesOfWord :: "u32 \<Rightarrow> bytes" where
  "bytesOfWord w = [ucast (drop_bit 24 w), ucast (drop_bit 16 w), ucast (drop_bit 8 w), ucast w]"

fun sha256_output :: "sha256_state \<Rightarrow> bytes" where
  "sha256_output (a, b, c, d, e, f, g, h) = concat (map bytesOfWord [a, b, c, d, e, f, g, h])"

definition sha256_Sum256 :: "bytes \<Rightarrow> bytes" where
  "sha256_Sum256 m =
     (let p = sha256_pad m
      in sha256_output (sha256_blocks (length p div 64) sha256_init p))"

lemma length_sha256_Sum256 [simp]: "length (sha256_Sum256 m) = 32"
proof -
  have "length (sha256_output s) = 32" for s
    by (cases s rule: sha256_output.cases) (simp add: bytesOfWord_def)
  then show ?thesis by (simp add: sha256_Sum256_def Let_def)
qed

lemma length_bigEndian [simp]: "length (bigEndian k n) = k"
  by (induction k arbitrary: n) auto

lemma sha256_pad_blocks: "64 dvd length (sha256_pad m)"
proof -
  define q r where "q = length m div 64" and "r = length m mod 64"
  have m: "length m = 64 * q + r" and r: "r < 64"
    by (simp_all add: q_def r_def)
  have len: "length (sha256_pad m) = length m + (119 - r) mod 64 + 9"
    by (simp add: sha256_pad_def r_def)
  show ?thesis
  proof (cases "r \<le> 55")
    case True
    then have "(119 - r) mod 64 = (64 + (55 - r)) mod 64" by simp
    also have "\<dots> = 55 - r" by (simp only: mod_add_self1) simp
    finally have "length (sha256_pad m) = 64 * (q + 1)"
      using len m True by simp
    then show ?thesis by simp
  next
    case False
    then have "(119 - r) mod 64 = 119 - r" using r by simp
    then have "length (sha256_pad m) = 64 * (q + 2)"
      using len m False r by simp
    then show ?thesis by simp
  qed
qed

section \<open>Hexadecimal\<close>

definition hexDigit :: "nat \<Rightarrow> char" where
  "hexDigit n = ''0123456789abcdef'' ! n"

definition hex_EncodeToString :: "bytes \<Rightarrow> string" where
  "hex_EncodeToString bs =
     concat (map (\<lambda>b. [hexDigit (unat b div 16), hexDigit (unat b mod 16)]) bs)"

text \<open>\<open>hex.DecodeString\<close> takes both cases and rejects odd lengths and other characters.\<close>

definition fromHexChar :: "char \<Rightarrow> nat option" where
  "fromHexChar c =
     (let n = of_char c in
      if 48 \<le> n \<and> n \<le> 57 then Some (n - 48)
      else if 97 \<le> n \<and> n \<le> 102 then Some (n - 87)
      else if 65 \<le> n \<and> n \<le> 70 then Some (n - 55) else None)"

fun hex_DecodeString :: "string \<Rightarrow> go_error + bytes" where
  "hex_DecodeString [] = Inr []"
| "hex_DecodeString [c] = Inl (Failure ''encoding/hex: odd length or invalid byte'')"
| "hex_DecodeString (c # d # cs) =
     (case (fromHexChar c, fromHexChar d) of
        (Some x, Some y) \<Rightarrow>
          (case hex_DecodeString cs of Inl e \<Rightarrow> Inl e
           | Inr bs \<Rightarrow> Inr (word_of_nat (16 * x + y) # bs))
      | _ \<Rightarrow> Inl (Failure ''encoding/hex: invalid byte''))"

definition sha256_hex :: "bytes \<Rightarrow> string" where
  "sha256_hex m = hex_EncodeToString (sha256_Sum256 m)"

section \<open>Digest syntax\<close>

text \<open>\<open>digestPattern\<close>: \<open>^[a-f0-9]{64}$\<close>.\<close>

definition lowerHexChar :: "char \<Rightarrow> bool" where
  "lowerHexChar c = (let n = (of_char c :: nat) in (97 \<le> n \<and> n \<le> 102) \<or> (48 \<le> n \<and> n \<le> 57))"

definition digestPattern :: "string \<Rightarrow> bool" where
  "digestPattern s = (length s = 64 \<and> list_all lowerHexChar s)"

definition emptySHA256Digest :: string where
  "emptySHA256Digest = ''e3b0c44298fc1c149afbf4c8996fb92427ae41e4649b934ca495991b7852b855''"

text \<open>
  The name of a content is a digest, and \<open>hex.DecodeString\<close> reads an encoding back. Both facts
  come from the sixteen digits.
\<close>

lemma hexDigit_facts:
  assumes "n < 16"
  shows "lowerHexChar (hexDigit n) \<and> fromHexChar (hexDigit n) = Some n"
proof -
  have "\<forall>n \<in> set [0..<16]. lowerHexChar (hexDigit n) \<and> fromHexChar (hexDigit n) = Some n"
    by code_simp
  with assms show ?thesis by simp
qed

lemma unat_byte_bound: "unat (b :: byte) < 256"
  by (rule order.strict_trans2 [OF unsigned_less]) simp

lemma hexDigit_byte:
  fixes b :: byte
  shows "lowerHexChar (hexDigit (unat b div 16))" "lowerHexChar (hexDigit (unat b mod 16))"
    "fromHexChar (hexDigit (unat b div 16)) = Some (unat b div 16)"
    "fromHexChar (hexDigit (unat b mod 16)) = Some (unat b mod 16)"
  using unat_byte_bound [of b] by (simp_all add: hexDigit_facts less_mult_imp_div_less)

lemma length_hex_EncodeToString [simp]: "length (hex_EncodeToString bs) = 2 * length bs"
  by (induction bs) (auto simp: hex_EncodeToString_def)

lemma lowerHex_hex_EncodeToString: "list_all lowerHexChar (hex_EncodeToString bs)"
  by (induction bs) (auto simp: hex_EncodeToString_def hexDigit_byte)

lemma hex_DecodeString_EncodeToString: "hex_DecodeString (hex_EncodeToString bs) = Inr bs"
proof (induction bs)
  case Nil
  show ?case by (simp add: hex_EncodeToString_def)
next
  case (Cons b bs)
  have "word_of_nat (16 * (unat b div 16) + unat b mod 16) = b"
    by (simp only: mult_div_mod_eq) simp
  with Cons show ?case
    by (simp add: hex_EncodeToString_def hexDigit_byte)
qed

lemma digestPattern_sha256_hex [simp]: "digestPattern (sha256_hex m)"
  by (simp add: digestPattern_def sha256_hex_def lowerHex_hex_EncodeToString)

lemma hex_DecodeString_digest:
  assumes "digestPattern d"
  shows "\<exists>bs. hex_DecodeString d = Inr bs \<and> length bs = 32"
proof -
  have nib: "lowerHexChar c \<Longrightarrow> \<exists>n. fromHexChar c = Some n" for c
    by (auto simp: lowerHexChar_def fromHexChar_def Let_def)
  have "\<exists>bs. hex_DecodeString s = Inr bs \<and> length bs = length s div 2"
    if "list_all lowerHexChar s" and "even (length s)" for s
    using that
  proof (induction s rule: hex_DecodeString.induct)
    case (3 c d cs)
    from 3(2) nib [of c] nib [of d]
    obtain x y where xy: "fromHexChar c = Some x" "fromHexChar d = Some y"
      by auto
    with 3 obtain bs where "hex_DecodeString cs = Inr bs" "length bs = length cs div 2"
      by auto
    with xy show ?case by simp
  qed auto
  from this [of d] assms show ?thesis by (auto simp: digestPattern_def)
qed

lemma hexChar_value:
  assumes "lowerHexChar c"
  shows "\<exists>n < 16. fromHexChar c = Some n \<and> c = char_of (if n < 10 then n + 48 else n + 87)"
proof -
  define m :: nat where "m = of_char c"
  have c: "c = char_of m" by (simp add: m_def)
  from assms have "97 \<le> m \<and> m \<le> 102 \<or> 48 \<le> m \<and> m \<le> 57" by (simp add: lowerHexChar_def Let_def m_def)
  then show ?thesis
  proof
    assume m: "97 \<le> m \<and> m \<le> 102"
    then show ?thesis using c by (intro exI [of _ "m - 87"]) (simp add: fromHexChar_def Let_def flip: m_def, linarith)
  next
    assume m: "48 \<le> m \<and> m \<le> 57"
    then show ?thesis using c by (intro exI [of _ "m - 48"]) (simp add: fromHexChar_def Let_def flip: m_def, linarith)
  qed
qed

lemma hexDigit_fromHexChar:
  assumes "lowerHexChar c"
  shows "\<exists>n < 16. fromHexChar c = Some n \<and> hexDigit n = c"
proof -
  obtain n where n: "n < 16" "fromHexChar c = Some n" "c = char_of (if n < 10 then n + 48 else n + 87)"
    using hexChar_value [OF assms] by blast
  have digit: "lowerHexChar (hexDigit n)" "fromHexChar (hexDigit n) = Some n" using hexDigit_facts [OF n(1)] by simp_all
  from hexChar_value [OF digit(1)] digit(2) have "hexDigit n = char_of (if n < 10 then n + 48 else n + 87)" by auto
  with n show ?thesis by blast
qed

lemma hex_EncodeToString_DecodeString:
  "list_all lowerHexChar s \<Longrightarrow> hex_DecodeString s = Inr bs \<Longrightarrow> hex_EncodeToString bs = s"
proof (induction s arbitrary: bs rule: hex_DecodeString.induct)
  case (3 c d cs)
  from 3(2) obtain x y where xy: "fromHexChar c = Some x" "hexDigit x = c" "x < 16" "fromHexChar d = Some y" "hexDigit y = d" "y < 16"
    using hexDigit_fromHexChar [of c] hexDigit_fromHexChar [of d] by auto
  with 3(3) obtain bs' where bs: "hex_DecodeString cs = Inr bs'" "bs = word_of_nat (16 * x + y) # bs'"
    by (auto split: sum.splits)
  have "hex_EncodeToString bs' = cs" using 3 xy bs(1) by simp
  moreover have "unat (word_of_nat (16 * x + y) :: byte) = 16 * x + y" using xy(3,6) by (simp only: unat_of_nat) simp
  ultimately show ?case using xy bs(2) by (simp add: hex_EncodeToString_def)
qed (auto simp: hex_EncodeToString_def)

lemma hex_EncodeToString_inj: "hex_EncodeToString a = hex_EncodeToString b \<longleftrightarrow> a = b"
  by (metis hex_DecodeString_EncodeToString sum.inject(2))

lemma digestPattern_emptySHA256Digest [simp]: "digestPattern emptySHA256Digest"
  by code_simp

end
