(* ===== verification/Manifest.thy ===== *)
theory Manifest
  imports Sha256 "HOL-Library.Multiset" "HOL-Library.Product_Lexorder"
begin

text \<open>
  \<open>internal/server/manifest.go\<close>: the immutable manifests of the packed storage mode, their
  conversion to and from IPLD nodes, and the checks a manifest read from the cache must pass.
  The libraries \<open>go-cid\<close>, \<open>go-multihash\<close>, \<open>go-ipld-prime/codec/dagcbor\<close> and \<open>go-car\<close> are the fields of a
  record \<open>ipld\<close>; a \<open>datamodel.Node\<close> is a value of the IPLD data model. A node builder fails only on
  a repeated key or a wrong kind, which the code never gives it, so assembling a node is building
  the value.
\<close>

section \<open>The IPLD libraries\<close>

datatype node =
    NMap "(string \<times> node) list"
  | NList "node list"
  | NString string
  | NInt int
  | NOther string

text \<open>
  \<open>multihashEncode\<close> is \<open>multihash.Encode(_, multihash.SHA2_256)\<close>, \<open>newCidV1Raw\<close> is
  \<open>cid.NewCidV1(cid.Raw, _)\<close>, \<open>dagCBORSum\<close> is \<open>cid.Prefix{Version: 1, Codec: cid.DagCBOR, ...}.Sum\<close>,
  \<open>carWrite\<close> is the file that \<open>blockstore.OpenReadWrite\<close>, a \<open>Put\<close> per block and \<open>Finalize\<close> leave, and
  \<open>carGet\<close> is \<open>blockstore.OpenReadOnly\<close> with a section limit followed by \<open>Get\<close>. \<open>'c\<close> is \<open>cid.Cid\<close>.
\<close>

record 'c ipld =
  multihashEncode :: "bytes \<Rightarrow> string + bytes"
  newCidV1Raw :: "bytes \<Rightarrow> 'c"
  cidString :: "'c \<Rightarrow> string"
  cidDecode :: "string \<Rightarrow> string + 'c"
  dagCBORSum :: "bytes \<Rightarrow> string + 'c"
  dagcborEncode :: "node \<Rightarrow> string + bytes"
  dagcborDecode :: "bytes \<Rightarrow> string + node"
  carWrite :: "'c list \<Rightarrow> ('c \<times> bytes) list \<Rightarrow> string + bytes"
  carGet :: "bytes \<Rightarrow> int \<Rightarrow> 'c \<Rightarrow> string + bytes"

definition library :: "string + 'a \<Rightarrow> go_error + 'a" where
  "library r = (case r of Inl m \<Rightarrow> Inl (Failure m) | Inr x \<Rightarrow> Inr x)"

lemma library_simps [simp]: "library (Inr x) = Inr x" "library (Inl m) = Inl (Failure m)"
  "library r = Inr x \<longleftrightarrow> r = Inr x"
  by (auto simp: library_def split: sum.split)

section \<open>Content identifiers and cache keys\<close>

definition dagCBORCID :: "'c ipld \<Rightarrow> bytes \<Rightarrow> go_error + 'c" where
  "dagCBORCID L data = library (dagCBORSum L data)"

definition rawCIDForDigest :: "'c ipld \<Rightarrow> string \<Rightarrow> go_error + 'c" where
  "rawCIDForDigest L digest =
     (if \<not> digestPattern digest then Inl (Failure ''invalid SHA-256 digest'')
      else (case hex_DecodeString digest of Inl e \<Rightarrow> Inl e
            | Inr bs \<Rightarrow>
                (case library (multihashEncode L bs) of Inl e \<Rightarrow> Inl e
                 | Inr hash \<Rightarrow> Inr (newCidV1Raw L hash))))"

definition rawCIDForData :: "'c ipld \<Rightarrow> bytes \<Rightarrow> go_error + 'c" where
  "rawCIDForData L data = rawCIDForDigest L (hex_EncodeToString (sha256_Sum256 data))"

definition validRawCID :: "'c ipld \<Rightarrow> string \<Rightarrow> string \<Rightarrow> bool" where
  "validRawCID L value digest =
     (case rawCIDForDigest L digest of Inl e \<Rightarrow> False | Inr expected \<Rightarrow> value = cidString L expected)"

definition validCID :: "'c ipld \<Rightarrow> string \<Rightarrow> bool" where
  "validCID L value = (case cidDecode L value of Inl e \<Rightarrow> False | Inr c \<Rightarrow> True)"

definition packKeyFor :: "string \<Rightarrow> string \<Rightarrow> string" where
  "packKeyFor keyPrefix packID = keyPrefix @ ''-car-pack-v1-'' @ packID"

definition manifestKeyFor :: "string \<Rightarrow> string \<Rightarrow> string" where
  "manifestKeyFor keyPrefix manifestID = keyPrefix @ ''-car-manifest-v1-'' @ manifestID"

definition stringsHasSuffix :: "string \<Rightarrow> string \<Rightarrow> bool" where
  "stringsHasSuffix value suffix' =
     (length suffix' \<le> length value \<and> drop (length value - length suffix') value = suffix')"

section \<open>Manifests\<close>

definition manifestFormatVersion :: int where
  "manifestFormatVersion = 1"

record packDescriptor =
  pkID :: string
  pkKey :: string
  pkSize :: int

record manifestObject =
  moDigest :: string
  moCID :: string
  moPackID :: string
  moSize :: int

record manifestAction =
  maDigest :: string
  maCID :: string
  maPackID :: string
  maSize :: int
  maClosurePacks :: "string list"

record manifest =
  mfVersion :: int
  mfParents :: "string list"
  mfPacks :: "packDescriptor list"
  mfCAS :: "manifestObject list"
  mfActions :: "manifestAction list"

section \<open>To a node\<close>

definition assembleString :: "string \<Rightarrow> string \<Rightarrow> string \<times> node" where
  "assembleString key value = (key, NString value)"

definition assembleInt :: "string \<Rightarrow> int \<Rightarrow> string \<times> node" where
  "assembleInt key value = (key, NInt value)"

definition assembleStringList :: "string \<Rightarrow> string list \<Rightarrow> string \<times> node" where
  "assembleStringList key values = (key, NList (map NString values))"

definition assembleManifestActions :: "manifestAction list \<Rightarrow> string \<times> node" where
  "assembleManifestActions actions =
     (''actions'', NList (map (\<lambda>a. NMap
        [assembleString ''cid'' (maCID a), assembleString ''digest'' (maDigest a),
         assembleString ''pack'' (maPackID a),
         assembleStringList ''closure'' (sort (maClosurePacks a)),
         assembleInt ''size'' (maSize a)]) actions))"

definition assembleManifestCAS :: "manifestObject list \<Rightarrow> string \<times> node" where
  "assembleManifestCAS objects =
     (''cas'', NList (map (\<lambda>ob. NMap
        [assembleString ''cid'' (moCID ob), assembleString ''digest'' (moDigest ob),
         assembleString ''pack'' (moPackID ob), assembleInt ''size'' (moSize ob)]) objects))"

definition assembleManifestPacks :: "packDescriptor list \<Rightarrow> string \<times> node" where
  "assembleManifestPacks packs =
     (''packs'', NList (map (\<lambda>p. NMap
        [assembleString ''id'' (pkID p), assembleString ''key'' (pkKey p),
         assembleInt ''size'' (pkSize p)]) packs))"

definition manifestToNode :: "manifest \<Rightarrow> go_error + node" where
  "manifestToNode value =
     (if mfVersion value \<noteq> manifestFormatVersion then Inl (Failure ''unsupported manifest version'')
      else Inr (NMap
        [assembleManifestActions (sort_key maDigest (mfActions value)),
         assembleManifestCAS (sort_key moDigest (mfCAS value)),
         assembleManifestPacks (sort_key pkID (mfPacks value)),
         assembleStringList ''parents'' (sort (mfParents value)),
         assembleInt ''version'' (mfVersion value)]))"

section \<open>From a node\<close>

fun lookupByString :: "node \<Rightarrow> string \<Rightarrow> node option" where
  "lookupByString (NMap kvs) key = map_of kvs key"
| "lookupByString n key = None"

definition isInt64 :: "int \<Rightarrow> bool" where
  "isInt64 i \<longleftrightarrow> - maxInt64 - 1 \<le> i \<and> i \<le> maxInt64"

definition nodeString :: "node \<Rightarrow> string \<Rightarrow> go_error + string" where
  "nodeString n key =
     (case lookupByString n key of
        Some (NString s) \<Rightarrow> Inr s
      | _ \<Rightarrow> Inl (Failure (''manifest '' @ key @ '' must be a string'')))"

text \<open>\<open>AsInt\<close> fails on an unsigned value that an int64 cannot hold.\<close>

definition nodeInt :: "node \<Rightarrow> string \<Rightarrow> go_error + int" where
  "nodeInt n key =
     (case lookupByString n key of
        Some (NInt i) \<Rightarrow> if isInt64 i then Inr i else Inl (Failure ''unsigned integer out of range'')
      | _ \<Rightarrow> Inl (Failure (''manifest '' @ key @ '' must be an integer'')))"

fun stringItems :: "string \<Rightarrow> node list \<Rightarrow> go_error + string list" where
  "stringItems key [] = Inr []"
| "stringItems key (item # items) =
     (case item of
        NString s \<Rightarrow> (case stringItems key items of Inl e \<Rightarrow> Inl e | Inr values \<Rightarrow> Inr (s # values))
      | _ \<Rightarrow> Inl (Failure (''manifest '' @ key @ '' must contain strings'')))"

definition nodeStringList :: "node \<Rightarrow> string \<Rightarrow> go_error + string list" where
  "nodeStringList n key =
     (case lookupByString n key of
        Some (NList items) \<Rightarrow> stringItems key items
      | _ \<Rightarrow> Inl (Failure (''manifest '' @ key @ '' must be a list'')))"

text \<open>The loops of \<open>nodePacks\<close>, \<open>nodeCAS\<close> and \<open>nodeActions\<close>: every item must be a map.\<close>

fun mapItems :: "string \<Rightarrow> (node \<Rightarrow> go_error + 'a) \<Rightarrow> node list \<Rightarrow> go_error + 'a list" where
  "mapItems message read [] = Inr []"
| "mapItems message read (item # items) =
     (case item of
        NMap kvs \<Rightarrow>
          (case read item of Inl e \<Rightarrow> Inl e
           | Inr v \<Rightarrow> (case mapItems message read items of Inl e \<Rightarrow> Inl e
                       | Inr values \<Rightarrow> Inr (v # values)))
      | _ \<Rightarrow> Inl (Failure message))"

definition readPack :: "node \<Rightarrow> go_error + packDescriptor" where
  "readPack item =
     (case nodeString item ''id'' of Inl e \<Rightarrow> Inl e
      | Inr packID \<Rightarrow> (case nodeString item ''key'' of Inl e \<Rightarrow> Inl e
      | Inr key \<Rightarrow> (case nodeInt item ''size'' of Inl e \<Rightarrow> Inl e
      | Inr n \<Rightarrow> Inr \<lparr>pkID = packID, pkKey = key, pkSize = n\<rparr>)))"

definition nodePacks :: "node \<Rightarrow> go_error + packDescriptor list" where
  "nodePacks n =
     (case lookupByString n ''packs'' of
        Some (NList items) \<Rightarrow> mapItems ''manifest pack must be a map'' readPack items
      | _ \<Rightarrow> Inl (Failure ''manifest packs must be a list''))"

definition nodeObject :: "node \<Rightarrow> go_error + manifestObject" where
  "nodeObject item =
     (case nodeString item ''digest'' of Inl e \<Rightarrow> Inl e
      | Inr digest \<Rightarrow> (case nodeString item ''cid'' of Inl e \<Rightarrow> Inl e
      | Inr contentCID \<Rightarrow> (case nodeString item ''pack'' of Inl e \<Rightarrow> Inl e
      | Inr packID \<Rightarrow> (case nodeInt item ''size'' of Inl e \<Rightarrow> Inl e
      | Inr n \<Rightarrow> Inr \<lparr>moDigest = digest, moCID = contentCID, moPackID = packID, moSize = n\<rparr>))))"

definition nodeCAS :: "node \<Rightarrow> go_error + manifestObject list" where
  "nodeCAS n =
     (case lookupByString n ''cas'' of
        Some (NList items) \<Rightarrow> mapItems ''manifest CAS entry must be a map'' nodeObject items
      | _ \<Rightarrow> Inl (Failure ''manifest cas must be a list''))"

definition readAction :: "node \<Rightarrow> go_error + manifestAction" where
  "readAction item =
     (case nodeString item ''digest'' of Inl e \<Rightarrow> Inl e
      | Inr digest \<Rightarrow> (case nodeString item ''cid'' of Inl e \<Rightarrow> Inl e
      | Inr contentCID \<Rightarrow> (case nodeString item ''pack'' of Inl e \<Rightarrow> Inl e
      | Inr packID \<Rightarrow> (case nodeInt item ''size'' of Inl e \<Rightarrow> Inl e
      | Inr n \<Rightarrow> (case nodeStringList item ''closure'' of Inl e \<Rightarrow> Inl e
      | Inr closure \<Rightarrow> Inr \<lparr>maDigest = digest, maCID = contentCID, maPackID = packID, maSize = n,
                           maClosurePacks = closure\<rparr>)))))"

definition nodeActions :: "node \<Rightarrow> go_error + manifestAction list" where
  "nodeActions n =
     (case lookupByString n ''actions'' of
        Some (NList items) \<Rightarrow> mapItems ''manifest action entry must be a map'' readAction items
      | _ \<Rightarrow> Inl (Failure ''manifest actions must be a list''))"

section \<open>Validation\<close>

text \<open>The loop over the packs returns \<open>packIDs\<close>; the others only fail or go on.\<close>

fun validatePacks :: "packDescriptor list \<Rightarrow> string set \<Rightarrow> go_error + string set" where
  "validatePacks [] packIDs = Inr packIDs"
| "validatePacks (p # ps) packIDs =
     (if \<not> digestPattern (pkID p) \<or> pkSize p \<le> 0 \<or> pkKey p = [] \<or>
         pkKey p \<noteq> packKeyFor [] (pkID p) \<and> \<not> stringsHasSuffix (pkKey p) (''-car-pack-v1-'' @ pkID p)
      then Inl (Failure ''manifest has invalid pack descriptor'')
      else if pkID p \<in> packIDs then Inl (Failure ''manifest repeats a pack descriptor'')
      else validatePacks ps (insert (pkID p) packIDs))"

fun validateCAS ::
    "'c ipld \<Rightarrow> string set \<Rightarrow> manifestObject list \<Rightarrow> string set \<Rightarrow> go_error + unit" where
  "validateCAS L packIDs [] seen = Inr ()"
| "validateCAS L packIDs (ob # obs) seen =
     (if \<not> digestPattern (moDigest ob) \<or> moSize ob < 0 \<or> \<not> validRawCID L (moCID ob) (moDigest ob)
      then Inl (Failure ''manifest has invalid CAS entry'')
      else if moPackID ob \<notin> packIDs then Inl (Failure ''CAS entry references an undeclared pack'')
      else if moDigest ob \<in> seen then Inl (Failure ''manifest repeats a CAS digest'')
      else validateCAS L packIDs obs (insert (moDigest ob) seen))"

definition closurePackOk :: "string set \<Rightarrow> string \<Rightarrow> bool" where
  "closurePackOk packIDs packID \<longleftrightarrow> packID \<in> packIDs \<or> digestPattern packID"

fun validateActions ::
    "'c ipld \<Rightarrow> string set \<Rightarrow> manifestAction list \<Rightarrow> string set \<Rightarrow> go_error + unit" where
  "validateActions L packIDs [] seen = Inr ()"
| "validateActions L packIDs (a # as) seen =
     (if \<not> digestPattern (maDigest a) \<or> maSize a < 0 \<or> \<not> validCID L (maCID a)
      then Inl (Failure ''manifest has invalid action entry'')
      else if maPackID a \<notin> packIDs then Inl (Failure ''action entry references an undeclared pack'')
      else if \<not> list_all (closurePackOk packIDs) (maClosurePacks a)
      then Inl (Failure ''action closure has invalid pack ID'')
      else if maDigest a \<in> seen then Inl (Failure ''manifest repeats an action digest'')
      else validateActions L packIDs as (insert (maDigest a) seen))"

definition manifest_validate :: "'c ipld \<Rightarrow> manifest \<Rightarrow> go_error + unit" where
  "manifest_validate L value =
     (if length (mfParents value) > 4096 \<or> length (mfPacks value) > 4096 \<or>
         length (mfCAS value) > 100000 \<or> length (mfActions value) > 100000
      then Inl (Failure ''manifest exceeds entry limit'')
      else (case validatePacks (mfPacks value) {} of Inl e \<Rightarrow> Inl e
            | Inr packIDs \<Rightarrow>
                (case validateCAS L packIDs (mfCAS value) {} of Inl e \<Rightarrow> Inl e
                 | Inr _ \<Rightarrow>
                     (case validateActions L packIDs (mfActions value) {} of Inl e \<Rightarrow> Inl e
                      | Inr _ \<Rightarrow>
                          if list_all (validCID L) (mfParents value) then Inr ()
                          else Inl (Failure ''manifest has invalid parent CID'')))))"

definition nodeToManifest :: "'c ipld \<Rightarrow> node \<Rightarrow> go_error + manifest" where
  "nodeToManifest L n =
     (case n of NMap kvs \<Rightarrow>
        (case nodeInt n ''version'' of Inl e \<Rightarrow> Inl e
         | Inr version \<Rightarrow>
             if version \<noteq> manifestFormatVersion then Inl (Failure ''unsupported manifest version'')
             else (case nodeStringList n ''parents'' of Inl e \<Rightarrow> Inl e
             | Inr parents \<Rightarrow> (case nodePacks n of Inl e \<Rightarrow> Inl e
             | Inr packs \<Rightarrow> (case nodeCAS n of Inl e \<Rightarrow> Inl e
             | Inr cas \<Rightarrow> (case nodeActions n of Inl e \<Rightarrow> Inl e
             | Inr actions \<Rightarrow>
                 (let value = \<lparr>mfVersion = version, mfParents = parents, mfPacks = packs,
                               mfCAS = cas, mfActions = actions\<rparr>
                  in case manifest_validate L value of Inl e \<Rightarrow> Inl e | Inr _ \<Rightarrow> Inr value))))))
      | _ \<Rightarrow> Inl (Failure ''manifest must be a map''))"

section \<open>Encoding and decoding\<close>

definition encodeManifest :: "'c ipld \<Rightarrow> manifest \<Rightarrow> go_error + (bytes \<times> string)" where
  "encodeManifest L value =
     (case manifestToNode value of Inl e \<Rightarrow> Inl e
      | Inr n \<Rightarrow> (case library (dagcborEncode L n) of Inl e \<Rightarrow> Inl e
      | Inr data \<Rightarrow> (case dagCBORCID L data of Inl e \<Rightarrow> Inl e
      | Inr manifestCID \<Rightarrow> Inr (data, cidString L manifestCID))))"

definition checkManifestCID :: "'c ipld \<Rightarrow> bytes \<Rightarrow> string \<Rightarrow> go_error + unit" where
  "checkManifestCID L data expectedCID =
     (if expectedCID = [] then Inr ()
      else (case dagCBORCID L data of Inl e \<Rightarrow> Inl e
            | Inr actual \<Rightarrow>
                if cidString L actual \<noteq> expectedCID then Inl (Failure ''manifest CID mismatch'')
                else Inr ()))"

definition decodeManifest :: "'c ipld \<Rightarrow> bytes \<Rightarrow> string \<Rightarrow> go_error + manifest" where
  "decodeManifest L data expectedCID =
     (case checkManifestCID L data expectedCID of Inl e \<Rightarrow> Inl e
      | Inr _ \<Rightarrow> (case library (dagcborDecode L data) of Inl e \<Rightarrow> Inl e
      | Inr n \<Rightarrow> nodeToManifest L n))"

section \<open>What validation accepts\<close>

definition packOk :: "packDescriptor \<Rightarrow> bool" where
  "packOk p \<longleftrightarrow> digestPattern (pkID p) \<and> 0 < pkSize p \<and>
     suffix (''-car-pack-v1-'' @ pkID p) (pkKey p)"

definition objectOk :: "'c ipld \<Rightarrow> string set \<Rightarrow> manifestObject \<Rightarrow> bool" where
  "objectOk L packIDs ob \<longleftrightarrow> digestPattern (moDigest ob) \<and> 0 \<le> moSize ob \<and>
     validRawCID L (moCID ob) (moDigest ob) \<and> moPackID ob \<in> packIDs"

definition actionOk :: "'c ipld \<Rightarrow> string set \<Rightarrow> manifestAction \<Rightarrow> bool" where
  "actionOk L packIDs a \<longleftrightarrow> digestPattern (maDigest a) \<and> 0 \<le> maSize a \<and> validCID L (maCID a) \<and>
     maPackID a \<in> packIDs \<and> list_all (closurePackOk packIDs) (maClosurePacks a)"

definition validManifest :: "'c ipld \<Rightarrow> manifest \<Rightarrow> bool" where
  "validManifest L m \<longleftrightarrow>
     length (mfParents m) \<le> 4096 \<and> length (mfPacks m) \<le> 4096 \<and>
     length (mfCAS m) \<le> 100000 \<and> length (mfActions m) \<le> 100000 \<and>
     list_all packOk (mfPacks m) \<and> distinct (map pkID (mfPacks m)) \<and>
     list_all (objectOk L (pkID ` set (mfPacks m))) (mfCAS m) \<and> distinct (map moDigest (mfCAS m)) \<and>
     list_all (actionOk L (pkID ` set (mfPacks m))) (mfActions m) \<and>
     distinct (map maDigest (mfActions m)) \<and>
     list_all (validCID L) (mfParents m)"

lemma stringsHasSuffix_iff: "stringsHasSuffix v s \<longleftrightarrow> suffix s v"
proof
  assume "stringsHasSuffix v s"
  then show "suffix s v"
    unfolding stringsHasSuffix_def by (metis suffix_drop)
next
  assume "suffix s v"
  then show "stringsHasSuffix v s"
    by (auto simp: suffix_def stringsHasSuffix_def)
qed

lemma packKey_ok: "pkKey p = packKeyFor [] (pkID p) \<or> stringsHasSuffix (pkKey p) (''-car-pack-v1-'' @ pkID p)
    \<longleftrightarrow> suffix (''-car-pack-v1-'' @ pkID p) (pkKey p)"
  by (auto simp: stringsHasSuffix_iff packKeyFor_def)

lemma validatePacks_iff:
  "validatePacks ps seen = Inr ids \<longleftrightarrow>
     list_all packOk ps \<and> distinct (map pkID ps) \<and> seen \<inter> pkID ` set ps = {} \<and>
     ids = seen \<union> pkID ` set ps"
proof (induction ps arbitrary: seen)
  case (Cons p ps)
  have ok: "\<not> (\<not> digestPattern (pkID p) \<or> pkSize p \<le> 0 \<or> pkKey p = [] \<or>
      pkKey p \<noteq> packKeyFor [] (pkID p) \<and> \<not> stringsHasSuffix (pkKey p) (''-car-pack-v1-'' @ pkID p))
    \<longleftrightarrow> packOk p"
    using packKey_ok [of p] by (auto simp: packOk_def)
  show ?case
  proof (cases "packOk p \<and> pkID p \<notin> seen")
    case True
    then have "validatePacks (p # ps) seen = validatePacks ps (insert (pkID p) seen)"
      using ok by auto
    with True show ?thesis by (auto simp: Cons.IH)
  next
    case False
    then have "validatePacks (p # ps) seen \<noteq> Inr ids"
      using ok by auto
    with False show ?thesis by auto
  qed
qed auto

lemma validateCAS_iff:
  "validateCAS L ids obs seen = Inr () \<longleftrightarrow>
     list_all (objectOk L ids) obs \<and> distinct (map moDigest obs) \<and> seen \<inter> moDigest ` set obs = {}"
  by (induction obs arbitrary: seen) (auto simp: objectOk_def if_eq_iff not_less)

lemma validateActions_iff:
  "validateActions L ids as seen = Inr () \<longleftrightarrow>
     list_all (actionOk L ids) as \<and> distinct (map maDigest as) \<and> seen \<inter> maDigest ` set as = {}"
  by (induction as arbitrary: seen) (auto simp: actionOk_def if_eq_iff not_less)

lemma manifest_validate_iff: "manifest_validate L m = Inr u \<longleftrightarrow> validManifest L m"
  by (cases u)
    (auto simp: manifest_validate_def validManifest_def success_iffs validatePacks_iff validateCAS_iff
      validateActions_iff)

text \<open>
  C9. The one pass of \<open>validate\<close> over a manifest, with its maps of what it has seen, accepts exactly the
  manifests that are well formed: within the entry limits, packs, CAS entries, actions and parents
  with the right syntax, no digest or pack twice, and every CAS entry and action in a pack that
  the manifest declares.
\<close>

theorem manifest_validate_correct:
  "manifest_validate L m = Inr () \<longleftrightarrow> validManifest L m"
  by (rule manifest_validate_iff)

section \<open>Round trip\<close>

text \<open>
  Documented of \<open>dagcbor\<close>: an encoding decodes to the same data, with the entries of every map in
  the DAG-CBOR order of their keys (shorter keys first, then bytewise).
\<close>

fun cborOrder :: "node \<Rightarrow> node" where
  "cborOrder (NMap kvs) =
     NMap (sort_key (\<lambda>kv. (length (fst kv), fst kv)) (map (\<lambda>kv. (fst kv, cborOrder (snd kv))) kvs))"
| "cborOrder (NList items) = NList (map cborOrder items)"
| "cborOrder n = n"

definition dagcbor_laws :: "'c ipld \<Rightarrow> bool" where
  "dagcbor_laws L \<longleftrightarrow>
     (\<forall>n data. dagcborEncode L n = Inr data \<longrightarrow> dagcborDecode L data = Inr (cborOrder n))"

text \<open>The canonical form of a manifest: every list in the order in which it is encoded.\<close>

definition canonicalAction :: "manifestAction \<Rightarrow> manifestAction" where
  "canonicalAction a = a\<lparr>maClosurePacks := sort (maClosurePacks a)\<rparr>"

definition canonicalManifest :: "manifest \<Rightarrow> manifest" where
  "canonicalManifest m = m\<lparr>
     mfParents := sort (mfParents m), mfPacks := sort_key pkID (mfPacks m),
     mfCAS := sort_key moDigest (mfCAS m),
     mfActions := map canonicalAction (sort_key maDigest (mfActions m))\<rparr>"

definition sizesFit :: "manifest \<Rightarrow> bool" where
  "sizesFit m \<longleftrightarrow> list_all (\<lambda>p. isInt64 (pkSize p)) (mfPacks m) \<and>
     list_all (\<lambda>ob. isInt64 (moSize ob)) (mfCAS m) \<and> list_all (\<lambda>a. isInt64 (maSize a)) (mfActions m)"

lemma map_of_sort_key:
  assumes "distinct (map fst kvs)"
  shows "map_of (sort_key f kvs) = map_of kvs"
proof -
  have "mset (map fst (sort_key f kvs)) = mset (map fst kvs)" by simp
  then have "distinct (map fst (sort_key f kvs))"
    using assms mset_eq_imp_distinct_iff by blast
  with assms show ?thesis by (simp add: map_of_inject_set)
qed

lemma lookup_cborOrder:
  assumes "distinct (map fst kvs)"
  shows "lookupByString (cborOrder (NMap kvs)) key = map_option cborOrder (map_of kvs key)"
proof -
  have "distinct (map fst (map (\<lambda>kv. (fst kv, cborOrder (snd kv))) kvs))"
    using assms by (simp add: comp_def)
  then have "lookupByString (cborOrder (NMap kvs)) key =
      map_of (map (\<lambda>kv. (fst kv, cborOrder (snd kv))) kvs) key"
    by (simp add: map_of_sort_key)
  also have "\<dots> = map_option cborOrder (map_of kvs key)"
    by (induction kvs) auto
  finally show ?thesis .
qed

lemma stringItems_cborOrder: "stringItems key (map cborOrder items) = stringItems key items"
  by (induction items) (auto split: node.split)

lemma read_cborOrder:
  assumes "distinct (map fst kvs)"
  shows "nodeString (cborOrder (NMap kvs)) key = nodeString (NMap kvs) key"
    and "nodeInt (cborOrder (NMap kvs)) key = nodeInt (NMap kvs) key"
    and "nodeStringList (cborOrder (NMap kvs)) key = nodeStringList (NMap kvs) key"
  unfolding nodeString_def nodeInt_def nodeStringList_def lookup_cborOrder [OF assms]
  by (auto simp: stringItems_cborOrder split: option.split node.split)

lemma stringItems_NString: "stringItems key (map NString vs) = Inr vs"
  by (induction vs) auto

lemma mapItems_encoded:
  assumes "\<And>x. x \<in> set xs \<Longrightarrow> distinct (map fst (enc x)) \<and> read (cborOrder (NMap (enc x))) = Inr (val x)"
  shows "mapItems message read (map (\<lambda>x. cborOrder (NMap (enc x))) xs) = Inr (map val xs)"
  using assms by (induction xs) auto

text \<open>The entries of the three kinds of items, as the assembling functions write them.\<close>

definition packEntries :: "packDescriptor \<Rightarrow> (string \<times> node) list" where
  "packEntries p = [assembleString ''id'' (pkID p), assembleString ''key'' (pkKey p),
     assembleInt ''size'' (pkSize p)]"

definition objectEntries :: "manifestObject \<Rightarrow> (string \<times> node) list" where
  "objectEntries ob = [assembleString ''cid'' (moCID ob), assembleString ''digest'' (moDigest ob),
     assembleString ''pack'' (moPackID ob), assembleInt ''size'' (moSize ob)]"

definition actionEntries :: "manifestAction \<Rightarrow> (string \<times> node) list" where
  "actionEntries a = [assembleString ''cid'' (maCID a), assembleString ''digest'' (maDigest a),
     assembleString ''pack'' (maPackID a), assembleStringList ''closure'' (sort (maClosurePacks a)),
     assembleInt ''size'' (maSize a)]"

lemmas assemble_defs = assembleString_def assembleInt_def assembleStringList_def

lemma readPack_encoded:
  "isInt64 (pkSize p) \<Longrightarrow> distinct (map fst (packEntries p)) \<and>
     readPack (cborOrder (NMap (packEntries p))) = Inr p"
proof -
  assume fits: "isInt64 (pkSize p)"
  have d: "distinct (map fst (packEntries p))"
    by (simp add: packEntries_def assemble_defs)
  show ?thesis
    using fits d unfolding readPack_def read_cborOrder [OF d]
    by (simp add: packEntries_def assemble_defs nodeString_def nodeInt_def)
qed

lemma nodeObject_encoded:
  "isInt64 (moSize ob) \<Longrightarrow> distinct (map fst (objectEntries ob)) \<and>
     nodeObject (cborOrder (NMap (objectEntries ob))) = Inr ob"
proof -
  assume fits: "isInt64 (moSize ob)"
  have d: "distinct (map fst (objectEntries ob))"
    by (simp add: objectEntries_def assemble_defs)
  show ?thesis
    using fits d unfolding nodeObject_def read_cborOrder [OF d]
    by (simp add: objectEntries_def assemble_defs nodeString_def nodeInt_def)
qed

lemma readAction_encoded:
  "isInt64 (maSize a) \<Longrightarrow> distinct (map fst (actionEntries a)) \<and>
     readAction (cborOrder (NMap (actionEntries a))) = Inr (canonicalAction a)"
proof -
  assume fits: "isInt64 (maSize a)"
  have d: "distinct (map fst (actionEntries a))"
    by (simp add: actionEntries_def assemble_defs)
  show ?thesis
    using fits d unfolding readAction_def read_cborOrder [OF d]
    by (simp add: actionEntries_def assemble_defs nodeString_def nodeInt_def nodeStringList_def
        stringItems_NString canonicalAction_def)
qed

definition manifestEntries :: "manifest \<Rightarrow> (string \<times> node) list" where
  "manifestEntries m =
     [(''actions'', NList (map (\<lambda>a. NMap (actionEntries a)) (sort_key maDigest (mfActions m)))),
      (''cas'', NList (map (\<lambda>ob. NMap (objectEntries ob)) (sort_key moDigest (mfCAS m)))),
      (''packs'', NList (map (\<lambda>p. NMap (packEntries p)) (sort_key pkID (mfPacks m)))),
      (''parents'', NList (map NString (sort (mfParents m)))),
      (''version'', NInt (mfVersion m))]"

lemma manifestToNode_entries:
  "mfVersion m = manifestFormatVersion \<Longrightarrow> manifestToNode m = Inr (NMap (manifestEntries m))"
  by (simp add: manifestToNode_def manifestEntries_def assembleManifestActions_def actionEntries_def
      assembleManifestCAS_def objectEntries_def assembleManifestPacks_def packEntries_def assemble_defs)

lemma distinct_manifestEntries: "distinct (map fst (manifestEntries m))"
  by (simp add: manifestEntries_def)

lemma distinct_map_sort_key: "distinct (map f (sort_key g xs)) \<longleftrightarrow> distinct (map f xs)"
proof -
  have "mset (map f (sort_key g xs)) = mset (map f xs)" by simp
  then show ?thesis by (rule mset_eq_imp_distinct_iff)
qed

lemma list_all_sort_key: "list_all P (sort_key f xs) \<longleftrightarrow> list_all P xs"
  by (simp add: list_all_iff)

lemma canonicalAction_simps [simp]:
  "actionOk L ids (canonicalAction a) = actionOk L ids a" "maDigest (canonicalAction a) = maDigest a"
  by (simp_all add: actionOk_def canonicalAction_def list_all_iff)

lemma validManifest_canonical: "validManifest L (canonicalManifest m) \<longleftrightarrow> validManifest L m"
  by (simp add: validManifest_def canonicalManifest_def list_all_sort_key distinct_map_sort_key
      comp_def list.pred_map)

lemma nodeToManifest_encoded:
  assumes "mfVersion m = manifestFormatVersion" and fits: "sizesFit m"
  shows "nodeToManifest L (cborOrder (NMap (manifestEntries m))) =
    (case manifest_validate L (canonicalManifest m) of Inl e \<Rightarrow> Inl e | Inr _ \<Rightarrow> Inr (canonicalManifest m))"
proof -
  let ?n = "cborOrder (NMap (manifestEntries m))"
  obtain kvs where n: "?n = NMap kvs" by simp
  note rd = read_cborOrder [OF distinct_manifestEntries] lookup_cborOrder [OF distinct_manifestEntries]
  have "nodeInt ?n ''version'' = Inr (mfVersion m)"
    using assms(1) unfolding rd
    by (simp add: manifestEntries_def nodeInt_def manifestFormatVersion_def isInt64_def maxInt64_def)
  moreover have "nodeStringList ?n ''parents'' = Inr (sort (mfParents m))"
    unfolding rd by (simp add: manifestEntries_def nodeStringList_def stringItems_NString)
  moreover have "nodePacks ?n = Inr (sort_key pkID (mfPacks m))"
    unfolding nodePacks_def rd
    using fits mapItems_encoded [of "sort_key pkID (mfPacks m)" packEntries readPack "\<lambda>p. p"]
    by (simp add: manifestEntries_def comp_def readPack_encoded sizesFit_def list_all_iff del: cborOrder.simps(1))
  moreover have "nodeCAS ?n = Inr (sort_key moDigest (mfCAS m))"
    unfolding nodeCAS_def rd
    using fits mapItems_encoded [of "sort_key moDigest (mfCAS m)" objectEntries nodeObject "\<lambda>p. p"]
    by (simp add: manifestEntries_def comp_def nodeObject_encoded sizesFit_def list_all_iff del: cborOrder.simps(1))
  moreover have "nodeActions ?n = Inr (map canonicalAction (sort_key maDigest (mfActions m)))"
    unfolding nodeActions_def rd
    using fits mapItems_encoded [of "sort_key maDigest (mfActions m)" actionEntries readAction canonicalAction]
    by (simp add: manifestEntries_def comp_def readAction_encoded sizesFit_def list_all_iff del: cborOrder.simps(1))
  ultimately show ?thesis
    using assms(1) unfolding n
    by (cases m) (simp add: nodeToManifest_def canonicalManifest_def Let_def split: sum.split)
qed

lemma decodeManifest_encoded:
  assumes "dagcbor_laws L" and "validManifest L m" and "sizesFit m"
    and "encodeManifest L m = Inr (data, manifestID)"
  shows "decodeManifest L data manifestID = Inr (canonicalManifest m)"
proof -
  from assms(4) have version: "mfVersion m = manifestFormatVersion"
    by (auto simp: encodeManifest_def manifestToNode_def success_iffs)
  with assms(4) obtain c where enc: "dagcborEncode L (NMap (manifestEntries m)) = Inr data"
    and c: "dagCBORCID L data = Inr c" "manifestID = cidString L c"
    by (auto simp: encodeManifest_def manifestToNode_entries success_iffs)
  from assms(1) enc have "dagcborDecode L data = Inr (cborOrder (NMap (manifestEntries m)))"
    unfolding dagcbor_laws_def by blast
  moreover have "checkManifestCID L data manifestID = Inr ()"
    using c by (simp add: checkManifestCID_def)
  moreover have "manifest_validate L (canonicalManifest m) = Inr ()"
    using assms(2) by (simp add: manifest_validate_iff validManifest_canonical)
  ultimately show ?thesis
    by (simp only: decodeManifest_def library_simps sum.case nodeToManifest_encoded [OF version assms(3)])
qed

text \<open>
  C10. A well-formed manifest survives publication: what \<open>encodeManifest\<close> writes, \<open>decodeManifest\<close> reads back
  under the CID it returned, as the same manifest with its lists in canonical order.
\<close>

theorem decodeManifest_encodeManifest:
  assumes "dagcbor_laws L" and "validManifest L m" and "sizesFit m"
    and "encodeManifest L m = Inr (data, manifestID)"
  shows "decodeManifest L data manifestID = Inr (canonicalManifest m)"
  using assms by (rule decodeManifest_encoded)

lemma sort_key_sorted: "sorted (map f xs) \<Longrightarrow> sort_key f xs = xs"
  by (rule sort_key_id_if_sorted)

lemma manifestEntries_canonical: "manifestEntries (canonicalManifest m) = manifestEntries m"
proof -
  have acts: "sort_key maDigest (map canonicalAction (sort_key maDigest as)) =
      map canonicalAction (sort_key maDigest as)" for as
    by (rule sort_key_sorted) (simp add: comp_def)
  have "actionEntries (canonicalAction a) = actionEntries a" for a
    by (simp add: actionEntries_def canonicalAction_def sorted_sort_id)
  then show ?thesis
    by (simp add: manifestEntries_def canonicalManifest_def acts comp_def sort_key_sorted sorted_sort_id)
qed

text \<open>
  Encoding is deterministic: the manifest a reader decodes encodes to the same bytes, and so to
  the same CID and cache key, as the manifest the writer published.
\<close>

lemma encodeManifest_deterministic:
  assumes "mfVersion m = manifestFormatVersion"
  shows "encodeManifest L (canonicalManifest m) = encodeManifest L m"
proof -
  have "mfVersion (canonicalManifest m) = manifestFormatVersion"
    using assms by (simp add: canonicalManifest_def)
  with assms show ?thesis
    by (simp add: encodeManifest_def manifestToNode_entries manifestEntries_canonical)
qed

end
