(* ===== verification/Wire.thy ===== *)
theory Wire
  imports Sha256
begin

text \<open>
  \<open>internal/server/reapi_wire.go\<close>: reading protobuf messages field by field, and the REAPI \<open>Digest\<close>
  message. The decoder \<open>google.golang.org/protobuf/encoding/protowire\<close> is not part of the
  repository: its functions are the fields of a record \<open>protowire\<close>, and \<open>protowire_laws\<close> states what
  its documentation says about the lengths they return. The loop \<open>visitWireFields\<close> is also given as
  a decoder \<open>wireFields\<close> followed by a fold over the decoded fields; the parsers are verified on
  the fold.
\<close>

section \<open>The protowire library\<close>

record protowire =
  ConsumeTag :: "bytes \<Rightarrow> int \<times> int \<times> int"
  ConsumeBytes :: "bytes \<Rightarrow> bytes \<times> int"
  ConsumeVarint :: "bytes \<Rightarrow> 64 word \<times> int"
  ConsumeFieldValue :: "int \<Rightarrow> int \<Rightarrow> bytes \<Rightarrow> int"
  ParseError :: "int \<Rightarrow> string"

text \<open>The wire types of the encoding that the code names.\<close>

definition VarintType :: int where "VarintType = 0"
definition BytesType :: int where "BytesType = 2"

definition consumedOk :: "int \<Rightarrow> bytes \<Rightarrow> bool" where
  "consumedOk n data \<longleftrightarrow> n \<le> int (length data)"

text \<open>
  Documented: each function returns the number of bytes it consumed, at most the bytes it was
  given, or a negative number on a parse error; a tag is at least one byte.
\<close>

definition protowire_laws :: "protowire \<Rightarrow> bool" where
  "protowire_laws W \<longleftrightarrow>
     (\<forall>data num wt n. ConsumeTag W data = (num, wt, n) \<longrightarrow> n \<noteq> 0 \<and> consumedOk n data) \<and>
     (\<forall>data v n. ConsumeBytes W data = (v, n) \<longrightarrow> consumedOk n data) \<and>
     (\<forall>data v n. ConsumeVarint W data = (v, n) \<longrightarrow> consumedOk n data) \<and>
     (\<forall>num wt data. consumedOk (ConsumeFieldValue W num wt data) data)"

section \<open>Fields\<close>

record wireField =
  fieldNumber :: int
  wireType :: int
  bytesValue :: bytes
  varintValue :: "64 word"

definition wireField_message :: "wireField \<Rightarrow> string \<Rightarrow> go_error + bytes" where
  "wireField_message f name =
     (if wireType f \<noteq> BytesType then Inl (Failure (name @ '' has the wrong wire type''))
      else Inr (bytesValue f))"

text \<open>The \<open>switch wireType\<close> of the loop: the field and the bytes its value takes.\<close>

definition consumeFieldBody ::
    "protowire \<Rightarrow> int \<Rightarrow> int \<Rightarrow> bytes \<Rightarrow> go_error + (wireField \<times> int)" where
  "consumeFieldBody W num wt data =
     (let field = \<lparr>fieldNumber = num, wireType = wt, bytesValue = [], varintValue = 0\<rparr> in
      if wt = BytesType then
        (case ConsumeBytes W data of (value, n) \<Rightarrow>
           if n < 0 then Inl (Failure (ParseError W n))
           else Inr (field\<lparr>bytesValue := value\<rparr>, n))
      else if wt = VarintType then
        (case ConsumeVarint W data of (value, n) \<Rightarrow>
           if n < 0 then Inl (Failure (ParseError W n))
           else Inr (field\<lparr>varintValue := value\<rparr>, n))
      else
        (let consumed = ConsumeFieldValue W num wt data in
         if consumed < 0 then Inl (Failure (ParseError W consumed))
         else Inr (field, consumed)))"

text \<open>The head of the loop body: one tag and one field value.\<close>

definition consumeField :: "protowire \<Rightarrow> bytes \<Rightarrow> go_error + (wireField \<times> int \<times> bytes)" where
  "consumeField W data =
     (case ConsumeTag W data of (num, wt, consumed) \<Rightarrow>
        if consumed < 0 then Inl (Failure (ParseError W consumed))
        else if num < 1 then Inl (Failure ''protobuf field number must be positive'')
        else (case sliceFrom data consumed of Inl e \<Rightarrow> Inl e
              | Inr rest \<Rightarrow>
                  (case consumeFieldBody W num wt rest of Inl e \<Rightarrow> Inl e
                   | Inr (field, n) \<Rightarrow> Inr (field, n, rest))))"

text \<open>
  The loop. \<open>visit\<close> is the closure the parsers pass; the variables it assigns are the state \<open>s\<close>.
  A decoder that consumed nothing would make the loop spin: that is \<open>Diverges\<close>.
\<close>

function visitWireFields ::
    "protowire \<Rightarrow> bytes \<Rightarrow> (wireField \<Rightarrow> 's \<Rightarrow> go_error + 's) \<Rightarrow> 's \<Rightarrow> go_error + 's" where
  "visitWireFields W data visit s =
     (if data = [] then Inr s
      else (case consumeField W data of Inl e \<Rightarrow> Inl e
            | Inr (field, consumed, rest) \<Rightarrow>
                (case visit field s of Inl e \<Rightarrow> Inl e
                 | Inr s' \<Rightarrow>
                     (case sliceFrom rest consumed of Inl e \<Rightarrow> Inl e
                      | Inr data' \<Rightarrow>
                          if length data' < length data then visitWireFields W data' visit s'
                          else Inl Diverges))))"
  by pat_completeness auto
termination
  by (relation "measure (\<lambda>(W, data, visit, s). length data)") auto

declare visitWireFields.simps [simp del]

section \<open>The loop as decoding followed by a fold\<close>

text \<open>The fields of a message up to its end or to the first error, and that error.\<close>

function wireFields :: "protowire \<Rightarrow> bytes \<Rightarrow> wireField list \<times> go_error option" where
  "wireFields W data =
     (if data = [] then ([], None)
      else (case consumeField W data of Inl e \<Rightarrow> ([], Some e)
            | Inr (field, consumed, rest) \<Rightarrow>
                (case sliceFrom rest consumed of Inl e \<Rightarrow> ([field], Some e)
                 | Inr data' \<Rightarrow>
                     if length data' < length data
                     then (case wireFields W data' of (fs, err) \<Rightarrow> (field # fs, err))
                     else ([field], Some Diverges))))"
  by pat_completeness auto
termination
  by (relation "measure (\<lambda>(W, data). length data)") auto

declare wireFields.simps [simp del]

definition wireFold ::
    "(wireField \<Rightarrow> 's \<Rightarrow> go_error + 's) \<Rightarrow> 's \<Rightarrow> wireField list \<times> go_error option \<Rightarrow> go_error + 's" where
  "wireFold visit s r =
     (case foldE visit (fst r) s of Inl e \<Rightarrow> Inl e
      | Inr s' \<Rightarrow> (case snd r of Some e \<Rightarrow> Inl e | None \<Rightarrow> Inr s'))"

lemma visitWireFields_fold:
  "visitWireFields W data visit s = wireFold visit s (wireFields W data)"
proof (induction W data visit s rule: visitWireFields.induct)
  case (1 W data visit s)
  show ?case
    by (subst visitWireFields.simps, subst wireFields.simps)
      (auto simp: wireFold_def 1 split: sum.split prod.split)
qed

lemma visitWireFields_Inr:
  "visitWireFields W data visit s = Inr t \<longleftrightarrow>
     snd (wireFields W data) = None \<and> foldE visit (fst (wireFields W data)) s = Inr t"
  by (auto simp: visitWireFields_fold wireFold_def split: sum.splits option.splits)

section \<open>What a visitor owes the loop\<close>

text \<open>
  The parsers differ only in the visitor they pass. A visitor that establishes an invariant of its
  variables and keeps it at every field makes a parser whose result satisfies it; a visitor that
  never panics makes a parser that never panics and always returns.
\<close>

locale field_visitor =
  fixes visit :: "protowire \<Rightarrow> wireField \<Rightarrow> 's \<Rightarrow> go_error + 's"
    and inv :: "'s \<Rightarrow> bool"
    and start :: 's
  assumes inv_start: "inv start"
    and inv_visit: "inv s \<Longrightarrow> visit W f s = Inr s' \<Longrightarrow> inv s'"
    and visit_safe: "protowire_laws W \<Longrightarrow> \<not> crashed (visit W f s)"
begin

lemma result_inv: "visitWireFields W data (visit W) start = Inr t \<Longrightarrow> inv t"
  by (auto simp: visitWireFields_Inr intro: foldE_inv [where I = inv] inv_start inv_visit)

end

lemma consumeFieldBody_bounds:
  assumes "protowire_laws W" and "consumeFieldBody W num wt data = Inr (f, n)"
  shows "0 \<le> n \<and> n \<le> int (length data)"
  using assms
  by (auto simp: protowire_laws_def consumedOk_def consumeFieldBody_def Let_def
      split: if_splits prod.splits)

lemma consumeFieldBody_safe: "\<not> crashed (consumeFieldBody W num wt data)"
  by (auto simp: consumeFieldBody_def Let_def split: prod.split)

lemma consumeField_safe: "protowire_laws W \<Longrightarrow> \<not> crashed (consumeField W data)"
  using consumeFieldBody_safe [of W]
  by (auto simp: consumeField_def sliceFrom_def protowire_laws_def consumedOk_def
      split: prod.split sum.split)
    (metis crashed_Inl_cong old.sum.exhaust)

lemma consumeField_bounds:
  assumes "protowire_laws W" and "consumeField W data = Inr (f, n, rest)"
  shows "0 \<le> n \<and> n \<le> int (length rest) \<and> length rest < length data"
proof -
  from assms(2) obtain num wt c where tag: "ConsumeTag W data = (num, wt, c)"
    and "0 \<le> c" and rest: "sliceFrom data c = Inr rest"
    and body: "consumeFieldBody W num wt rest = Inr (f, n)"
    by (auto simp: consumeField_def split: prod.splits if_splits sum.splits)
  moreover from assms(1) tag have "c \<noteq> 0" by (auto simp: protowire_laws_def)
  ultimately show ?thesis
    using consumeFieldBody_bounds [OF assms(1) body] by (auto simp: sliceFrom_Inr)
qed

lemma wireFields_safe:
  assumes "protowire_laws W"
  shows "snd (wireFields W data) \<noteq> Some Diverges \<and> snd (wireFields W data) \<noteq> Some (Panic m)"
proof (induction "length data" arbitrary: data rule: less_induct)
  case less
  show ?case
  proof (cases "consumeField W data")
    case (Inl e)
    with consumeField_safe [OF assms, of data] show ?thesis
      by (auto simp: crashed_Inl_iff wireFields.simps [of W data])
  next
    case (Inr r)
    obtain f n rest where r: "consumeField W data = Inr (f, n, rest)"
      using Inr by (cases r) auto
    from consumeField_bounds [OF assms r] have next_data: "sliceFrom rest n = Inr (drop (nat n) rest)"
      and shorter: "length (drop (nat n) rest) < length data"
      by (auto simp: sliceFrom_def)
    show ?thesis
      using r next_data shorter less [OF shorter]
      by (auto simp: wireFields.simps [of W data] split: prod.split)
  qed
qed

text \<open>With the decoder keeping its promises, a parser with a safe visitor returns.\<close>

lemma visitWireFields_safe:
  assumes "protowire_laws W" and "\<And>f s. \<not> crashed (visit f s)"
  shows "\<not> crashed (visitWireFields W data visit s)"
proof -
  have "\<not> crashed (foldE visit (fst (wireFields W data)) s)"
    using assms(2) by (rule foldE_not_crashed)
  then show ?thesis
    using wireFields_safe [OF assms(1), of data]
    by (auto simp: visitWireFields_fold wireFold_def crashed_Inl_iff split: sum.split option.split)
qed

context field_visitor begin

lemma result_safe: "protowire_laws W \<Longrightarrow> \<not> crashed (visitWireFields W data (visit W) s)"
  by (rule visitWireFields_safe) (auto simp: visit_safe)

end

lemma wireField_message_safe [safe]: "\<not> crashed (wireField_message f n)"
  by (simp add: wireField_message_def)

section \<open>Digests\<close>

record digestReference =
  refHash :: string
  refSize :: int

definition isImplicitEmptyDigest :: "digestReference \<Rightarrow> bool" where
  "isImplicitEmptyDigest r = (refHash r = emptySHA256Digest \<and> refSize r = 0)"

text \<open>The variables \<open>hash\<close>, \<open>size\<close>, \<open>hashSeen\<close> and \<open>sizeSeen\<close> of \<open>parseDigest\<close>.\<close>

record digestVars =
  dvHash :: string
  dvSize :: int
  dvHashSeen :: bool
  dvSizeSeen :: bool

definition digestVars0 :: digestVars where
  "digestVars0 = \<lparr>dvHash = [], dvSize = 0, dvHashSeen = False, dvSizeSeen = False\<rparr>"

definition parseDigestVisit :: "protowire \<Rightarrow> wireField \<Rightarrow> digestVars \<Rightarrow> go_error + digestVars" where
  "parseDigestVisit W field v =
     (if fieldNumber field = 1 then
        (case wireField_message field ''digest.hash'' of Inl e \<Rightarrow> Inl e
         | Inr value \<Rightarrow>
             if dvHashSeen v then Inl (Failure ''digest.hash is repeated'')
             else Inr (v\<lparr>dvHashSeen := True, dvHash := stringOfBytes value\<rparr>))
      else if fieldNumber field = 2 then
        (if wireType field \<noteq> VarintType then Inl (Failure ''digest.size_bytes has the wrong wire type'')
         else if dvSizeSeen v then Inl (Failure ''digest.size_bytes is repeated'')
         else if uint (varintValue field) > maxInt64
           then Inl (Failure ''digest.size_bytes is negative or overflows int64'')
         else Inr (v\<lparr>dvSizeSeen := True, dvSize := uint (varintValue field)\<rparr>))
      else Inr v)"

definition parseDigest :: "protowire \<Rightarrow> bytes \<Rightarrow> go_error + digestReference" where
  "parseDigest W data =
     (case visitWireFields W data (parseDigestVisit W) digestVars0 of Inl e \<Rightarrow> Inl e
      | Inr v \<Rightarrow>
          if \<not> dvHashSeen v \<or> \<not> digestPattern (dvHash v)
          then Inl (Failure ''digest.hash is not a lowercase SHA-256 digest'')
          else Inr \<lparr>refHash = dvHash v, refSize = dvSize v\<rparr>)"

text \<open>A well-formed reference: the syntax of a digest and a size that is an int64 and not negative.\<close>

definition wfReference :: "digestReference \<Rightarrow> bool" where
  "wfReference r \<longleftrightarrow> digestPattern (refHash r) \<and> 0 \<le> refSize r \<and> refSize r \<le> maxInt64"

interpretation digest_visitor:
  field_visitor parseDigestVisit "\<lambda>v. 0 \<le> dvSize v \<and> dvSize v \<le> maxInt64" digestVars0
  by unfold_locales
    (auto simp: digestVars0_def maxInt64_def parseDigestVisit_def wireField_message_def
      split: if_splits)

lemma parseDigest_wf: "parseDigest W data = Inr r \<Longrightarrow> wfReference r"
  by (auto simp: parseDigest_def wfReference_def split: sum.splits if_splits
      dest: digest_visitor.result_inv)

lemma parseDigest_safe [safe]: "protowire_laws W \<Longrightarrow> \<not> crashed (parseDigest W data)"
  unfolding parseDigest_def by (intro safe digest_visitor.result_safe)

end
