(* ===== verification/ActionResult.thy ===== *)
theory ActionResult
  imports Wire
begin

text \<open>
  \<open>internal/server/action_result.go\<close>: reading a REAPI \<open>ActionResult\<close> and collecting the CAS objects it
  refers to. A \<open>digestCollection\<close> is an insertion-ordered list without repeated hashes; the three
  collections of a result are the blobs, the \<open>Tree\<close> messages and the root directories it needs.
\<close>

section \<open>Collections of digests\<close>

definition maxActionResultObjects :: nat where
  "maxActionResultObjects = 100000"

record digestCollection =
  dcValues :: "digestReference list"
  dcSizes :: "string \<rightharpoonup> int"

definition newDigestCollection :: digestCollection where
  "newDigestCollection = \<lparr>dcValues = [], dcSizes = Map.empty\<rparr>"

definition digestCollection_add ::
    "digestReference \<Rightarrow> digestCollection \<Rightarrow> go_error + digestCollection" where
  "digestCollection_add r c =
     (case dcSizes c (refHash r) of
        Some existingSize \<Rightarrow>
          if existingSize \<noteq> refSize r
          then Inl (Failure (''digest '' @ refHash r @ '' has inconsistent sizes''))
          else Inr c
      | None \<Rightarrow> Inr (c\<lparr>dcSizes := (dcSizes c)(refHash r \<mapsto> refSize r),
                       dcValues := dcValues c @ [r]\<rparr>))"

text \<open>
  The two fields agree: the map holds exactly the hashes of the list, each once, with its size.
  \<open>P\<close> is what is known of each collected reference.
\<close>

definition collectionInv :: "(digestReference \<Rightarrow> bool) \<Rightarrow> digestCollection \<Rightarrow> bool" where
  "collectionInv P c \<longleftrightarrow>
     distinct (map refHash (dcValues c)) \<and>
     dcSizes c = map_of (map (\<lambda>r. (refHash r, refSize r)) (dcValues c)) \<and>
     list_all P (dcValues c)"

lemma collectionInv_new [simp]: "collectionInv P newDigestCollection"
  by (simp add: collectionInv_def newDigestCollection_def)

lemma digestReference_eqI:
  "refHash r = refHash q \<Longrightarrow> refSize r = refSize q \<Longrightarrow> (r :: digestReference) = q"
  by (cases r; cases q) simp

lemma map_of_refs:
  assumes "distinct (map refHash (rs :: digestReference list))"
  shows "map_of (map (\<lambda>r. (refHash r, refSize r)) rs) (refHash r) = Some (refSize r) \<longleftrightarrow> r \<in> set rs"
  using assms
proof (induction rs)
  case (Cons q rs)
  show ?case
  proof (cases "refHash q = refHash r")
    case True
    with Cons.prems have "r \<notin> set rs" by (metis image_eqI image_set distinct.simps(2) list.simps(9))
    with True show ?thesis using digestReference_eqI [of q r] by auto
  next
    case False
    with Cons show ?thesis by auto
  qed
qed simp

lemma map_of_refs_None:
  "map_of (map (\<lambda>r. (refHash r, refSize r)) rs) h = None \<longleftrightarrow> h \<notin> refHash ` set rs"
  by (induction rs) auto

lemma map_of_refs_snoc:
  "refHash r \<notin> refHash ` set rs \<Longrightarrow>
     map_of (map (\<lambda>r. (refHash r, refSize r)) rs @ [(refHash r, refSize r)]) =
       (map_of (map (\<lambda>r. (refHash r, refSize r)) rs))(refHash r \<mapsto> refSize r)"
  by (induction rs) (auto simp: fun_upd_twist simp del: map_of_append)

lemma digestCollection_add_Inr:
  assumes "collectionInv P c" and "digestCollection_add r c = Inr c'"
  shows "set (dcValues c') = insert r (set (dcValues c))"
    and "P r \<Longrightarrow> collectionInv P c'"
proof -
  have d: "distinct (map refHash (dcValues c))"
    and m: "dcSizes c = map_of (map (\<lambda>r. (refHash r, refSize r)) (dcValues c))"
    using assms(1) by (auto simp: collectionInv_def)
  show "set (dcValues c') = insert r (set (dcValues c))"
  proof (cases "dcSizes c (refHash r)")
    case None
    with assms(2) show ?thesis by (auto simp: digestCollection_add_def)
  next
    case (Some n)
    with assms(2) have "c' = c" "n = refSize r"
      by (auto simp: digestCollection_add_def split: if_splits)
    with Some show ?thesis
      using map_of_refs [OF d, of r] m by auto
  qed
  assume "P r"
  show "collectionInv P c'"
  proof (cases "dcSizes c (refHash r)")
    case None
    then have "refHash r \<notin> refHash ` set (dcValues c)"
      using m map_of_refs_None [of "dcValues c" "refHash r"] by simp
    moreover from None assms(2) have "dcSizes c' = (dcSizes c)(refHash r \<mapsto> refSize r)"
      "dcValues c' = dcValues c @ [r]"
      by (auto simp: digestCollection_add_def)
    ultimately show ?thesis
      using assms(1) \<open>P r\<close>
      by (auto simp: collectionInv_def map_of_refs_snoc simp del: map_of_append)
  next
    case (Some n)
    with assms show ?thesis by (auto simp: digestCollection_add_def split: if_splits)
  qed
qed

lemma digestCollection_add_conflict:
  assumes "collectionInv P c" and "q \<in> set (dcValues c)"
    and "refHash q = refHash r" and "refSize q \<noteq> refSize r"
  shows "\<exists>m. digestCollection_add r c = Inl (Failure m)"
proof -
  have "dcSizes c (refHash r) = Some (refSize q)"
    using assms map_of_refs [of "dcValues c" q]
    by (auto simp: collectionInv_def)
  with assms(4) show ?thesis by (simp add: digestCollection_add_def)
qed

lemma digestCollection_add_safe [safe]: "\<not> crashed (digestCollection_add r c)"
  unfolding digestCollection_add_def by (intro safe)

section \<open>Output files and directories\<close>

text \<open>The variables \<open>digest\<close> and \<open>contentsInline\<close> of \<open>parseOutputFile\<close>.\<close>

definition parseOutputFileVisit ::
    "protowire \<Rightarrow> wireField \<Rightarrow> digestReference option \<times> bool
      \<Rightarrow> go_error + (digestReference option \<times> bool)" where
  "parseOutputFileVisit W field v =
     (if fieldNumber field = 2 then
        (case wireField_message field ''output_file.digest'' of Inl e \<Rightarrow> Inl e
         | Inr message \<Rightarrow>
             (case parseDigest W message of Inl e \<Rightarrow> Inl e
              | Inr reference \<Rightarrow>
                  if fst v \<noteq> None then Inl (Failure ''output_file.digest is repeated'')
                  else Inr (Some reference, snd v)))
      else if fieldNumber field = 5 then
        (case wireField_message field ''output_file.contents'' of Inl e \<Rightarrow> Inl e
         | Inr _ \<Rightarrow> Inr (fst v, True))
      else Inr v)"

definition parseOutputFile ::
    "protowire \<Rightarrow> bytes \<Rightarrow> go_error + (digestReference option \<times> bool)" where
  "parseOutputFile W data =
     (case visitWireFields W data (parseOutputFileVisit W) (None, False) of Inl e \<Rightarrow> Inl e
      | Inr (digest, contentsInline) \<Rightarrow>
          if digest = None \<and> \<not> contentsInline
          then Inl (Failure ''output_file has neither digest nor inline contents'')
          else Inr (digest, contentsInline))"

text \<open>The variables \<open>tree\<close> and \<open>root\<close> of \<open>parseOutputDirectory\<close>.\<close>

definition parseOutputDirectoryVisit ::
    "protowire \<Rightarrow> wireField \<Rightarrow> digestReference option \<times> digestReference option
      \<Rightarrow> go_error + (digestReference option \<times> digestReference option)" where
  "parseOutputDirectoryVisit W field v =
     (if fieldNumber field = 3 then
        (case wireField_message field ''output_directory.tree_digest'' of Inl e \<Rightarrow> Inl e
         | Inr message \<Rightarrow>
             (case parseDigest W message of Inl e \<Rightarrow> Inl e
              | Inr reference \<Rightarrow>
                  if fst v \<noteq> None then Inl (Failure ''output_directory.tree_digest is repeated'')
                  else Inr (Some reference, snd v)))
      else if fieldNumber field = 5 then
        (case wireField_message field ''output_directory.root_directory_digest'' of Inl e \<Rightarrow> Inl e
         | Inr message \<Rightarrow>
             (case parseDigest W message of Inl e \<Rightarrow> Inl e
              | Inr reference \<Rightarrow>
                  if snd v \<noteq> None
                  then Inl (Failure ''output_directory.root_directory_digest is repeated'')
                  else Inr (fst v, Some reference)))
      else Inr v)"

definition parseOutputDirectory ::
    "protowire \<Rightarrow> bytes \<Rightarrow> go_error + (digestReference option \<times> digestReference option)" where
  "parseOutputDirectory W data =
     (case visitWireFields W data (parseOutputDirectoryVisit W) (None, None) of Inl e \<Rightarrow> Inl e
      | Inr (tree, root) \<Rightarrow>
          if tree = None \<and> root = None
          then Inl (Failure ''output_directory has no tree or root directory digest'')
          else Inr (tree, root))"

definition wfOptional :: "digestReference option \<Rightarrow> bool" where
  "wfOptional r \<longleftrightarrow> (\<forall>d. r = Some d \<longrightarrow> wfReference d)"

lemma wfOptional_simps [simp]: "wfOptional None" "wfOptional (Some d) = wfReference d"
  by (simp_all add: wfOptional_def)

interpretation output_file_visitor:
  field_visitor parseOutputFileVisit "\<lambda>v. wfOptional (fst v)" "(None, False)"
proof unfold_locales
  fix W f and s s' :: "digestReference option \<times> bool"
  show "wfOptional (fst s) \<Longrightarrow> parseOutputFileVisit W f s = Inr s' \<Longrightarrow> wfOptional (fst s')"
    by (auto simp: parseOutputFileVisit_def split: if_splits sum.splits dest: parseDigest_wf)
  show "protowire_laws W \<Longrightarrow> \<not> crashed (parseOutputFileVisit W f s)"
    unfolding parseOutputFileVisit_def by (intro safe)
qed simp

interpretation output_directory_visitor:
  field_visitor parseOutputDirectoryVisit "\<lambda>v. wfOptional (fst v) \<and> wfOptional (snd v)" "(None, None)"
proof unfold_locales
  fix W f and s s' :: "digestReference option \<times> digestReference option"
  show "wfOptional (fst s) \<and> wfOptional (snd s) \<Longrightarrow> parseOutputDirectoryVisit W f s = Inr s'
    \<Longrightarrow> wfOptional (fst s') \<and> wfOptional (snd s')"
    by (auto simp: parseOutputDirectoryVisit_def split: if_splits sum.splits dest: parseDigest_wf)
  show "protowire_laws W \<Longrightarrow> \<not> crashed (parseOutputDirectoryVisit W f s)"
    unfolding parseOutputDirectoryVisit_def by (intro safe)
qed simp

lemma parseOutputFile_wf: "parseOutputFile W data = Inr (d, inline) \<Longrightarrow> wfOptional d"
  by (auto simp: parseOutputFile_def split: sum.splits if_splits prod.splits
      dest!: output_file_visitor.result_inv)

lemma parseOutputFile_safe [safe]: "protowire_laws W \<Longrightarrow> \<not> crashed (parseOutputFile W data)"
  unfolding parseOutputFile_def by (intro safe output_file_visitor.result_safe)

lemma parseOutputDirectory_wf:
  "parseOutputDirectory W data = Inr (t, r) \<Longrightarrow> wfOptional t \<and> wfOptional r"
  by (auto simp: parseOutputDirectory_def split: sum.splits if_splits prod.splits
      dest!: output_directory_visitor.result_inv)

lemma parseOutputDirectory_safe [safe]: "protowire_laws W \<Longrightarrow> \<not> crashed (parseOutputDirectory W data)"
  unfolding parseOutputDirectory_def by (intro safe output_directory_visitor.result_safe)

section \<open>Action results\<close>

record actionResultReferences =
  arBlobs :: digestCollection
  arTrees :: digestCollection
  arDirectories :: digestCollection

definition newActionResultReferences :: actionResultReferences where
  "newActionResultReferences =
     \<lparr>arBlobs = newDigestCollection, arTrees = newDigestCollection,
      arDirectories = newDigestCollection\<rparr>"

text \<open>The variables of \<open>parseActionResult\<close>: the references and what it has seen of stdout and stderr.\<close>

record actionResultVars =
  avReferences :: actionResultReferences
  avStdoutDigest :: "digestReference option"
  avStderrDigest :: "digestReference option"
  avStdoutInline :: bool
  avStderrInline :: bool

definition actionResultVars0 :: actionResultVars where
  "actionResultVars0 =
     \<lparr>avReferences = newActionResultReferences, avStdoutDigest = None, avStderrDigest = None,
      avStdoutInline = False, avStderrInline = False\<rparr>"

definition addBlob :: "digestReference \<Rightarrow> actionResultReferences \<Rightarrow> go_error + actionResultReferences" where
  "addBlob r refs =
     (case digestCollection_add r (arBlobs refs) of Inl e \<Rightarrow> Inl e | Inr c \<Rightarrow> Inr (refs\<lparr>arBlobs := c\<rparr>))"

definition addTree :: "digestReference option \<Rightarrow> actionResultReferences \<Rightarrow> go_error + actionResultReferences" where
  "addTree tree refs =
     (case tree of None \<Rightarrow> Inr refs
      | Some r \<Rightarrow>
          (case digestCollection_add r (arTrees refs) of Inl e \<Rightarrow> Inl e
           | Inr c \<Rightarrow> Inr (refs\<lparr>arTrees := c\<rparr>)))"

definition addDirectory :: "digestReference option \<Rightarrow> actionResultReferences \<Rightarrow> go_error + actionResultReferences" where
  "addDirectory root refs =
     (case root of None \<Rightarrow> Inr refs
      | Some r \<Rightarrow>
          (case digestCollection_add r (arDirectories refs) of Inl e \<Rightarrow> Inl e
           | Inr c \<Rightarrow> Inr (refs\<lparr>arDirectories := c\<rparr>)))"

definition parseActionResultVisit ::
    "protowire \<Rightarrow> wireField \<Rightarrow> actionResultVars \<Rightarrow> go_error + actionResultVars" where
  "parseActionResultVisit W field v =
     (if fieldNumber field = 2 then
        (case wireField_message field ''action_result.output_files'' of Inl e \<Rightarrow> Inl e
         | Inr message \<Rightarrow>
             (case parseOutputFile W message of Inl e \<Rightarrow> Inl e
              | Inr (digest, inline) \<Rightarrow>
                  (case digest of None \<Rightarrow> Inr v
                   | Some r \<Rightarrow>
                       if inline then Inr v
                       else (case addBlob r (avReferences v) of Inl e \<Rightarrow> Inl e
                             | Inr refs \<Rightarrow> Inr (v\<lparr>avReferences := refs\<rparr>)))))
      else if fieldNumber field = 3 then
        (case wireField_message field ''action_result.output_directories'' of Inl e \<Rightarrow> Inl e
         | Inr message \<Rightarrow>
             (case parseOutputDirectory W message of Inl e \<Rightarrow> Inl e
              | Inr (tree, root) \<Rightarrow>
                  (case addTree tree (avReferences v) of Inl e \<Rightarrow> Inl e
                   | Inr refs \<Rightarrow>
                       (case addDirectory root refs of Inl e \<Rightarrow> Inl e
                        | Inr refs' \<Rightarrow> Inr (v\<lparr>avReferences := refs'\<rparr>)))))
      else if fieldNumber field = 5 then
        (case wireField_message field ''action_result.stdout_raw'' of Inl e \<Rightarrow> Inl e
         | Inr _ \<Rightarrow> Inr (v\<lparr>avStdoutInline := True\<rparr>))
      else if fieldNumber field = 6 then
        (case wireField_message field ''action_result.stdout_digest'' of Inl e \<Rightarrow> Inl e
         | Inr message \<Rightarrow>
             (case parseDigest W message of Inl e \<Rightarrow> Inl e
              | Inr reference \<Rightarrow> Inr (v\<lparr>avStdoutDigest := Some reference\<rparr>)))
      else if fieldNumber field = 7 then
        (case wireField_message field ''action_result.stderr_raw'' of Inl e \<Rightarrow> Inl e
         | Inr _ \<Rightarrow> Inr (v\<lparr>avStderrInline := True\<rparr>))
      else if fieldNumber field = 8 then
        (case wireField_message field ''action_result.stderr_digest'' of Inl e \<Rightarrow> Inl e
         | Inr message \<Rightarrow>
             (case parseDigest W message of Inl e \<Rightarrow> Inl e
              | Inr reference \<Rightarrow> Inr (v\<lparr>avStderrDigest := Some reference\<rparr>)))
      else Inr v)"

text \<open>The two \<open>if\<close>s after the loop: a stream counts as a blob unless its bytes are inline.\<close>

definition addStream ::
    "digestReference option \<Rightarrow> bool \<Rightarrow> actionResultReferences \<Rightarrow> go_error + actionResultReferences" where
  "addStream digest inline refs =
     (case digest of None \<Rightarrow> Inr refs
      | Some r \<Rightarrow> if inline then Inr refs else addBlob r refs)"

definition parseActionResult :: "protowire \<Rightarrow> bytes \<Rightarrow> go_error + actionResultReferences" where
  "parseActionResult W data =
     (case visitWireFields W data (parseActionResultVisit W) actionResultVars0 of Inl e \<Rightarrow> Inl e
      | Inr v \<Rightarrow>
          (case addStream (avStdoutDigest v) (avStdoutInline v) (avReferences v) of Inl e \<Rightarrow> Inl e
           | Inr refs \<Rightarrow> addStream (avStderrDigest v) (avStderrInline v) refs))"

text \<open>Every collection of a result has distinct, well-formed references.\<close>

definition referencesInv :: "actionResultReferences \<Rightarrow> bool" where
  "referencesInv refs \<longleftrightarrow> collectionInv wfReference (arBlobs refs) \<and>
     collectionInv wfReference (arTrees refs) \<and> collectionInv wfReference (arDirectories refs)"

lemma addBlob_inv: "referencesInv refs \<Longrightarrow> wfReference r \<Longrightarrow> addBlob r refs = Inr refs' \<Longrightarrow> referencesInv refs'"
  by (auto simp: addBlob_def referencesInv_def split: sum.splits intro: digestCollection_add_Inr(2))

lemma addTree_inv: "referencesInv refs \<Longrightarrow> wfOptional t \<Longrightarrow> addTree t refs = Inr refs' \<Longrightarrow> referencesInv refs'"
  by (auto simp: addTree_def referencesInv_def split: sum.splits option.splits
      intro: digestCollection_add_Inr(2))

lemma addDirectory_inv:
  "referencesInv refs \<Longrightarrow> wfOptional t \<Longrightarrow> addDirectory t refs = Inr refs' \<Longrightarrow> referencesInv refs'"
  by (auto simp: addDirectory_def referencesInv_def split: sum.splits option.splits
      intro: digestCollection_add_Inr(2))

lemma addStream_inv:
  "referencesInv refs \<Longrightarrow> wfOptional t \<Longrightarrow> addStream t inline refs = Inr refs' \<Longrightarrow> referencesInv refs'"
  by (auto simp: addStream_def split: option.splits if_splits intro: addBlob_inv)

lemma add_safe [safe]:
  "\<not> crashed (addBlob r refs)" "\<not> crashed (addTree t refs)" "\<not> crashed (addDirectory t refs)"
  "\<not> crashed (addStream t inline refs)"
  unfolding addBlob_def addTree_def addDirectory_def addStream_def by (intro safe)+

definition actionResultVarsInv :: "actionResultVars \<Rightarrow> bool" where
  "actionResultVarsInv v \<longleftrightarrow>
     referencesInv (avReferences v) \<and> wfOptional (avStdoutDigest v) \<and> wfOptional (avStderrDigest v)"

lemmas add_inv = addBlob_inv [rotated 2] addTree_inv [rotated 2] addDirectory_inv [rotated 2]
  addStream_inv [rotated 2]

interpretation action_result_visitor:
  field_visitor parseActionResultVisit actionResultVarsInv actionResultVars0
proof unfold_locales
  show "actionResultVarsInv actionResultVars0"
    by (simp add: actionResultVarsInv_def actionResultVars0_def newActionResultReferences_def
        referencesInv_def)
  fix W f s s'
  show "actionResultVarsInv s \<Longrightarrow> parseActionResultVisit W f s = Inr s' \<Longrightarrow> actionResultVarsInv s'"
    by (auto simp: parseActionResultVisit_def actionResultVarsInv_def success_iffs
        dest!: parseDigest_wf parseOutputFile_wf parseOutputDirectory_wf dest: add_inv)
  show "protowire_laws W \<Longrightarrow> \<not> crashed (parseActionResultVisit W f s)"
    unfolding parseActionResultVisit_def by (intro safe)
qed

lemma parseActionResult_inv: "parseActionResult W data = Inr refs \<Longrightarrow> referencesInv refs"
  using addStream_inv
  by (auto simp: parseActionResult_def actionResultVarsInv_def case_Inr_iff
      dest!: action_result_visitor.result_inv) blast

lemma parseActionResult_safe [safe]: "protowire_laws W \<Longrightarrow> \<not> crashed (parseActionResult W data)"
  unfolding parseActionResult_def by (intro safe action_result_visitor.result_safe)

section \<open>What an action result refers to\<close>

text \<open>
  The references that REAPI says a client needs, read off the decoded fields: the digest of an
  output file that is not inline, the two digests of an output directory, and for each of stdout
  and stderr the last digest given, unless the raw field is present.
\<close>

definition outputFileBlobs :: "protowire \<Rightarrow> wireField list \<Rightarrow> digestReference set" where
  "outputFileBlobs W fs =
     {r. \<exists>f \<in> set fs. fieldNumber f = 2 \<and> parseOutputFile W (bytesValue f) = Inr (Some r, False)}"

definition outputTrees :: "protowire \<Rightarrow> wireField list \<Rightarrow> digestReference set" where
  "outputTrees W fs =
     {r. \<exists>f \<in> set fs. fieldNumber f = 3 \<and>
        (\<exists>root. parseOutputDirectory W (bytesValue f) = Inr (Some r, root))}"

definition outputRoots :: "protowire \<Rightarrow> wireField list \<Rightarrow> digestReference set" where
  "outputRoots W fs =
     {r. \<exists>f \<in> set fs. fieldNumber f = 3 \<and>
        (\<exists>tree. parseOutputDirectory W (bytesValue f) = Inr (tree, Some r))}"

definition lastDigest :: "protowire \<Rightarrow> int \<Rightarrow> wireField list \<Rightarrow> digestReference option" where
  "lastDigest W n fs =
     (case filter (\<lambda>f. fieldNumber f = n) (rev fs) of [] \<Rightarrow> None
      | f # _ \<Rightarrow> (case parseDigest W (bytesValue f) of Inl e \<Rightarrow> None | Inr r \<Rightarrow> Some r))"

definition hasField :: "int \<Rightarrow> wireField list \<Rightarrow> bool" where
  "hasField n fs \<longleftrightarrow> (\<exists>f \<in> set fs. fieldNumber f = n)"

definition streamBlob :: "protowire \<Rightarrow> int \<Rightarrow> int \<Rightarrow> wireField list \<Rightarrow> digestReference set" where
  "streamBlob W digestField rawField fs =
     (if hasField rawField fs then {} else set_option (lastDigest W digestField fs))"

lemma field_lists_snoc [simp]:
  "outputFileBlobs W [] = {}" "outputTrees W [] = {}" "outputRoots W [] = {}"
  "lastDigest W n [] = None" "\<not> hasField n []"
  "hasField n (fs @ [f]) \<longleftrightarrow> fieldNumber f = n \<or> hasField n fs"
  by (auto simp: outputFileBlobs_def outputTrees_def outputRoots_def lastDigest_def hasField_def)

lemma lastDigest_snoc:
  "lastDigest W n (fs @ [f]) =
     (if fieldNumber f = n
      then (case parseDigest W (bytesValue f) of Inl e \<Rightarrow> None | Inr r \<Rightarrow> Some r)
      else lastDigest W n fs)"
  by (simp add: lastDigest_def)

lemma output_sets_snoc:
  "outputFileBlobs W (fs @ [f]) = outputFileBlobs W fs \<union> outputFileBlobs W [f]"
  "outputTrees W (fs @ [f]) = outputTrees W fs \<union> outputTrees W [f]"
  "outputRoots W (fs @ [f]) = outputRoots W fs \<union> outputRoots W [f]"
  by (auto simp: outputFileBlobs_def outputTrees_def outputRoots_def)

lemma output_sets_single:
  "outputFileBlobs W [f] =
     (if fieldNumber f = 2 then {r. parseOutputFile W (bytesValue f) = Inr (Some r, False)} else {})"
  "outputTrees W [f] =
     (if fieldNumber f = 3 then {r. \<exists>d. parseOutputDirectory W (bytesValue f) = Inr (Some r, d)} else {})"
  "outputRoots W [f] =
     (if fieldNumber f = 3 then {r. \<exists>t. parseOutputDirectory W (bytesValue f) = Inr (t, Some r)} else {})"
  by (auto simp: outputFileBlobs_def outputTrees_def outputRoots_def)

lemma wireField_message_Inr: "wireField_message f n = Inr m \<longleftrightarrow> wireType f = BytesType \<and> m = bytesValue f"
  by (auto simp: wireField_message_def)

text \<open>The variables of the loop after the fields \<open>fs\<close>.\<close>

definition actionResultVarsAfter :: "protowire \<Rightarrow> wireField list \<Rightarrow> actionResultVars \<Rightarrow> bool" where
  "actionResultVarsAfter W fs v \<longleftrightarrow>
     set (dcValues (arBlobs (avReferences v))) = outputFileBlobs W fs \<and>
     set (dcValues (arTrees (avReferences v))) = outputTrees W fs \<and>
     set (dcValues (arDirectories (avReferences v))) = outputRoots W fs \<and>
     avStdoutDigest v = lastDigest W 6 fs \<and> avStderrDigest v = lastDigest W 8 fs \<and>
     avStdoutInline v = hasField 5 fs \<and> avStderrInline v = hasField 7 fs"

lemma addBlob_set:
  "referencesInv refs \<Longrightarrow> addBlob r refs = Inr refs' \<Longrightarrow>
     set (dcValues (arBlobs refs')) = insert r (set (dcValues (arBlobs refs))) \<and>
     arTrees refs' = arTrees refs \<and> arDirectories refs' = arDirectories refs"
  by (auto simp: addBlob_def referencesInv_def case_Inr_iff dest: digestCollection_add_Inr(1))

lemma addTree_set:
  "referencesInv refs \<Longrightarrow> addTree t refs = Inr refs' \<Longrightarrow>
     set (dcValues (arTrees refs')) = set_option t \<union> set (dcValues (arTrees refs)) \<and>
     arBlobs refs' = arBlobs refs \<and> arDirectories refs' = arDirectories refs"
  by (auto simp: addTree_def referencesInv_def success_iffs dest: digestCollection_add_Inr(1))

lemma addDirectory_set:
  "referencesInv refs \<Longrightarrow> addDirectory t refs = Inr refs' \<Longrightarrow>
     set (dcValues (arDirectories refs')) = set_option t \<union> set (dcValues (arDirectories refs)) \<and>
     arBlobs refs' = arBlobs refs \<and> arTrees refs' = arTrees refs"
  by (auto simp: addDirectory_def referencesInv_def success_iffs dest: digestCollection_add_Inr(1))

lemma addStream_set:
  "referencesInv refs \<Longrightarrow> addStream d inline refs = Inr refs' \<Longrightarrow>
     set (dcValues (arBlobs refs')) =
       (if inline then {} else set_option d) \<union> set (dcValues (arBlobs refs)) \<and>
     arTrees refs' = arTrees refs \<and> arDirectories refs' = arDirectories refs"
  by (cases d) (auto simp: addStream_def if_eq_iff dest: addBlob_set)

lemma parseActionResultVisit_after:
  assumes inv: "actionResultVarsInv v" and after: "actionResultVarsAfter W fs v"
    and step: "parseActionResultVisit W f v = Inr v'"
  shows "actionResultVarsAfter W (fs @ [f]) v'"
proof -
  have refs: "referencesInv (avReferences v)"
    using inv by (simp add: actionResultVarsInv_def)
  consider "fieldNumber f = 2" | "fieldNumber f = 3" | "fieldNumber f = 5" | "fieldNumber f = 6"
    | "fieldNumber f = 7" | "fieldNumber f = 8" | "fieldNumber f \<notin> {2, 3, 5, 6, 7, 8}"
    by auto
  then show ?thesis
  proof cases
    case 1
    with step after show ?thesis
      by (auto simp: actionResultVarsAfter_def parseActionResultVisit_def success_iffs
          wireField_message_Inr output_sets_snoc output_sets_single lastDigest_snoc
          dest!: addBlob_set [OF refs])
  next
    case 2
    from 2 step obtain tree root refs1 refs2 where
      dir: "parseOutputDirectory W (bytesValue f) = Inr (tree, root)"
      and t: "addTree tree (avReferences v) = Inr refs1" and d: "addDirectory root refs1 = Inr refs2"
      and v': "v' = v\<lparr>avReferences := refs2\<rparr>"
      by (auto simp: parseActionResultVisit_def success_iffs wireField_message_Inr)
    have refs1: "referencesInv refs1"
      using addTree_inv [OF refs _ t] parseOutputDirectory_wf [OF dir] by simp
    show ?thesis
      using 2 after addTree_set [OF refs t] addDirectory_set [OF refs1 d] dir
      unfolding v' by (auto simp: actionResultVarsAfter_def output_sets_snoc
          output_sets_single lastDigest_snoc)
  qed (use step after in \<open>auto simp: actionResultVarsAfter_def parseActionResultVisit_def success_iffs
        wireField_message_Inr output_sets_snoc output_sets_single lastDigest_snoc\<close>)
qed

lemma parseActionResult_loop:
  assumes "foldE (parseActionResultVisit W) fs actionResultVars0 = Inr v"
  shows "actionResultVarsAfter W fs v \<and> actionResultVarsInv v"
  using assms
proof (induction fs arbitrary: v rule: rev_induct)
  case Nil
  then show ?case
    using action_result_visitor.inv_start
    by (auto simp: actionResultVarsAfter_def actionResultVars0_def newActionResultReferences_def
        newDigestCollection_def)
next
  case (snoc f fs)
  then obtain u where u: "foldE (parseActionResultVisit W) fs actionResultVars0 = Inr u"
    "parseActionResultVisit W f u = Inr v"
    by (auto simp: foldE_snoc case_Inr_iff)
  with snoc.IH [OF u(1)] show ?case
    using parseActionResultVisit_after action_result_visitor.inv_visit by blast
qed

text \<open>
  C7. Reading an action result misses no output and invents none: the blobs it collects are
  exactly the digests of the output files that are not inline together with the stdout and stderr
  digests that are not given inline, and the trees and root directories are exactly those of the
  output directories; in each collection every hash occurs once, with a well-formed digest.
\<close>

theorem parseActionResult_references:
  assumes "parseActionResult W data = Inr refs" and "fs = fst (wireFields W data)"
  shows "set (dcValues (arBlobs refs)) =
           outputFileBlobs W fs \<union> streamBlob W 6 5 fs \<union> streamBlob W 8 7 fs \<and>
         set (dcValues (arTrees refs)) = outputTrees W fs \<and>
         set (dcValues (arDirectories refs)) = outputRoots W fs \<and>
         referencesInv refs"
proof -
  from assms obtain v refs1 where
    v: "foldE (parseActionResultVisit W) fs actionResultVars0 = Inr v"
    and s1: "addStream (avStdoutDigest v) (avStdoutInline v) (avReferences v) = Inr refs1"
    and s2: "addStream (avStderrDigest v) (avStderrInline v) refs1 = Inr refs"
    by (auto simp: parseActionResult_def case_Inr_iff visitWireFields_Inr)
  from parseActionResult_loop [OF v] have after: "actionResultVarsAfter W fs v"
    and inv: "actionResultVarsInv v" by auto
  from inv s1 have refs1: "referencesInv refs1"
    by (auto simp: actionResultVarsInv_def intro: addStream_inv)
  have "referencesInv refs" by (rule parseActionResult_inv) (rule assms(1))
  moreover have sets: "set (dcValues (arBlobs refs)) =
      (if avStderrInline v then {} else set_option (avStderrDigest v)) \<union>
      ((if avStdoutInline v then {} else set_option (avStdoutDigest v)) \<union>
       set (dcValues (arBlobs (avReferences v))))"
    "arTrees refs = arTrees (avReferences v)" "arDirectories refs = arDirectories (avReferences v)"
    using addStream_set [OF _ s1] addStream_set [OF refs1 s2] inv
    by (auto simp: actionResultVarsInv_def)
  ultimately show ?thesis
    using after by (auto simp: actionResultVarsAfter_def streamBlob_def split: if_splits)
qed

end
