(* ===== verification/Directory.thy ===== *)
theory Directory
  imports ActionResult
begin

text \<open>
  \<open>internal/server/reapi_directory.go\<close>: reading REAPI \<open>Directory\<close> and \<open>Tree\<close> messages. A \<open>Tree\<close> carries its
  child directories inline; \<open>parseTree\<close> checks that every directory a node names is one of them and
  returns the files of all directories.
\<close>

section \<open>Directories\<close>

record parsedDirectory =
  pdFiles :: "digestReference list"
  pdDirectories :: "digestReference list"

definition parseNodeDigestVisit ::
    "string \<Rightarrow> protowire \<Rightarrow> wireField \<Rightarrow> digestReference option \<Rightarrow> go_error + digestReference option" where
  "parseNodeDigestVisit nodeName W field digest =
     (if fieldNumber field \<noteq> 2 then Inr digest
      else (case wireField_message field (nodeName @ ''.digest'') of Inl e \<Rightarrow> Inl e
            | Inr message \<Rightarrow>
                (case parseDigest W message of Inl e \<Rightarrow> Inl e
                 | Inr reference \<Rightarrow>
                     if digest \<noteq> None then Inl (Failure (nodeName @ ''.digest is repeated''))
                     else Inr (Some reference))))"

definition parseNodeDigest :: "protowire \<Rightarrow> bytes \<Rightarrow> string \<Rightarrow> go_error + digestReference" where
  "parseNodeDigest W data nodeName =
     (case visitWireFields W data (parseNodeDigestVisit nodeName W) None of Inl e \<Rightarrow> Inl e
      | Inr digest \<Rightarrow>
          (case digest of None \<Rightarrow> Inl (Failure (nodeName @ '' has no digest''))
           | Some r \<Rightarrow> Inr r))"

definition parseDirectoryVisit ::
    "protowire \<Rightarrow> wireField \<Rightarrow> parsedDirectory \<Rightarrow> go_error + parsedDirectory" where
  "parseDirectoryVisit W field d =
     (if fieldNumber field = 1 then
        (case wireField_message field ''directory.files'' of Inl e \<Rightarrow> Inl e
         | Inr message \<Rightarrow>
             (case parseNodeDigest W message ''file_node'' of Inl e \<Rightarrow> Inl e
              | Inr reference \<Rightarrow> Inr (d\<lparr>pdFiles := pdFiles d @ [reference]\<rparr>)))
      else if fieldNumber field = 2 then
        (case wireField_message field ''directory.directories'' of Inl e \<Rightarrow> Inl e
         | Inr message \<Rightarrow>
             (case parseNodeDigest W message ''directory_node'' of Inl e \<Rightarrow> Inl e
              | Inr reference \<Rightarrow> Inr (d\<lparr>pdDirectories := pdDirectories d @ [reference]\<rparr>)))
      else Inr d)"

definition emptyDirectory :: parsedDirectory where
  "emptyDirectory = \<lparr>pdFiles = [], pdDirectories = []\<rparr>"

definition parseDirectory :: "protowire \<Rightarrow> bytes \<Rightarrow> go_error + parsedDirectory" where
  "parseDirectory W data = visitWireFields W data (parseDirectoryVisit W) emptyDirectory"

interpretation node_digest_visitor:
  field_visitor "parseNodeDigestVisit nodeName" wfOptional None for nodeName
proof unfold_locales
  fix W f s s'
  show "wfOptional s \<Longrightarrow> parseNodeDigestVisit nodeName W f s = Inr s' \<Longrightarrow> wfOptional s'"
    by (auto simp: parseNodeDigestVisit_def success_iffs dest: parseDigest_wf)
  show "protowire_laws W \<Longrightarrow> \<not> crashed (parseNodeDigestVisit nodeName W f s)"
    unfolding parseNodeDigestVisit_def by (intro safe)
qed simp

lemma parseNodeDigest_wf: "parseNodeDigest W data n = Inr r \<Longrightarrow> wfReference r"
  by (auto simp: parseNodeDigest_def success_iffs dest!: node_digest_visitor.result_inv)

lemma parseNodeDigest_safe [safe]: "protowire_laws W \<Longrightarrow> \<not> crashed (parseNodeDigest W data n)"
  unfolding parseNodeDigest_def by (intro safe node_digest_visitor.result_safe)

definition wfDirectory :: "parsedDirectory \<Rightarrow> bool" where
  "wfDirectory d \<longleftrightarrow> list_all wfReference (pdFiles d) \<and> list_all wfReference (pdDirectories d)"

interpretation directory_visitor: field_visitor parseDirectoryVisit wfDirectory emptyDirectory
proof unfold_locales
  fix W f s s'
  show "wfDirectory s \<Longrightarrow> parseDirectoryVisit W f s = Inr s' \<Longrightarrow> wfDirectory s'"
    by (auto simp: parseDirectoryVisit_def wfDirectory_def success_iffs dest: parseNodeDigest_wf)
  show "protowire_laws W \<Longrightarrow> \<not> crashed (parseDirectoryVisit W f s)"
    unfolding parseDirectoryVisit_def by (intro safe)
qed (simp add: wfDirectory_def emptyDirectory_def)

lemma parseDirectory_wf: "parseDirectory W data = Inr d \<Longrightarrow> wfDirectory d"
  unfolding parseDirectory_def by (rule directory_visitor.result_inv)

lemma parseDirectory_safe [safe]: "protowire_laws W \<Longrightarrow> \<not> crashed (parseDirectory W data)"
  unfolding parseDirectory_def by (intro safe directory_visitor.result_safe)

section \<open>Trees\<close>

text \<open>The variables \<open>directories\<close>, \<open>childDigests\<close> and \<open>rootSeen\<close> of \<open>parseTree\<close>.\<close>

record treeVars =
  tvDirectories :: "parsedDirectory list"
  tvChildDigests :: "string \<rightharpoonup> int"
  tvRootSeen :: bool

definition treeVars0 :: treeVars where
  "treeVars0 = \<lparr>tvDirectories = [], tvChildDigests = Map.empty, tvRootSeen = False\<rparr>"

text \<open>The \<open>if field.number == 1 \<dots> else\<close> of the visitor.\<close>

definition noteTreeMember :: "wireField \<Rightarrow> bytes \<Rightarrow> treeVars \<Rightarrow> go_error + treeVars" where
  "noteTreeMember field message v =
     (if fieldNumber field = 1 then
        (if tvRootSeen v then Inl (Failure ''tree.root is repeated'')
         else Inr (v\<lparr>tvRootSeen := True\<rparr>))
      else
        (let hash = sha256_hex message; size = int (length message) in
         (case tvChildDigests v hash of
            None \<Rightarrow> Inr (v\<lparr>tvChildDigests := (tvChildDigests v)(hash \<mapsto> size)\<rparr>)
          | Some existingSize \<Rightarrow>
              if existingSize \<noteq> size
              then Inl (Failure (''tree child '' @ hash @ '' has inconsistent sizes''))
              else Inr (v\<lparr>tvChildDigests := (tvChildDigests v)(hash \<mapsto> size)\<rparr>))))"

definition parseTreeVisit :: "protowire \<Rightarrow> wireField \<Rightarrow> treeVars \<Rightarrow> go_error + treeVars" where
  "parseTreeVisit W field v =
     (if fieldNumber field \<noteq> 1 \<and> fieldNumber field \<noteq> 2 then Inr v
      else (case wireField_message field ''tree.directory'' of Inl e \<Rightarrow> Inl e
            | Inr message \<Rightarrow>
                (case noteTreeMember field message v of Inl e \<Rightarrow> Inl e
                 | Inr v1 \<Rightarrow>
                     (case parseDirectory W message of Inl e \<Rightarrow> Inl e
                      | Inr directory \<Rightarrow>
                          Inr (v1\<lparr>tvDirectories := tvDirectories v1 @ [directory]\<rparr>)))))"

text \<open>The loops over the directories: collect the files, then look every child up.\<close>

definition checkTreeChild ::
    "(string \<rightharpoonup> int) \<Rightarrow> digestReference \<Rightarrow> digestCollection \<Rightarrow> go_error + digestCollection" where
  "checkTreeChild childDigests child files =
     (if childDigests (refHash child) = Some (refSize child) then Inr files
      else Inl (Failure (''tree references missing child directory '' @ refHash child)))"

definition collectTreeDirectory ::
    "(string \<rightharpoonup> int) \<Rightarrow> parsedDirectory \<Rightarrow> digestCollection \<Rightarrow> go_error + digestCollection" where
  "collectTreeDirectory childDigests d files =
     (case foldE digestCollection_add (pdFiles d) files of Inl e \<Rightarrow> Inl e
      | Inr files' \<Rightarrow> foldE (checkTreeChild childDigests) (pdDirectories d) files')"

definition parseTree :: "protowire \<Rightarrow> bytes \<Rightarrow> go_error + digestReference list" where
  "parseTree W data =
     (case visitWireFields W data (parseTreeVisit W) treeVars0 of Inl e \<Rightarrow> Inl e
      | Inr v \<Rightarrow>
          if \<not> tvRootSeen v then Inl (Failure ''tree has no root directory'')
          else (case foldE (collectTreeDirectory (tvChildDigests v)) (tvDirectories v)
                       newDigestCollection of Inl e \<Rightarrow> Inl e
                | Inr files \<Rightarrow> Inr (dcValues files)))"

lemma noteTreeMember_safe [safe]: "\<not> crashed (noteTreeMember f m v)"
  unfolding noteTreeMember_def Let_def by (intro safe)

interpretation tree_visitor:
  field_visitor parseTreeVisit "\<lambda>v. list_all wfDirectory (tvDirectories v)" treeVars0
proof unfold_locales
  fix W f s s'
  show "list_all wfDirectory (tvDirectories s) \<Longrightarrow> parseTreeVisit W f s = Inr s' \<Longrightarrow>
    list_all wfDirectory (tvDirectories s')"
    by (auto simp: parseTreeVisit_def noteTreeMember_def Let_def success_iffs dest: parseDirectory_wf)
  show "protowire_laws W \<Longrightarrow> \<not> crashed (parseTreeVisit W f s)"
    unfolding parseTreeVisit_def by (intro safe)
qed (simp add: treeVars0_def)

lemma parseTree_safe [safe]: "protowire_laws W \<Longrightarrow> \<not> crashed (parseTree W data)"
  unfolding parseTree_def collectTreeDirectory_def checkTreeChild_def
  by (intro safe tree_visitor.result_safe foldE_not_crashed)

section \<open>What an accepted tree is\<close>

text \<open>The directories a tree carries: its messages in fields 1 (the root) and 2 (the children).\<close>

definition treeMember :: "wireField \<Rightarrow> bool" where
  "treeMember f \<longleftrightarrow> fieldNumber f = 1 \<or> fieldNumber f = 2"

definition embeddedChild :: "wireField list \<Rightarrow> digestReference \<Rightarrow> bool" where
  "embeddedChild fs r \<longleftrightarrow>
     (\<exists>f \<in> set fs. fieldNumber f = 2 \<and> sha256_hex (bytesValue f) = refHash r \<and>
        int (length (bytesValue f)) = refSize r)"

definition treeVarsAfter :: "protowire \<Rightarrow> wireField list \<Rightarrow> treeVars \<Rightarrow> bool" where
  "treeVarsAfter W fs v \<longleftrightarrow>
     map Inr (tvDirectories v) = map (\<lambda>f. parseDirectory W (bytesValue f)) (filter treeMember fs) \<and>
     tvRootSeen v = (length (filter (\<lambda>f. fieldNumber f = 1) fs) = 1) \<and>
     length (filter (\<lambda>f. fieldNumber f = 1) fs) \<le> 1 \<and>
     (\<forall>h n. tvChildDigests v h = Some n \<longleftrightarrow> embeddedChild fs \<lparr>refHash = h, refSize = n\<rparr>)"

lemma embeddedChild_snoc:
  "embeddedChild (fs @ [f]) r \<longleftrightarrow> embeddedChild fs r \<or>
     fieldNumber f = 2 \<and> sha256_hex (bytesValue f) = refHash r \<and> int (length (bytesValue f)) = refSize r"
  by (auto simp: embeddedChild_def)

lemma parseTreeVisit_after:
  assumes "treeVarsAfter W fs v" and "parseTreeVisit W f v = Inr v'"
  shows "treeVarsAfter W (fs @ [f]) v'"
proof (cases "treeMember f")
  case False
  with assms show ?thesis
    by (auto simp: treeVarsAfter_def parseTreeVisit_def treeMember_def embeddedChild_snoc)
next
  case True
  with assms(2) obtain v1 d where noted: "noteTreeMember f (bytesValue f) v = Inr v1"
    and d: "parseDirectory W (bytesValue f) = Inr d"
    and v': "v' = v1\<lparr>tvDirectories := tvDirectories v1 @ [d]\<rparr>"
    by (auto simp: parseTreeVisit_def treeMember_def success_iffs wireField_message_Inr)
  show ?thesis
  proof (cases "fieldNumber f = 1")
    case True
    with noted assms(1) d show ?thesis
      unfolding v'
      by (auto simp: noteTreeMember_def treeVarsAfter_def treeMember_def embeddedChild_snoc success_iffs
          le_Suc_eq)
  next
    case False
    with True have two: "fieldNumber f = 2" by (simp add: treeMember_def)
    from assms(1) have "tvChildDigests v h = Some n \<longleftrightarrow> embeddedChild fs \<lparr>refHash = h, refSize = n\<rparr>" for h n
      by (simp add: treeVarsAfter_def)
    note ch = this
    let ?h = "sha256_hex (bytesValue f)" and ?n = "int (length (bytesValue f))"
    from two noted have v1: "v1 = v\<lparr>tvChildDigests := (tvChildDigests v)(?h \<mapsto> ?n)\<rparr>"
      and old: "tvChildDigests v ?h = None \<or> tvChildDigests v ?h = Some ?n"
      by (auto simp: noteTreeMember_def Let_def success_iffs)
    from old have "tvChildDigests v1 h = Some n \<longleftrightarrow>
        tvChildDigests v h = Some n \<or> h = ?h \<and> n = ?n" for h n
      unfolding v1 by auto
    then have "tvChildDigests v1 h = Some n \<longleftrightarrow> embeddedChild (fs @ [f]) \<lparr>refHash = h, refSize = n\<rparr>" for h n
      using two by (auto simp: ch embeddedChild_snoc)
    then show ?thesis
      using assms(1) two d unfolding v' treeVarsAfter_def by (simp add: treeMember_def v1)
  qed
qed

lemma parseTree_loop:
  "foldE (parseTreeVisit W) fs treeVars0 = Inr v \<Longrightarrow> treeVarsAfter W fs v"
proof (induction fs arbitrary: v rule: rev_induct)
  case Nil
  then show ?case by (auto simp: treeVarsAfter_def treeVars0_def embeddedChild_def)
next
  case (snoc f fs)
  then show ?case by (auto simp: foldE_snoc case_Inr_iff intro: parseTreeVisit_after)
qed

lemma foldE_add:
  assumes "foldE digestCollection_add rs c = Inr c'" and "collectionInv (\<lambda>_. True) c"
  shows "set (dcValues c') = set (dcValues c) \<union> set rs \<and> collectionInv (\<lambda>_. True) c'"
  using assms
proof (induction rs arbitrary: c)
  case (Cons r rs)
  then obtain c1 where c1: "digestCollection_add r c = Inr c1" "foldE digestCollection_add rs c1 = Inr c'"
    by (auto simp: case_Inr_iff)
  with digestCollection_add_Inr [OF Cons.prems(2) c1(1)] Cons.IH [OF c1(2)] show ?case by auto
qed simp

lemma foldE_checkTreeChild:
  "foldE (checkTreeChild m) rs c = Inr c' \<longleftrightarrow>
     c' = c \<and> (\<forall>r \<in> set rs. m (refHash r) = Some (refSize r))"
  by (induction rs) (auto simp: checkTreeChild_def)

lemma collectTreeDirectory_Inr:
  "collectTreeDirectory m d c = Inr c' \<longleftrightarrow>
     foldE digestCollection_add (pdFiles d) c = Inr c' \<and>
     (\<forall>r \<in> set (pdDirectories d). m (refHash r) = Some (refSize r))"
  by (auto simp: collectTreeDirectory_def case_Inr_iff foldE_checkTreeChild)

lemma foldE_collectTree:
  assumes "foldE (collectTreeDirectory m) ds c = Inr c'" and "collectionInv (\<lambda>_. True) c"
  shows "set (dcValues c') = set (dcValues c) \<union> (\<Union>d \<in> set ds. set (pdFiles d)) \<and>
    collectionInv (\<lambda>_. True) c' \<and>
    (\<forall>d \<in> set ds. \<forall>r \<in> set (pdDirectories d). m (refHash r) = Some (refSize r))"
  using assms
proof (induction ds arbitrary: c)
  case (Cons d ds)
  then obtain c1 where c1: "foldE digestCollection_add (pdFiles d) c = Inr c1"
    and rest: "foldE (collectTreeDirectory m) ds c1 = Inr c'"
    and kids: "\<forall>r \<in> set (pdDirectories d). m (refHash r) = Some (refSize r)"
    by (auto simp: collectTreeDirectory_Inr case_Inr_iff)
  with foldE_add [OF c1 Cons.prems(2)] Cons.IH [OF rest] show ?case by auto
qed simp

lemma treeVarsAfter_member:
  assumes "treeVarsAfter W fs v" and "d \<in> set (tvDirectories v)"
  shows "\<exists>f \<in> set fs. treeMember f \<and> parseDirectory W (bytesValue f) = Inr d"
proof -
  from assms(2) have "Inr d \<in> set (map Inr (tvDirectories v))" by simp
  then have "Inr d \<in> set (map (\<lambda>f. parseDirectory W (bytesValue f)) (filter treeMember fs))"
    using assms(1) unfolding treeVarsAfter_def by metis
  then show ?thesis by auto
qed

lemma treeVarsAfter_parsed:
  assumes "treeVarsAfter W fs v" and "f \<in> set fs" and "treeMember f"
  shows "\<exists>d \<in> set (tvDirectories v). parseDirectory W (bytesValue f) = Inr d"
proof -
  from assms(2,3) have "parseDirectory W (bytesValue f)
    \<in> set (map (\<lambda>f. parseDirectory W (bytesValue f)) (filter treeMember fs))" by auto
  then have "parseDirectory W (bytesValue f) \<in> set (map Inr (tvDirectories v))"
    using assms(1) unfolding treeVarsAfter_def by metis
  then show ?thesis by auto
qed

text \<open>
  C8. An accepted \<open>Tree\<close> has exactly one root, every directory it carries parses, every directory
  named by a directory node of any of them is carried as a child with exactly that SHA-256 and
  size, and the files returned are exactly the files of all its directories, each hash once.
\<close>

theorem parseTree_closed:
  assumes "parseTree W data = Inr files" and "fs = fst (wireFields W data)"
  shows "length (filter (\<lambda>f. fieldNumber f = 1) fs) = 1 \<and>
    (\<forall>f \<in> set fs. treeMember f \<longrightarrow> (\<exists>d. parseDirectory W (bytesValue f) = Inr d \<and>
       (\<forall>r \<in> set (pdDirectories d). embeddedChild fs r))) \<and>
    set files = {r. \<exists>f \<in> set fs. treeMember f \<and>
       (\<exists>d. parseDirectory W (bytesValue f) = Inr d \<and> r \<in> set (pdFiles d))} \<and>
    distinct (map refHash files)"
proof -
  from assms obtain v c where loop: "foldE (parseTreeVisit W) fs treeVars0 = Inr v"
    and root: "tvRootSeen v"
    and coll: "foldE (collectTreeDirectory (tvChildDigests v)) (tvDirectories v) newDigestCollection = Inr c"
    and files: "files = dcValues c"
    by (auto simp: parseTree_def success_iffs visitWireFields_Inr)
  note after = parseTree_loop [OF loop]
  note all = foldE_collectTree [OF coll collectionInv_new]
  have kids: "embeddedChild fs r" if "d \<in> set (tvDirectories v)" "r \<in> set (pdDirectories d)" for d r
  proof -
    have "tvChildDigests v (refHash r) = Some (refSize r)" using all that by blast
    then show ?thesis using after by (simp add: treeVarsAfter_def embeddedChild_def)
  qed
  have "length (filter (\<lambda>f. fieldNumber f = 1) fs) = 1"
    using after root by (simp add: treeVarsAfter_def)
  moreover have "\<forall>f \<in> set fs. treeMember f \<longrightarrow> (\<exists>d. parseDirectory W (bytesValue f) = Inr d \<and>
       (\<forall>r \<in> set (pdDirectories d). embeddedChild fs r))"
    using treeVarsAfter_parsed [OF after] kids by meson
  moreover have "set files = {r. \<exists>f \<in> set fs. treeMember f \<and>
       (\<exists>d. parseDirectory W (bytesValue f) = Inr d \<and> r \<in> set (pdFiles d))}"
    using all treeVarsAfter_parsed [OF after] treeVarsAfter_member [OF after]
    by (fastforce simp: files newDigestCollection_def)
  moreover have "distinct (map refHash files)"
    using all by (auto simp: files collectionInv_def)
  ultimately show ?thesis by blast
qed

end
