(* ===== verification/ServerState.thy ===== *)
theory ServerState
  imports Io Limiter Stats Manifest Directory
begin

text \<open>
  The state of the cache server: the structs \<open>Config\<close>, \<open>object\<close> and \<open>Server\<close> of \<open>server.go\<close>, the structs
  \<open>packStore\<close> and \<open>pendingAction\<close> of \<open>pack_store.go\<close>, the spool directory on disk, and the environment:
  the cache backend, the cache catalog, the clock, the operating system and the libraries. The
  environment's answers come from an opaque world of type \<open>'w\<close> that every call can change, so that
  every order of successes, failures and contents is covered.
\<close>

section \<open>Configuration\<close>

record config =
  cfgBackend :: bool \<comment> \<open>\<open>Backend != nil\<close>\<close>
  cfgCatalog :: bool \<comment> \<open>\<open>Catalog != nil\<close>\<close>
  cfgCacheDir :: string
  cfgKeyPrefix :: string
  cfgStorageMode :: string
  cfgPackSize :: int
  cfgPackFlushInterval :: int
  cfgMaxManifests :: int
  cfgWriteEnabled :: bool
  cfgFailOpen :: bool
  cfgMaxBlobSize :: int
  cfgMaxConcurrent :: int
  cfgUploadsPerMinute :: int
  cfgBackendTimeout :: int
  cfgShutdownToken :: string
  cfgShutdown :: bool \<comment> \<open>\<open>Shutdown != nil\<close>\<close>

section \<open>Objects and the packed store\<close>

text \<open>A local object is a file of the spool directory; files are numbered in order of creation.\<close>

record object =
  objPath :: nat
  objSize :: int

record pendingAction =
  paObject :: object
  paClosure :: "digestReference list"
  paCID :: string

record packStore =
  psPacks :: "string \<rightharpoonup> packDescriptor"
  psCAS :: "string \<rightharpoonup> manifestObject"
  psActions :: "string \<rightharpoonup> manifestAction"
  psActionConflicts :: "string set"
  psHeads :: "string set"
  psPendingCAS :: "string \<rightharpoonup> object"
  psPendingCASOrder :: "string list"
  psPendingActions :: "string \<rightharpoonup> pendingAction"
  psPendingACOrder :: "string list"
  psPendingBytes :: int
  psLoadedPacks :: "string \<rightharpoonup> nat"
  psFlushRequested :: bool

definition emptyPackStore :: packStore where
  "emptyPackStore =
     \<lparr>psPacks = Map.empty, psCAS = Map.empty, psActions = Map.empty, psActionConflicts = {},
      psHeads = {}, psPendingCAS = Map.empty, psPendingCASOrder = [], psPendingActions = Map.empty,
      psPendingACOrder = [], psPendingBytes = 0, psLoadedPacks = Map.empty, psFlushRequested = False\<rparr>"

section \<open>The server\<close>

text \<open>
  The maps of \<open>Server\<close>, with the spool directory. \<open>packs\<close> is \<open>None\<close> in the \<open>objects\<close> storage mode. The map of
  publications in flight is the subject of the theory \<open>Coalescing\<close>; between two calls it is empty.
\<close>

record 'w server =
  cfg :: config
  stats :: counters
  objects :: "string \<rightharpoonup> object"
  published :: "string set"
  limiter :: intervalLimiter
  packs :: "packStore option"
  files :: "nat \<rightharpoonup> bytes"
  nextFile :: nat
  world :: 'w

text \<open>The operations that the operating system or a cancelled context can fail.\<close>

datatype ioOp =
    Acquire | ThrottleWait | MkdirAll | CreateTemp | Chmod | WriteFile | SyncFile | CloseFile | StatFile
  | OpenFile | ReadFile | SeekFile | HashFile | SendBody

text \<open>
  \<open>envExists\<close>, \<open>envLoad\<close> and \<open>envSave\<close> are the methods of \<open>cache.Backend\<close>; \<open>Load\<close> writes chunks to its writer
  and then returns. \<open>envList\<close> is \<open>cache.Catalog\<close>. A \<open>Some\<close> answer of \<open>envFault\<close> is the error text.
\<close>

record ('w, 'c) env =
  envFault :: "ioOp \<Rightarrow> 'w \<Rightarrow> string option \<times> 'w"
  envNow :: "'w \<Rightarrow> int \<times> 'w"
  envExists :: "string \<Rightarrow> 'w \<Rightarrow> (string + bool) \<times> 'w"
  envLoad :: "string \<Rightarrow> 'w \<Rightarrow> (bytes list \<times> (string + bool)) \<times> 'w"
  envSave :: "string \<Rightarrow> bytes \<Rightarrow> 'w \<Rightarrow> string option \<times> 'w"
  envList :: "string \<Rightarrow> int \<Rightarrow> 'w \<Rightarrow> (string + string list) \<times> 'w"
  envWire :: protowire
  envIpld :: "'c ipld"

definition count :: "counter \<Rightarrow> 'w server \<Rightarrow> 'w server" where
  "count c s = s\<lparr>stats := counter_Add c 1 (stats s)\<rparr>"

definition countBytes :: "counter \<Rightarrow> nat \<Rightarrow> 'w server \<Rightarrow> 'w server" where
  "countBytes c n s = s\<lparr>stats := counter_Add c n (stats s)\<rparr>"

definition thePacks :: "'w server \<Rightarrow> packStore" where
  "thePacks s = (case packs s of Some p \<Rightarrow> p | None \<Rightarrow> emptyPackStore)"

definition updatePacks :: "(packStore \<Rightarrow> packStore) \<Rightarrow> 'w server \<Rightarrow> 'w server" where
  "updatePacks f s = s\<lparr>packs := map_option f (packs s)\<rparr>"

section \<open>Primitive operations\<close>

definition fault :: "('w, 'c) env \<Rightarrow> ioOp \<Rightarrow> ('w server, unit) io" where
  "fault E operation = (\<lambda>s. case envFault E operation (world s) of
     (None, w) \<Rightarrow> (Inr (), s\<lparr>world := w\<rparr>)
   | (Some m, w) \<Rightarrow> (Inl (Failure m), s\<lparr>world := w\<rparr>))"

definition createFile :: "('w server, nat) io" where
  "createFile = (\<lambda>s. (Inr (nextFile s),
     s\<lparr>files := (files s)(nextFile s \<mapsto> []), nextFile := Suc (nextFile s)\<rparr>))"

text \<open>\<open>os.CreateTemp\<close> makes a new empty file; \<open>os.Remove\<close> deletes one.\<close>

definition createTemp :: "('w, 'c) env \<Rightarrow> ('w server, nat) io" where
  "createTemp E = attempt (fault E CreateTemp) (\<lambda>_. createFile)"

definition removeFile :: "nat \<Rightarrow> 'w server \<Rightarrow> 'w server" where
  "removeFile path s = s\<lparr>files := (files s)(path := None)\<rparr>"

definition fileContent :: "'w server \<Rightarrow> nat \<Rightarrow> bytes" where
  "fileContent s path = (case files s path of None \<Rightarrow> [] | Some data \<Rightarrow> data)"

definition appendFile :: "nat \<Rightarrow> bytes \<Rightarrow> 'w server \<Rightarrow> 'w server" where
  "appendFile path data s = s\<lparr>files := (files s)(path \<mapsto> fileContent s path @ data)\<rparr>"

definition writeFile :: "('w, 'c) env \<Rightarrow> nat \<Rightarrow> bytes \<Rightarrow> ('w server, unit) io" where
  "writeFile E path data = attempt (fault E WriteFile) (\<lambda>_. updating (appendFile path data) (ok ()))"

definition readFile :: "('w, 'c) env \<Rightarrow> nat \<Rightarrow> ('w server, bytes) io" where
  "readFile E path = attempt (fault E ReadFile) (\<lambda>_. reading (\<lambda>s. files s path)
     (\<lambda>content. case content of None \<Rightarrow> fail (Failure ''no such file'') | Some data \<Rightarrow> ok data))"

definition openFile :: "('w, 'c) env \<Rightarrow> nat \<Rightarrow> ('w server, unit) io" where
  "openFile E path = attempt (fault E OpenFile) (\<lambda>_. reading (\<lambda>s. files s path)
     (\<lambda>content. case content of None \<Rightarrow> fail (Failure ''no such file'') | Some data \<Rightarrow> ok ()))"

definition statSize :: "('w, 'c) env \<Rightarrow> nat \<Rightarrow> ('w server, int) io" where
  "statSize E path = attempt (fault E StatFile) (\<lambda>_. reading (\<lambda>s. fileContent s path)
     (\<lambda>data. ok (int (length data))))"

text \<open>\<open>acquire\<close> and \<open>hashFile\<close> of \<open>server.go\<close>; one caller at a time never waits for the semaphore.\<close>

definition acquire :: "('w, 'c) env \<Rightarrow> ('w server, unit) io" where
  "acquire E = fault E Acquire"

definition hashFile :: "('w, 'c) env \<Rightarrow> nat \<Rightarrow> ('w server, string) io" where
  "hashFile E path =
     attempt (fault E SeekFile) (\<lambda>_. attempt (fault E HashFile) (\<lambda>_.
     reading (\<lambda>s. fileContent s path) (\<lambda>data.
     attempt (fault E SeekFile) (\<lambda>_. ok (sha256_hex data)))))"

text \<open>
  \<open>maxWriter\<close>: a chunk longer than what remains is refused. \<open>backendLoadInto\<close> is \<open>Backend.Load\<close> into such a
  writer over a file: an error of the writer is the error of \<open>Load\<close>.
\<close>

definition maxWriter_Write ::
    "('w, 'c) env \<Rightarrow> nat \<Rightarrow> bytes \<Rightarrow> int \<Rightarrow> ('w server, int) io" where
  "maxWriter_Write E path p remaining =
     (if int (length p) > remaining
      then fail (Failure ''download exceeds configured maximum size'')
      else attempt (writeFile E path p) (\<lambda>_. ok (remaining - int (length p))))"

definition backendLoadInto :: "('w, 'c) env \<Rightarrow> string \<Rightarrow> nat \<Rightarrow> int \<Rightarrow> ('w server, bool) io" where
  "backendLoadInto E key path remaining =
     (\<lambda>s. case envLoad E key (world s) of ((chunks, result), w) \<Rightarrow>
        attempt (forEach (maxWriter_Write E path) chunks remaining)
          (\<lambda>_. case result of Inl m \<Rightarrow> fail (Failure m) | Inr found \<Rightarrow> ok found)
          (s\<lparr>world := w\<rparr>))"

text \<open>\<open>Backend.Load\<close> into a \<open>bytesBuffer\<close>, which takes everything.\<close>

definition backendLoadBuffer :: "('w, 'c) env \<Rightarrow> string \<Rightarrow> ('w server, bytes \<times> bool) io" where
  "backendLoadBuffer E key =
     (\<lambda>s. case envLoad E key (world s) of ((chunks, result), w) \<Rightarrow>
        (case result of Inl m \<Rightarrow> Inl (Failure m) | Inr found \<Rightarrow> Inr (concat chunks, found),
         s\<lparr>world := w\<rparr>))"

definition backendSave :: "('w, 'c) env \<Rightarrow> string \<Rightarrow> bytes \<Rightarrow> ('w server, unit) io" where
  "backendSave E key data = (\<lambda>s. case envSave E key data (world s) of
     (None, w) \<Rightarrow> (Inr (), s\<lparr>world := w\<rparr>)
   | (Some m, w) \<Rightarrow> (Inl (Failure m), s\<lparr>world := w\<rparr>))"

definition clockNow :: "('w, 'c) env \<Rightarrow> ('w server, int) comp" where
  "clockNow E = (\<lambda>s. case envNow E (world s) of (t, w) \<Rightarrow> (t, s\<lparr>world := w\<rparr>))"

text \<open>\<open>limiter.wait\<close>: reserve a slot, then wait for it unless it has come already.\<close>

definition limiter_wait :: "('w, 'c) env \<Rightarrow> ('w server, bool) io" where
  "limiter_wait E =
     reading limiter (\<lambda>l.
     if limInterval l = 0 then ok False
     else andThen (clockNow E) (\<lambda>now.
     case limiter_reserve now l of (slot, l') \<Rightarrow>
     updating (\<lambda>s. s\<lparr>limiter := l'\<rparr>) (
     andThen (clockNow E) (\<lambda>later.
     if slot - later \<le> 0 then ok False
     else attempt (fault E ThrottleWait) (\<lambda>_. ok True)))))"

end
