(* ===== verification/Resolve.thy ===== *)
theory Resolve
  imports ServerState
begin

text \<open>
  Reading: \<open>publishOnce\<close>, \<open>publish\<close>, \<open>backendExists\<close>, \<open>resolve\<close> and \<open>exists\<close> of \<open>server.go\<close> and \<open>readCARBlock\<close>,
  \<open>materialize\<close>, \<open>downloadPack\<close>, \<open>loadPack\<close>, \<open>resolve\<close> and \<open>exists\<close> of \<open>pack_store.go\<close>. The contract of a
  resolver is the locale \<open>resolver\<close>; both storage modes are shown to keep it.
\<close>

section \<open>Cache keys\<close>

definition objectKey :: "string \<Rightarrow> string \<Rightarrow> string \<Rightarrow> string" where
  "objectKey keyPrefix kind digest = keyPrefix @ ''-'' @ kind @ ''-'' @ digest"

definition casKey :: "string \<Rightarrow> string \<Rightarrow> string" where
  "casKey keyPrefix digest = keyPrefix @ ''-cas-'' @ digest"

lemma casKey_objectKey: "objectKey keyPrefix ''cas'' digest = casKey keyPrefix digest"
  by (simp add: objectKey_def casKey_def)

lemma casKey_inject [simp]: "casKey keyPrefix d = casKey keyPrefix d' \<longleftrightarrow> d = d'"
  by (simp add: casKey_def)

section \<open>Publication\<close>

definition publish :: "('w, 'c) env \<Rightarrow> string \<Rightarrow> nat \<Rightarrow> int \<Rightarrow> ('w server, unit) io" where
  "publish E key path fileSize =
     attempt (acquire E) (\<lambda>_.
     attempt (limiter_wait E) (\<lambda>waited.
     updating (if waited then count ThrottleWaits else id) (
     attempt (fault E SeekFile) (\<lambda>_.
     reading (\<lambda>s. take (nat fileSize) (fileContent s path)) (\<lambda>data.
     backendSave E key data)))))"

text \<open>
  \<open>publishOnce\<close> for one caller at a time: the result says whether the upload was deduplicated. The
  callers that wait for a publication in flight are modelled in \<open>Coalescing\<close>.
\<close>

definition publishOnce :: "('w, 'c) env \<Rightarrow> string \<Rightarrow> nat \<Rightarrow> int \<Rightarrow> ('w server, bool) io" where
  "publishOnce E key path fileSize =
     reading (\<lambda>s. key \<in> published s) (\<lambda>done.
     if done then ok True
     else attempt (publish E key path fileSize) (\<lambda>_.
          updating (\<lambda>s. s\<lparr>published := insert key (published s)\<rparr>) (ok False)))"

definition backendExists :: "('w, 'c) env \<Rightarrow> string \<Rightarrow> ('w server, bool) io" where
  "backendExists E key =
     attempt (acquire E) (\<lambda>_.
     updating (count BackendExistenceChecks) (\<lambda>s.
       case envExists E key (world s) of (r, w) \<Rightarrow> (library r, s\<lparr>world := w\<rparr>)))"

section \<open>Resolving from packs\<close>

definition rawCIDSectionOverheadBytes :: int where
  "rawCIDSectionOverheadBytes = 64"

definition checkCARBlock :: "'c ipld \<Rightarrow> string \<Rightarrow> bytes \<Rightarrow> go_error + bytes" where
  "checkCARBlock L contentCID data =
     (case rawCIDForData L data of
        Inl e \<Rightarrow> Inl (Failure ''CARv2 block CID integrity check failed'')
      | Inr actual \<Rightarrow>
          if cidString L actual \<noteq> contentCID
          then Inl (Failure ''CARv2 block CID integrity check failed'')
          else Inr data)"

definition readCARBlock ::
    "('w, 'c) env \<Rightarrow> nat \<Rightarrow> string \<Rightarrow> int \<Rightarrow> ('w server, bytes) io" where
  "readCARBlock E path contentCID maxBlobSize =
     attempt (openFile E path) (\<lambda>_.
     reading (\<lambda>s. fileContent s path) (\<lambda>archive.
     case library (cidDecode (envIpld E) contentCID) of Inl e \<Rightarrow> fail e
     | Inr content \<Rightarrow>
     (case library (carGet (envIpld E) archive (maxBlobSize + rawCIDSectionOverheadBytes) content) of
        Inl e \<Rightarrow> fail e
      | Inr data \<Rightarrow>
     (case checkCARBlock (envIpld E) contentCID data of Inl e \<Rightarrow> fail e | Inr d \<Rightarrow> ok d))))"

text \<open>
  The critical section that enters an object: the first object stays. \<open>entered\<close> says whether it is
  the new one, which keeps its file.
\<close>

definition enterObject :: "string \<Rightarrow> object \<Rightarrow> ('w server, object \<times> bool) comp" where
  "enterObject key value =
     reading (\<lambda>s. objects s key) (\<lambda>existing.
     case existing of
       None \<Rightarrow> updating (\<lambda>s. s\<lparr>objects := (objects s)(key \<mapsto> value)\<rparr>) (returning (value, True))
     | Some ob \<Rightarrow> returning (ob, False))"

definition materialize :: "('w, 'c) env \<Rightarrow> string \<Rightarrow> bytes \<Rightarrow> ('w server, object) io" where
  "materialize E key data =
     reading (\<lambda>s. objects s key) (\<lambda>existing.
     case existing of Some ob \<Rightarrow> ok ob
     | None \<Rightarrow>
       attempt (createTemp E) (\<lambda>path.
       attempt (fault E Chmod) (\<lambda>_.
       attempt (writeFile E path data) (\<lambda>_.
       attempt (fault E SyncFile) (\<lambda>_.
       attempt (fault E CloseFile) (\<lambda>_.
       andThen (enterObject key \<lparr>objPath = path, objSize = int (length data)\<rparr>) (\<lambda>r.
       ok (fst r))))))))"

text \<open>The checks of \<open>downloadPack\<close> on what was downloaded: size and SHA-256 against the descriptor.\<close>

definition checkPack :: "('w, 'c) env \<Rightarrow> packDescriptor \<Rightarrow> nat \<Rightarrow> ('w server, nat) io" where
  "checkPack E descriptor path =
     attempt (statSize E path) (\<lambda>size.
     if size \<noteq> pkSize descriptor
     then fail (Failure (''pack '' @ pkID descriptor @ '' has the wrong size''))
     else attempt (openFile E path) (\<lambda>_.
          attempt (hashFile E path) (\<lambda>actual.
          attempt (fault E CloseFile) (\<lambda>_.
          if actual \<noteq> pkID descriptor then fail (Failure ''pack integrity check failed'')
          else ok path))))"

definition downloadPack :: "('w, 'c) env \<Rightarrow> packDescriptor \<Rightarrow> ('w server, nat) io" where
  "downloadPack E descriptor =
     attempt (acquire E) (\<lambda>_.
     attempt (createTemp E) (\<lambda>path.
     reading (\<lambda>s. cfgMaxBlobSize (cfg s)) (\<lambda>maxBlobSize.
     attempt (backendLoadInto E (pkKey descriptor) path maxBlobSize) (\<lambda>found.
     attempt (fault E CloseFile) (\<lambda>_.
     if \<not> found then fail (Failure (''pack '' @ pkID descriptor @ '' is missing''))
     else updating (count BackendDownloads) (updating (count PackDownloads)
       (checkPack E descriptor path)))))))"

text \<open>
  \<open>loadPack\<close> for one caller at a time: a pack is downloaded once. The callers that wait for a download in
  flight are modelled in \<open>Loading\<close>.
\<close>

definition loadPack :: "('w, 'c) env \<Rightarrow> string \<Rightarrow> ('w server, nat) io" where
  "loadPack E packID =
     reading (\<lambda>s. psLoadedPacks (thePacks s) packID) (\<lambda>loaded.
     case loaded of Some path \<Rightarrow> ok path
     | None \<Rightarrow>
       reading (\<lambda>s. psPacks (thePacks s) packID) (\<lambda>known.
       case known of None \<Rightarrow> fail (Failure (''manifest references unavailable pack '' @ packID))
       | Some descriptor \<Rightarrow>
         attempt (downloadPack E descriptor) (\<lambda>path.
         updating (updatePacks (\<lambda>p. p\<lparr>psLoadedPacks := (psLoadedPacks p)(packID \<mapsto> path)\<rparr>)) (ok path))))"

text \<open>The lookup of \<open>resolve\<close> under the mutex: content CID, pack and declared size, if there is a usable entry.\<close>

definition lookupEntry ::
    "string \<Rightarrow> string \<Rightarrow> ('w server, (string \<times> string \<times> int) option) comp" where
  "lookupEntry kind digest =
     (if kind = ''cas'' then
        reading (\<lambda>s. psCAS (thePacks s) digest) (\<lambda>entry.
        case entry of None \<Rightarrow> returning None
        | Some ob \<Rightarrow> returning (Some (moCID ob, moPackID ob, moSize ob)))
      else
        reading (\<lambda>s. digest \<in> psActionConflicts (thePacks s)) (\<lambda>conflict.
        if conflict then updating (count ActionDigestConflicts) (returning None)
        else reading (\<lambda>s. psActions (thePacks s) digest) (\<lambda>entry.
             case entry of None \<Rightarrow> returning None
             | Some a \<Rightarrow> returning (Some (maCID a, maPackID a, maSize a)))))"

definition packs_resolve ::
    "('w, 'c) env \<Rightarrow> string \<Rightarrow> string \<Rightarrow> string \<Rightarrow> ('w server, object option) io" where
  "packs_resolve E key kind digest =
     reading (\<lambda>s. objects s key) (\<lambda>existing.
     case existing of Some ob \<Rightarrow> ok (Some ob)
     | None \<Rightarrow>
       andThen (lookupEntry kind digest) (\<lambda>entry.
       case entry of None \<Rightarrow> ok None
       | Some (contentCID, packID, expectedSize) \<Rightarrow>
         attempt (loadPack E packID) (\<lambda>path.
         reading (\<lambda>s. cfgMaxBlobSize (cfg s)) (\<lambda>maxBlobSize.
         attempt (readCARBlock E path contentCID maxBlobSize) (\<lambda>data.
         if int (length data) \<noteq> expectedSize
         then fail (Failure ''packed object has the wrong size'')
         else if kind = ''cas'' \<and> sha256_hex data \<noteq> digest
         then fail (Failure ''packed CAS integrity check failed'')
         else attempt (materialize E key data) (\<lambda>value. ok (Some value)))))))"

definition packs_exists :: "('w, 'c) env \<Rightarrow> string \<Rightarrow> ('w server, bool) io" where
  "packs_exists E digest =
     reading (\<lambda>s. casKey (cfgKeyPrefix (cfg s)) digest) (\<lambda>key.
     attempt (packs_resolve E key ''cas'' digest) (\<lambda>found. ok (found \<noteq> None)))"

section \<open>Resolving\<close>

text \<open>
  The download of \<open>resolve\<close> in the \<open>objects\<close> mode, up to the object map. The result says what was
  found and whether the spool file is kept.
\<close>

definition downloadObject ::
    "('w, 'c) env \<Rightarrow> string \<Rightarrow> string \<Rightarrow> string \<Rightarrow> nat \<Rightarrow> ('w server, (object \<times> bool) option) io" where
  "downloadObject E key kind digest path =
     reading (\<lambda>s. cfgMaxBlobSize (cfg s)) (\<lambda>maxBlobSize.
     attempt (backendLoadInto E key path maxBlobSize) (\<lambda>found.
     if \<not> found then ok None
     else updating (count BackendDownloads) (
       attempt (fault E SyncFile) (\<lambda>_.
       attempt (statSize E path) (\<lambda>size.
       attempt (if kind = ''cas'' then
                  attempt (hashFile E path) (\<lambda>actual.
                  if actual \<noteq> digest then fail (Failure ''CAS integrity check failed'') else ok ())
                else ok ()) (\<lambda>_.
       andThen (enterObject key \<lparr>objPath = path, objSize = size\<rparr>) (\<lambda>r. ok (Some r))))))))"

text \<open>The deferred \<open>os.Remove\<close> of a spool file that is not kept.\<close>

definition removeUnlessKept ::
    "nat \<Rightarrow> ('w server, (object \<times> bool) option) io \<Rightarrow> ('w server, object option) io" where
  "removeUnlessKept path m =
     andThen m (\<lambda>r. case r of
       Inl e \<Rightarrow> updating (removeFile path) (fail e)
     | Inr None \<Rightarrow> updating (removeFile path) (ok None)
     | Inr (Some (ob, keep)) \<Rightarrow> updating (if keep then id else removeFile path) (ok (Some ob)))"

definition server_resolve ::
    "('w, 'c) env \<Rightarrow> string \<Rightarrow> string \<Rightarrow> string \<Rightarrow> ('w server, object option) io" where
  "server_resolve E key kind digest =
     reading (\<lambda>s. objects s key) (\<lambda>existing.
     case existing of Some ob \<Rightarrow> ok (Some ob)
     | None \<Rightarrow>
       reading packs (\<lambda>p.
       if p \<noteq> None then packs_resolve E key kind digest
       else attempt (acquire E) (\<lambda>_.
         reading (\<lambda>s. objects s key) (\<lambda>recheck.
         case recheck of Some ob \<Rightarrow> ok (Some ob)
         | None \<Rightarrow>
           attempt (createTemp E) (\<lambda>path.
           removeUnlessKept path (downloadObject E key kind digest path))))))"

definition server_exists :: "('w, 'c) env \<Rightarrow> string \<Rightarrow> ('w server, bool) io" where
  "server_exists E key =
     reading (\<lambda>s. objects s key) (\<lambda>existing.
     if existing \<noteq> None then ok True
     else reading packs (\<lambda>p.
     if p \<noteq> None then
       reading (\<lambda>s. casKey (cfgKeyPrefix (cfg s)) []) (\<lambda>keyPrefix.
       if \<not> prefix keyPrefix key \<or> length key \<noteq> length keyPrefix + 64
       then fail (Failure ''packed storage can only resolve CAS keys'')
       else packs_exists E (drop (length keyPrefix) key))
     else backendExists E key))"

section \<open>The invariant of the object store\<close>

text \<open>
  What an entered object owes its key: its file exists and has the size the object says, and under a
  CAS key the SHA-256 of the file is the digest of the key.
\<close>

definition storedOk :: "'w server \<Rightarrow> string \<Rightarrow> object \<Rightarrow> bool" where
  "storedOk s key ob \<longleftrightarrow> (\<exists>data. files s (objPath ob) = Some data \<and> objSize ob = int (length data) \<and>
     (\<forall>d. key = casKey (cfgKeyPrefix (cfg s)) d \<longrightarrow> sha256_hex data = d))"

definition loadedOk :: "'w server \<Rightarrow> string \<Rightarrow> nat \<Rightarrow> bool" where
  "loadedOk s packID path \<longleftrightarrow> (\<exists>data. files s path = Some data \<and> sha256_hex data = packID)"

text \<open>The files that the server still refers to: those of objects and of restored packs.\<close>

definition owned :: "'w server \<Rightarrow> nat set" where
  "owned s = objPath ` ran (objects s) \<union> ran (psLoadedPacks (thePacks s))"

definition serverInv :: "'w server \<Rightarrow> bool" where
  "serverInv s \<longleftrightarrow>
     (\<forall>key ob. objects s key = Some ob \<longrightarrow> storedOk s key ob) \<and>
     (\<forall>packID path. psLoadedPacks (thePacks s) packID = Some path \<longrightarrow> loadedOk s packID path) \<and>
     (\<forall>packID d. psPacks (thePacks s) packID = Some d \<longrightarrow> pkID d = packID) \<and>
     (\<forall>path data. files s path = Some data \<longrightarrow> path < nextFile s)"

text \<open>
  How a call may change the state: the configuration stays, objects and restored packs are only
  added, and no file that was there before changes; what is added refers to new files (\<open>frame\<close>).
  \<open>scratch\<close> is a new file that nothing refers to.
\<close>

definition frame :: "'w server \<Rightarrow> 'w server \<Rightarrow> bool" where
  "frame s0 s \<longleftrightarrow> nextFile s0 \<le> nextFile s \<and> (\<forall>path < nextFile s0. files s path = files s0 path) \<and>
     (\<forall>path \<in> owned s. path \<in> owned s0 \<or> nextFile s0 \<le> path)"

definition evolves :: "'w server \<Rightarrow> 'w server \<Rightarrow> bool" where
  "evolves s0 s \<longleftrightarrow> serverInv s \<and> cfg s = cfg s0 \<and> objects s0 \<subseteq>\<^sub>m objects s \<and>
     psLoadedPacks (thePacks s0) \<subseteq>\<^sub>m psLoadedPacks (thePacks s) \<and>
     (\<forall>path \<in> owned s0. files s path = files s0 path) \<and> (packs s = None \<longleftrightarrow> packs s0 = None) \<and> frame s0 s"

definition scratch :: "'w server \<Rightarrow> nat \<Rightarrow> bytes \<Rightarrow> 'w server \<Rightarrow> bool" where
  "scratch s0 path data s \<longleftrightarrow> evolves s0 s \<and> path \<notin> owned s \<and> nextFile s0 \<le> path \<and> files s path = Some data"

definition someScratch :: "'w server \<Rightarrow> nat \<Rightarrow> 'w server \<Rightarrow> bool" where
  "someScratch s0 path s \<longleftrightarrow> (\<exists>data. scratch s0 path data s)"

lemma frame_refl [simp]: "frame s s"
  by (simp add: frame_def)

lemma frame_trans: "frame s0 s1 \<Longrightarrow> frame s1 s2 \<Longrightarrow> frame s0 s2"
  unfolding frame_def by (simp add: less_le_trans) (blast intro: order_trans)

lemma frame_owned:
  assumes "frame s0 s" and "nextFile s0 \<le> path" and "files s' = files s" and "nextFile s' = nextFile s"
    and "owned s' \<subseteq> insert path (owned s)"
  shows "frame s0 s'"
  using assms unfolding frame_def by auto

lemma evolves_refl: "serverInv s \<Longrightarrow> evolves s s"
  by (simp add: evolves_def)

lemma owned_mono:
  "objects s0 \<subseteq>\<^sub>m objects s \<Longrightarrow> psLoadedPacks (thePacks s0) \<subseteq>\<^sub>m psLoadedPacks (thePacks s) \<Longrightarrow>
     owned s0 \<subseteq> owned s"
  by (fastforce simp: owned_def map_le_def ran_def dom_def)

lemma evolves_trans: "evolves s0 s1 \<Longrightarrow> evolves s1 s2 \<Longrightarrow> evolves s0 s2"
  using owned_mono [of s0 s1] by (auto simp: evolves_def intro: map_le_trans frame_trans)

lemma evolves_inv: "evolves s0 s \<Longrightarrow> serverInv s"
  by (simp add: evolves_def)

lemma evolves_object: "evolves s0 s \<Longrightarrow> objects s0 key = Some ob \<Longrightarrow> objects s key = Some ob"
  unfolding evolves_def map_le_def by (metis domI)

text \<open>Fields that the invariant does not mention.\<close>

lemma inv_fields [simp]:
  "owned (s\<lparr>world := w\<rparr>) = owned s" "owned (s\<lparr>stats := st\<rparr>) = owned s"
  "owned (s\<lparr>limiter := l\<rparr>) = owned s" "owned (s\<lparr>published := pb\<rparr>) = owned s"
  "serverInv (s\<lparr>world := w\<rparr>) = serverInv s" "serverInv (s\<lparr>stats := st\<rparr>) = serverInv s"
  "serverInv (s\<lparr>limiter := l\<rparr>) = serverInv s" "serverInv (s\<lparr>published := pb\<rparr>) = serverInv s"
  "evolves s0 (s\<lparr>world := w\<rparr>) = evolves s0 s" "evolves s0 (s\<lparr>stats := st\<rparr>) = evolves s0 s"
  "evolves s0 (s\<lparr>limiter := l\<rparr>) = evolves s0 s" "evolves s0 (s\<lparr>published := pb\<rparr>) = evolves s0 s"
  "scratch s0 path data (s\<lparr>world := w\<rparr>) = scratch s0 path data s"
  "scratch s0 path data (s\<lparr>stats := st\<rparr>) = scratch s0 path data s"
  "scratch s0 path data (s\<lparr>limiter := l\<rparr>) = scratch s0 path data s"
  by (simp_all add: owned_def serverInv_def storedOk_def loadedOk_def evolves_def scratch_def frame_def
      thePacks_def)

lemma inv_count [simp]:
  "serverInv (count c s) = serverInv s" "evolves s0 (count c s) = evolves s0 s"
  "scratch s0 path data (count c s) = scratch s0 path data s"
  "evolves s0 (countBytes c n s) = evolves s0 s" "serverInv (countBytes c n s) = serverInv s"
  by (simp_all add: count_def countBytes_def)

section \<open>Steps that leave the objects alone\<close>

lemma keeps_fault [keeps_rules]:
  assumes "\<And>s w. I s \<Longrightarrow> I (s\<lparr>world := w\<rparr>)"
  shows "keeps I (fault E operation)"
  using assms by (auto intro!: keepsI simp: fault_def split: prod.splits option.splits)

lemma keeps_fault_evolves [keeps_rules]:
  "keeps (evolves s0) (fault E operation)" "keeps (scratch s0 path data) (fault E operation)"
  by (rule keeps_fault, simp)+

lemma keeps_acquire [keeps_rules]:
  "keeps (evolves s0) (acquire E)" "keeps (scratch s0 path data) (acquire E)"
  unfolding acquire_def by (rule keeps_rules)+

lemma owned_file: "serverInv s \<Longrightarrow> path \<in> owned s \<Longrightarrow> \<exists>data. files s path = Some data"
  unfolding serverInv_def storedOk_def loadedOk_def owned_def ran_def by blast

lemma owned_object: "objects s key = Some ob \<Longrightarrow> objPath ob \<in> owned s"
  by (auto simp: owned_def ran_def)

lemma owned_pack: "psLoadedPacks (thePacks s) packID = Some path \<Longrightarrow> path \<in> owned s"
  by (auto simp: owned_def ran_def)

text \<open>Writing, creating or removing a file that nothing refers to.\<close>

lemma evolves_files:
  assumes ev: "evolves s0 s" and fresh: "path \<notin> owned s" and new: "nextFile s0 \<le> path"
    and bound: "path < n" "nextFile s \<le> n"
  shows "evolves s0 (s\<lparr>files := (files s)(path := c), nextFile := n\<rparr>) \<and>
    owned (s\<lparr>files := (files s)(path := c), nextFile := n\<rparr>) = owned s"
proof
  let ?s = "s\<lparr>files := (files s)(path := c), nextFile := n\<rparr>"
  have packs: "thePacks ?s = thePacks s" by (simp add: thePacks_def)
  show own: "owned ?s = owned s" by (simp add: owned_def packs)
  have inv: "serverInv s" using ev by (rule evolves_inv)
  have "storedOk ?s key ob" if "objects s key = Some ob" for key ob
    using inv that fresh owned_object [OF that] by (auto simp: serverInv_def storedOk_def)
  moreover have "loadedOk ?s packID p" if "psLoadedPacks (thePacks s) packID = Some p" for packID p
    using inv that fresh owned_pack [OF that] by (auto simp: serverInv_def loadedOk_def)
  moreover have "p < n" if "files ?s p = Some data" for p data
    using that bound inv by (cases "p = path") (auto simp: serverInv_def intro: less_le_trans)
  moreover have "\<forall>packID d. psPacks (thePacks s) packID = Some d \<longrightarrow> pkID d = packID"
    using inv by (simp add: serverInv_def)
  ultimately have "serverInv ?s" by (simp add: serverInv_def packs)
  moreover have "owned s0 \<subseteq> owned s"
    using ev by (simp add: evolves_def owned_mono)
  moreover have "frame s0 ?s"
    using ev new bound own unfolding frame_def evolves_def by auto
  ultimately show "evolves s0 ?s"
    using ev fresh by (auto simp: evolves_def packs)
qed

lemma scratch_newFile:
  assumes "evolves s0 s"
  shows "scratch s0 (nextFile s) [] (s\<lparr>files := (files s)(nextFile s \<mapsto> []), nextFile := Suc (nextFile s)\<rparr>)"
proof -
  have inv: "serverInv s" using assms by (rule evolves_inv)
  have fresh: "nextFile s \<notin> owned s"
    using owned_file [OF inv, of "nextFile s"] inv unfolding serverInv_def by (metis less_irrefl)
  have "nextFile s0 \<le> nextFile s" using assms by (simp add: evolves_def frame_def)
  with evolves_files [OF assms fresh, of "Suc (nextFile s)" "Some []"] fresh show ?thesis
    by (simp add: scratch_def)
qed

lemma scratch_files:
  assumes "scratch s0 path data s"
  shows "evolves s0 (s\<lparr>files := (files s)(path := c)\<rparr>) \<and> owned (s\<lparr>files := (files s)(path := c)\<rparr>) = owned s"
proof -
  from assms have ev: "evolves s0 s" and fresh: "path \<notin> owned s" and new: "nextFile s0 \<le> path"
    and f: "files s path = Some data"
    by (auto simp: scratch_def)
  have bound: "path < nextFile s" using evolves_inv [OF ev] f by (simp add: serverInv_def)
  show ?thesis using evolves_files [OF ev fresh new bound, of c] by simp
qed

section \<open>Spooling a download\<close>

lemma scratch_evolves: "scratch s0 path data s \<Longrightarrow> evolves s0 s"
  by (simp add: scratch_def)

lemma someScratch_evolves: "someScratch s0 path s \<Longrightarrow> evolves s0 s"
  by (auto simp: someScratch_def scratch_def)

lemma fileContent_scratch: "scratch s0 path data s \<Longrightarrow> fileContent s path = data"
  by (simp add: scratch_def fileContent_def)

lemma triple_createTemp:
  "triple (evolves s0) (createTemp E)
     (\<lambda>r s. case r of Inl _ \<Rightarrow> evolves s0 s | Inr path \<Rightarrow> scratch s0 path [] s)"
  unfolding createTemp_def
  by (rule triple_attempt_keeps [OF keeps_fault_evolves(1)])
    (auto simp: triple_def createFile_def intro: scratch_newFile)

lemma scratch_write: "scratch s0 path data s \<Longrightarrow> scratch s0 path (data @ p) (appendFile path p s)"
  using scratch_files [of s0 path data s "Some (data @ p)"]
  by (simp add: appendFile_def fileContent_scratch) (simp add: scratch_def)

lemma evolves_remove: "scratch s0 path data s \<Longrightarrow> evolves s0 (removeFile path s)"
  unfolding removeFile_def by (simp add: scratch_files)

lemma triple_writeFile:
  "triple (scratch s0 path data) (writeFile E path p)
     (\<lambda>r s. case r of Inl _ \<Rightarrow> scratch s0 path data s | Inr _ \<Rightarrow> scratch s0 path (data @ p) s)"
  unfolding writeFile_def
  by (rule triple_attempt_keeps [OF keeps_fault_evolves(2)])
    (auto simp: triple_def updating_def ok_def intro: scratch_write)

text \<open>A size-limited download leaves at most the limit in the spool file.\<close>

definition spooled :: "'w server \<Rightarrow> nat \<Rightarrow> int \<Rightarrow> 'w server \<Rightarrow> bool" where
  "spooled s0 path bound s \<longleftrightarrow> (\<exists>data. scratch s0 path data s \<and> int (length data) \<le> bound)"

lemma spooled_evolves: "spooled s0 path bound s \<Longrightarrow> evolves s0 s"
  by (auto simp: spooled_def scratch_def)

lemma spooled_mono: "spooled s0 path b s \<Longrightarrow> b \<le> bound \<Longrightarrow> spooled s0 path bound s"
  unfolding spooled_def by force

lemma triple_maxWriter:
  "triple (\<lambda>s. 0 \<le> rem \<and> spooled s0 path (bound - rem) s) (maxWriter_Write E path p rem)
     (\<lambda>r s. case r of Inl _ \<Rightarrow> spooled s0 path bound s | Inr rem' \<Rightarrow> 0 \<le> rem' \<and> spooled s0 path (bound - rem') s)"
proof (cases "int (length p) > rem")
  case True
  then show ?thesis
    by (auto simp: maxWriter_Write_def triple_def fail_def elim!: spooled_mono)
next
  case False
  have "triple (\<lambda>s. \<exists>data. scratch s0 path data s \<and> (0 \<le> rem \<and> int (length data) \<le> bound - rem))
     (attempt (writeFile E path p) (\<lambda>_. ok (rem - int (length p))))
     (\<lambda>r s. case r of Inl _ \<Rightarrow> spooled s0 path bound s | Inr rem' \<Rightarrow> 0 \<le> rem' \<and> spooled s0 path (bound - rem') s)"
    by (intro triple_ex triple_assume, rule triple_attempt [OF triple_writeFile])
      (use False in \<open>force simp: spooled_def triple_def ok_def\<close>)+
  then show ?thesis
    using False by (auto simp: maxWriter_Write_def spooled_def elim!: triple_pre)
qed

lemma triple_backendLoadInto:
  assumes "0 \<le> bound"
  shows "triple (scratch s0 path []) (backendLoadInto E key path bound) (\<lambda>_. spooled s0 path bound)"
proof (rule tripleI)
  fix s r s'
  assume pre: "scratch s0 path [] s" and run: "backendLoadInto E key path bound s = (r, s')"
  obtain chunks result w where load: "envLoad E key (world s) = ((chunks, result), w)"
    by (metis surj_pair)
  have loop: "triple (\<lambda>s. 0 \<le> bound \<and> spooled s0 path (bound - bound) s)
      (attempt (forEach (maxWriter_Write E path) chunks bound)
        (\<lambda>_. case result of Inl m \<Rightarrow> fail (Failure m) | Inr found \<Rightarrow> ok found))
      (\<lambda>_. spooled s0 path bound)"
    by (rule triple_attempt, rule triple_forEach
        [where J = "\<lambda>rem s. 0 \<le> rem \<and> spooled s0 path (bound - rem) s" and F = "\<lambda>_. spooled s0 path bound"],
        rule triple_maxWriter)
      (auto simp: triple_def ok_def fail_def split: sum.split elim!: spooled_mono)
  have "spooled s0 path 0 (s\<lparr>world := w\<rparr>)"
    using pre by (auto simp: spooled_def intro!: exI)
  with tripleD [OF loop] assms run load show "spooled s0 path bound s'"
    by (auto simp: backendLoadInto_def)
qed

lemma triple_statSize:
  "triple (scratch s0 path data) (statSize E path)
     (\<lambda>r s. scratch s0 path data s \<and> (\<forall>n. r = Inr n \<longrightarrow> n = int (length data)))"
  unfolding statSize_def
  by (rule triple_attempt_keeps [OF keeps_fault_evolves(2)])
    (auto intro!: triple_reading triple_okI simp: fileContent_scratch)

lemma triple_hashFile:
  "triple (scratch s0 path data) (hashFile E path)
     (\<lambda>r s. scratch s0 path data s \<and> (\<forall>d. r = Inr d \<longrightarrow> d = sha256_hex data))"
  unfolding hashFile_def
  apply (rule triple_attempt_keeps [OF keeps_fault_evolves(2)], simp)
  apply (rule triple_attempt_keeps [OF keeps_fault_evolves(2)], simp)
  apply (rule triple_reading)
  apply (rule triple_attempt [where R = "\<lambda>_ s. scratch s0 path data s \<and> fileContent s path = x" for x])
    apply (auto simp: triple_def ok_def fault_def fileContent_def scratch_def split: prod.split option.split)
  done

section \<open>Entering an object\<close>

text \<open>What a file must satisfy to be entered under a key: under a CAS key, the digest.\<close>

definition dueTo :: "'w server \<Rightarrow> string \<Rightarrow> bytes \<Rightarrow> bool" where
  "dueTo s0 key data \<longleftrightarrow> (\<forall>d. key = casKey (cfgKeyPrefix (cfg s0)) d \<longrightarrow> sha256_hex data = d)"

lemma evolves_enter:
  assumes sc: "scratch s0 path data s" and due: "dueTo s0 key data" and new: "objects s key = None"
  shows "evolves s0 (s\<lparr>objects := (objects s)(key \<mapsto> \<lparr>objPath = path, objSize = int (length data)\<rparr>)\<rparr>)"
proof -
  let ?s = "s\<lparr>objects := (objects s)(key \<mapsto> \<lparr>objPath = path, objSize = int (length data)\<rparr>)\<rparr>"
  have ev: "evolves s0 s" and inv: "serverInv s" and content: "files s path = Some data"
    using sc by (auto simp: scratch_def evolves_def)
  have "storedOk ?s k ob" if "objects ?s k = Some ob" for k ob
    using that inv ev content due
    by (cases "k = key") (auto simp: serverInv_def storedOk_def dueTo_def evolves_def)
  then have "serverInv ?s"
    using inv by (simp add: serverInv_def loadedOk_def thePacks_def)
  moreover have "objects s0 \<subseteq>\<^sub>m objects ?s"
    using ev new by (auto simp: evolves_def map_le_def dom_def)
  moreover have "frame s0 ?s"
    by (rule frame_owned [of s0 s path])
      (use sc in \<open>auto simp: scratch_def evolves_def owned_def ran_def thePacks_def\<close>)
  ultimately show ?thesis using ev by (simp add: evolves_def thePacks_def)
qed

lemma triple_enterObject:
  "triple (\<lambda>s. scratch s0 path data s \<and> dueTo s0 key data \<and> n = int (length data))
     (enterObject key \<lparr>objPath = path, objSize = n\<rparr>)
     (\<lambda>r s. evolves s0 s \<and> objects s key = Some (fst r) \<and> (\<not> snd r \<longrightarrow> scratch s0 path data s))"
  by (auto simp: triple_def enterObject_def reading_def updating_def returning_def
      split: option.split intro: evolves_enter scratch_evolves)

text \<open>What a resolver promises about its result.\<close>

definition resolved :: "'w server \<Rightarrow> string \<Rightarrow> go_error + object option \<Rightarrow> 'w server \<Rightarrow> bool" where
  "resolved s0 key r s \<longleftrightarrow> evolves s0 s \<and> (\<forall>ob. r = Inr (Some ob) \<longrightarrow> objects s key = Some ob)"

lemma resolved_simps [simp]:
  "resolved s0 key (Inl e) s = evolves s0 s" "resolved s0 key (Inr None) s = evolves s0 s"
  "resolved s0 key (Inr (Some ob)) s = (evolves s0 s \<and> objects s key = Some ob)"
  by (auto simp: resolved_def)

lemma triple_materialize:
  assumes "dueTo s0 key data"
  shows "triple (evolves s0) (materialize E key data) (\<lambda>r. resolved s0 key (map_sum id Some r))"
  unfolding materialize_def
  apply (rule triple_reading, rule triple_option)
   apply (rule triple_pre [where P' = "evolves s0"])
    apply (rule triple_attempt [OF triple_createTemp], simp, simp)
    apply (rule triple_attempt_keeps [OF keeps_fault_evolves(2)], simp add: scratch_evolves)
    apply (rule triple_attempt [OF triple_writeFile], simp add: scratch_evolves, simp)
    apply (rule triple_attempt_keeps [OF keeps_fault_evolves(2)], simp add: scratch_evolves)
    apply (rule triple_attempt_keeps [OF keeps_fault_evolves(2)], simp add: scratch_evolves)
    apply (rule triple_andThen [OF triple_pre [OF triple_enterObject]])
  using assms apply (auto simp: triple_def ok_def)
  done

section \<open>Restoring a pack\<close>

lemma keeps_openFile: "keeps (evolves s0) (openFile E path)" "keeps (scratch s0 p data) (openFile E path)"
  unfolding openFile_def by (rule keeps_rules)+

definition packFile :: "'w server \<Rightarrow> string \<Rightarrow> go_error + nat \<Rightarrow> 'w server \<Rightarrow> bool" where
  "packFile s0 packID r s \<longleftrightarrow> evolves s0 s \<and>
     (\<forall>path. r = Inr path \<longrightarrow> (\<exists>data. scratch s0 path data s \<and> sha256_hex data = packID))"

lemma packFile_simps [simp]:
  "packFile s0 packID (Inl e) s = evolves s0 s"
  "packFile s0 packID (Inr path) s = (\<exists>data. scratch s0 path data s \<and> sha256_hex data = packID)"
  by (auto simp: packFile_def scratch_evolves)

lemma triple_checkPack:
  "triple (scratch s0 path data) (checkPack E descriptor path) (packFile s0 (pkID descriptor))"
  unfolding checkPack_def
  apply (rule triple_attempt [OF triple_statSize], simp add: scratch_evolves)
  apply (intro triple_if triple_failI, simp add: scratch_evolves)
  apply (rule triple_pre [where P' = "scratch s0 path data"])
   apply (rule triple_attempt_keeps [OF keeps_openFile(2)], simp add: scratch_evolves)
   apply (rule triple_attempt [OF triple_hashFile], simp add: scratch_evolves)
   apply (rule triple_assume)
   apply (rule triple_attempt_keeps [OF keeps_fault_evolves(2)], simp add: scratch_evolves)
   apply (auto intro!: triple_if triple_failI triple_okI simp: scratch_evolves)
  done

lemma triple_spooled:
  assumes "\<And>data. triple (scratch s0 path data) m Q"
  shows "triple (spooled s0 path bound) m Q"
  using assms by (auto simp: spooled_def triple_def)

lemma triple_downloadPack:
  assumes "0 \<le> cfgMaxBlobSize (cfg s0)"
  shows "triple (evolves s0) (downloadPack E descriptor) (packFile s0 (pkID descriptor))"
  unfolding downloadPack_def
  apply (rule triple_attempt_keeps [OF keeps_acquire(1)], simp)
  apply (rule triple_attempt [OF triple_createTemp], simp, simp, rule triple_reading)
  subgoal for path bound
    apply (rule triple_pre [where P' = "\<lambda>s. scratch s0 path [] s \<and> 0 \<le> bound"], rule triple_assume)
     apply (rule triple_attempt [OF triple_backendLoadInto], assumption, simp add: spooled_evolves)
     apply (rule triple_spooled)
     apply (rule triple_attempt_keeps [OF keeps_fault_evolves(2)], simp add: scratch_evolves)
     apply (intro triple_if triple_failI, simp add: scratch_evolves)
     apply (rule triple_update, erule inv_count(3) [THEN iffD2])
     apply (rule triple_update [OF _ triple_checkPack], simp)
    using assms apply (auto simp: scratch_def evolves_def)
    done
  done

lemma evolves_loaded:
  assumes sc: "scratch s0 path data s" and hash: "sha256_hex data = packID"
    and new: "psLoadedPacks (thePacks s) packID = None"
  shows "evolves s0 (updatePacks (\<lambda>p. p\<lparr>psLoadedPacks := (psLoadedPacks p)(packID \<mapsto> path)\<rparr>) s)"
proof (cases "packs s")
  case None
  then have "updatePacks f s = s" for f by (simp add: updatePacks_def)
  then show ?thesis using sc by (simp add: scratch_def)
next
  case (Some p)
  let ?s = "s\<lparr>packs := Some (p\<lparr>psLoadedPacks := (psLoadedPacks p)(packID \<mapsto> path)\<rparr>)\<rparr>"
  have ev: "evolves s0 s" and inv: "serverInv s" and content: "files s path = Some data"
    using sc by (auto simp: scratch_def evolves_def)
  have "loadedOk ?s k pa" if "psLoadedPacks (thePacks ?s) k = Some pa" for k pa
    using that inv content hash Some
    by (cases "k = packID") (auto simp: serverInv_def loadedOk_def thePacks_def)
  then have "serverInv ?s"
    using inv Some by (simp add: serverInv_def storedOk_def thePacks_def)
  moreover have "psLoadedPacks (thePacks s0) \<subseteq>\<^sub>m psLoadedPacks (thePacks ?s)"
    using ev new Some by (auto simp: evolves_def map_le_def dom_def thePacks_def)
  moreover have "frame s0 ?s"
    by (rule frame_owned [of s0 s path])
      (use sc Some in \<open>auto simp: scratch_def evolves_def owned_def ran_def thePacks_def\<close>)
  ultimately have "evolves s0 ?s" using ev Some by (simp add: evolves_def)
  with Some show ?thesis by (simp add: updatePacks_def)
qed

definition keepsLoaded :: "string \<Rightarrow> 'w server \<Rightarrow> bool" where
  "keepsLoaded packID s \<longleftrightarrow> psLoadedPacks (thePacks s) packID = None"

lemma keepsLoaded_fields [simp]:
  "keepsLoaded packID (s\<lparr>world := w\<rparr>) = keepsLoaded packID s"
  "keepsLoaded packID (s\<lparr>files := fs\<rparr>) = keepsLoaded packID s"
  "keepsLoaded packID (s\<lparr>nextFile := n\<rparr>) = keepsLoaded packID s"
  "keepsLoaded packID (count c s) = keepsLoaded packID s"
  "keepsLoaded packID (appendFile path data s) = keepsLoaded packID s"
  by (simp_all add: keepsLoaded_def thePacks_def count_def appendFile_def)

text \<open>A download enters nothing.\<close>

lemma keeps_download_primitives [keeps_rules]:
  assumes world: "\<And>s w. I s \<Longrightarrow> I (s\<lparr>world := w\<rparr>)" and append: "\<And>s path data. I s \<Longrightarrow> I (appendFile path data s)"
  shows "keeps I (backendLoadInto E key path bound)"
proof (rule keepsI)
  fix s r s'
  assume pre: "I s" and run: "backendLoadInto E key path bound s = (r, s')"
  obtain chunks result w where load: "envLoad E key (world s) = ((chunks, result), w)"
    by (metis surj_pair)
  have "keeps I (attempt (forEach (maxWriter_Write E path) chunks bound)
      (\<lambda>_. case result of Inl m \<Rightarrow> fail (Failure m) | Inr found \<Rightarrow> ok found))"
    unfolding maxWriter_Write_def writeFile_def by (intro keeps_rules world append)
  from keepsD [OF this world [OF pre]] run load show "I s'"
    by (simp add: backendLoadInto_def)
qed

lemma keepsLoaded_download: "keeps (keepsLoaded packID) (downloadPack E descriptor)"
  unfolding downloadPack_def checkPack_def acquire_def createTemp_def statSize_def openFile_def hashFile_def
  by (intro keeps_rules) (auto simp: keeps_def triple_def createFile_def)

lemma triple_loadPack:
  assumes size: "0 \<le> cfgMaxBlobSize (cfg s0)"
  shows "keeps (evolves s0) (loadPack E packID)"
  unfolding loadPack_def keeps_def
  apply (rule triple_reading, rule triple_option)
   apply (rule triple_reading, rule triple_option, rule triple_failI, simp)
  subgoal for loaded known descriptor
    apply (rule triple_pre [where P' = "\<lambda>s. (evolves s0 s \<and> keepsLoaded packID s) \<and> pkID descriptor = packID"],
        rule triple_assume)
     apply (rule triple_attempt [OF triple_conj [OF triple_downloadPack [OF size]
            keepsLoaded_download [unfolded keeps_def]]], simp)
     apply (auto simp: triple_def updating_def ok_def keepsLoaded_def intro!: evolves_loaded)[1]
    apply (auto simp: keepsLoaded_def evolves_def serverInv_def)
    done
  apply (rule triple_okI, simp)
  done

section \<open>Resolving and existence\<close>

text \<open>The keys that the callers of a resolver use: a CAS key only with its own digest.\<close>

definition keyOk :: "'w server \<Rightarrow> string \<Rightarrow> string \<Rightarrow> string \<Rightarrow> bool" where
  "keyOk s key kind digest \<longleftrightarrow>
     (\<forall>d. key = casKey (cfgKeyPrefix (cfg s)) d \<longrightarrow> kind = ''cas'' \<and> digest = d) \<and>
     0 \<le> cfgMaxBlobSize (cfg s)"

lemma keyOk_cas: "0 \<le> cfgMaxBlobSize (cfg s) \<Longrightarrow> keyOk s (casKey (cfgKeyPrefix (cfg s)) d) ''cas'' d"
  by (simp add: keyOk_def)

lemma keyOk_objectKey:
  "0 \<le> cfgMaxBlobSize (cfg s) \<Longrightarrow> kind \<in> {''cas'', ''ac''} \<Longrightarrow>
     keyOk s (objectKey (cfgKeyPrefix (cfg s)) kind d) kind d"
  by (auto simp: keyOk_def objectKey_def casKey_def)

lemma keeps_readCARBlock: "keeps (evolves s0) (readCARBlock E path contentCID bound)"
  unfolding readCARBlock_def by (intro keeps_rules keeps_openFile)

lemma keeps_lookupEntry: "keeps (evolves s0) (lookupEntry kind digest)"
  unfolding lookupEntry_def by (intro keeps_rules) simp

lemma triple_packs_resolve:
  assumes key: "keyOk s0 key kind digest"
  shows "triple (evolves s0) (packs_resolve E key kind digest) (resolved s0 key)"
proof -
  have size: "0 \<le> cfgMaxBlobSize (cfg s0)" using key by (simp add: keyOk_def)
  have due: "dueTo s0 key data" if "\<not> (kind = ''cas'' \<and> sha256_hex data \<noteq> digest)" for data
    using key that by (auto simp: keyOk_def dueTo_def)
  show ?thesis
    unfolding packs_resolve_def
    apply (rule triple_reading, rule triple_option)
     prefer 2 apply (rule triple_okI, simp)
    apply (rule triple_pre [where P' = "evolves s0"])
     prefer 2 apply simp
    apply (rule triple_andThen_keeps [OF keeps_lookupEntry], rule triple_option)
     apply (rule triple_okI, simp)
    apply (intro triple_prod)
    apply (rule triple_attempt_keeps [OF triple_loadPack [OF size]], simp)
    apply (rule triple_reading, rule triple_pre [where P' = "evolves s0"])
     prefer 2 apply simp
    apply (rule triple_attempt_keeps [OF keeps_readCARBlock], simp)
    apply (intro triple_if triple_failI, simp, simp)
    apply (rule triple_attempt [OF triple_materialize [OF due]])
      apply (auto simp: triple_def ok_def)
    done
qed

lemma triple_downloadObject:
  assumes key: "keyOk s0 key kind digest"
  shows "triple (scratch s0 path []) (downloadObject E key kind digest path) (\<lambda>r s. case r of
       Inr (Some (ob, True)) \<Rightarrow> evolves s0 s \<and> objects s key = Some ob
     | Inr (Some (ob, False)) \<Rightarrow> (\<exists>data. scratch s0 path data s) \<and> objects s key = Some ob
     | _ \<Rightarrow> (\<exists>data. scratch s0 path data s))"
  (is "triple _ _ ?Q")
proof -
  have enter: "triple (\<lambda>s. scratch s0 path data s \<and> size = int (length data) \<and> dueTo s0 key data)
      (andThen (enterObject key \<lparr>objPath = path, objSize = size\<rparr>) (\<lambda>r. ok (Some r))) ?Q" for data size
    by (rule triple_andThen [OF triple_pre [OF triple_enterObject]])
      (auto simp: triple_def ok_def split: bool.split)
  have hash: "triple (\<lambda>s. scratch s0 path data s) (if kind = ''cas'' then
        attempt (hashFile E path) (\<lambda>actual.
        if actual \<noteq> digest then fail (Failure ''CAS integrity check failed'') else ok ()) else ok ())
      (\<lambda>r s. scratch s0 path data s \<and> (r = Inr () \<longrightarrow> dueTo s0 key data))" for data
    using key
    by (auto intro!: triple_if triple_okI triple_failI triple_attempt [OF triple_hashFile]
        simp: dueTo_def keyOk_def)
  have bound: "0 \<le> cfgMaxBlobSize (cfg s0)" using key by (simp add: keyOk_def)
  show ?thesis
    unfolding downloadObject_def
    apply (rule triple_reading)
    apply (rule triple_pre [where P' = "\<lambda>s. scratch s0 path [] s \<and> 0 \<le> x" for x], rule triple_assume)
     apply (rule triple_attempt [OF triple_backendLoadInto], assumption, fastforce simp: spooled_def)
     apply (rule triple_spooled)
     apply (rule triple_if, rule triple_okI, fastforce)
     apply (rule triple_update, erule inv_count(3) [THEN iffD2])
     apply (rule triple_attempt_keeps [OF keeps_fault_evolves(2)], fastforce)
     apply (rule triple_attempt [OF triple_statSize], fastforce)
     apply (rule triple_assume)
     apply (rule triple_attempt [OF hash], fastforce)
     apply (rule triple_pre [OF enter])
    using bound apply (auto simp: scratch_def evolves_def)
    done
qed

lemma triple_removeUnlessKept:
  assumes "triple P m (\<lambda>r s. case r of
       Inr (Some (ob, True)) \<Rightarrow> evolves s0 s \<and> objects s key = Some ob
     | Inr (Some (ob, False)) \<Rightarrow> (\<exists>data. scratch s0 path data s) \<and> objects s key = Some ob
     | _ \<Rightarrow> (\<exists>data. scratch s0 path data s))"
  shows "triple P (removeUnlessKept path m) (resolved s0 key)"
  unfolding removeUnlessKept_def
proof (rule triple_andThen [OF assms])
  fix r :: "go_error + (object \<times> bool) option"
  have objects: "objects (removeFile path s) = objects s" for s :: "'a server"
    by (simp add: removeFile_def)
  show "triple (\<lambda>s. case r of
       Inr (Some (ob, True)) \<Rightarrow> evolves s0 s \<and> objects s key = Some ob
     | Inr (Some (ob, False)) \<Rightarrow> (\<exists>data. scratch s0 path data s) \<and> objects s key = Some ob
     | _ \<Rightarrow> (\<exists>data. scratch s0 path data s))
    (case r of Inl e \<Rightarrow> updating (removeFile path) (fail e)
     | Inr None \<Rightarrow> updating (removeFile path) (ok None)
     | Inr (Some (ob, keep)) \<Rightarrow> updating (if keep then id else removeFile path) (ok (Some ob)))
    (resolved s0 key)"
    by (auto simp: triple_def updating_def ok_def fail_def objects evolves_remove
        split: sum.split option.split bool.split)
qed

lemma triple_server_resolve:
  assumes key: "keyOk s0 key kind digest"
  shows "triple (evolves s0) (server_resolve E key kind digest) (resolved s0 key)"
  unfolding server_resolve_def
  apply (rule triple_reading, rule triple_option)
   prefer 2 apply (rule triple_okI, simp)
  apply (rule triple_pre [where P' = "evolves s0"])
   prefer 2 apply simp
  apply (rule triple_reading, rule triple_pre [where P' = "evolves s0"])
   prefer 2 apply simp
  apply (rule triple_if, rule triple_packs_resolve [OF key])
  apply (rule triple_attempt_keeps [OF keeps_acquire(1)], simp)
  apply (rule triple_reading, rule triple_option)
   prefer 2 apply (rule triple_okI, simp)
  apply (rule triple_pre [where P' = "evolves s0"])
   prefer 2 apply simp
  apply (rule triple_attempt [OF triple_createTemp], simp)
  apply simp
  apply (rule triple_removeUnlessKept [OF triple_downloadObject [OF key]])
  done

lemma keeps_backendExists: "keeps (evolves s0) (backendExists E key)"
  unfolding backendExists_def
  by (intro keeps_rules) (auto simp: keeps_def triple_def split: prod.splits)

lemma keeps_resolved: "triple (evolves s0) m (resolved s0 key) \<Longrightarrow> keeps (evolves s0) m"
  by (auto simp: keeps_def triple_def resolved_def)

lemma keyOk_evolves: "evolves s0 s \<Longrightarrow> keyOk s key kind digest \<longleftrightarrow> keyOk s0 key kind digest"
  by (simp add: keyOk_def evolves_def)

lemma triple_packs_exists:
  assumes "0 \<le> cfgMaxBlobSize (cfg s0)" and "key = casKey (cfgKeyPrefix (cfg s0)) digest"
  shows "triple (evolves s0) (packs_exists E digest)
    (\<lambda>r s. evolves s0 s \<and> (r = Inr True \<longrightarrow> objects s key \<noteq> None))"
  unfolding packs_exists_def
  apply (rule triple_reading)
  apply (rule triple_pre [where P' = "\<lambda>s. evolves s0 s \<and> x = key" for x], rule triple_assume, hypsubst)
   apply (rule triple_attempt [OF triple_packs_resolve])
  using assms apply (auto simp: keyOk_cas triple_def ok_def resolved_def evolves_def)
  done

lemma casKey_drop:
  assumes "prefix (casKey keyPrefix []) key"
  shows "key = casKey keyPrefix (drop (length (casKey keyPrefix [])) key)"
  using assms by (auto simp: casKey_def prefix_def)

lemma triple_server_exists:
  assumes size: "0 \<le> cfgMaxBlobSize (cfg s0)"
  shows "triple (evolves s0) (server_exists E key) (\<lambda>r s. evolves s0 s \<and>
    (r = Inr True \<and> packs s0 \<noteq> None \<longrightarrow> objects s key \<noteq> None))"
proof -
  have exists: "triple (\<lambda>s. evolves s0 s \<and> prefix (casKey (cfgKeyPrefix (cfg s0)) []) key)
      (packs_exists E (drop (length (casKey (cfgKeyPrefix (cfg s0)) [])) key))
      (\<lambda>r s. evolves s0 s \<and> (r = Inr True \<and> packs s0 \<noteq> None \<longrightarrow> objects s key \<noteq> None))"
    apply (rule triple_assume)
    apply (rule triple_weaken [OF triple_packs_exists [OF size refl]])
    using casKey_drop by auto
  show ?thesis
    unfolding server_exists_def
    apply (rule triple_reading, rule triple_if, rule triple_okI, force)
    apply (rule triple_reading, rule triple_if, rule triple_reading)
    subgoal for x xa keyPrefix
      apply (rule triple_pre [where P' = "\<lambda>s. evolves s0 s \<and> keyPrefix = casKey (cfgKeyPrefix (cfg s0)) []"],
          rule triple_assume)
       apply (intro triple_if triple_failI, simp)
       apply (hypsubst, rule triple_pre [OF exists])
       apply (auto simp: evolves_def)
      done
    apply (rule triple_pre [where P' = "\<lambda>s. evolves s0 s \<and> packs s0 = None"], rule triple_assume)
     apply (rule triple_weaken [OF keeps_backendExists [unfolded keeps_def]])
      apply (auto simp: evolves_def)
    done
qed

section \<open>The contract of a resolver\<close>

locale resolver =
  fixes resolve :: "string \<Rightarrow> string \<Rightarrow> string \<Rightarrow> ('w server, object option) io"
  assumes resolve_contract:
    "keyOk s0 key kind digest \<Longrightarrow> triple (evolves s0) (resolve key kind digest) (resolved s0 key)"
begin

lemma resolve_resolved:
  assumes "serverInv s" and "keyOk s key kind digest" and "resolve key kind digest s = (r, s')"
  shows "resolved s key r s'"
  using tripleD [OF resolve_contract] assms evolves_refl by blast

lemma found_content:
  assumes "serverInv s" and "keyOk s key kind digest" and "resolve key kind digest s = (Inr (Some ob), s')"
  shows "\<exists>data. files s' (objPath ob) = Some data \<and> objSize ob = int (length data) \<and> dueTo s key data"
  using resolve_resolved [OF assms] by (auto simp: evolves_def serverInv_def storedOk_def dueTo_def)

lemma cas_integrity:
  assumes inv: "serverInv s" and size: "0 \<le> cfgMaxBlobSize (cfg s)"
    and run: "resolve (casKey (cfgKeyPrefix (cfg s)) digest) ''cas'' digest s = (Inr (Some ob), s')"
  shows "sha256_hex (fileContent s' (objPath ob)) = digest \<and>
    objSize ob = int (length (fileContent s' (objPath ob)))"
  using found_content [OF inv keyOk_cas [OF size] run] by (auto simp: fileContent_def dueTo_def)

text \<open>The first object stays: a later resolution of any key leaves it and its content as they are.\<close>

lemma entered_stays:
  assumes inv: "serverInv s" and key: "keyOk s key kind digest"
    and run: "resolve key kind digest s = (r, s')" and old: "objects s k = Some ob"
  shows "objects s' k = Some ob \<and> fileContent s' (objPath ob) = fileContent s (objPath ob)"
proof -
  have ev: "evolves s s'" using resolve_resolved [OF inv key run] by (simp add: resolved_def)
  then show ?thesis
    using evolves_object [OF ev old] owned_object [OF old] by (simp add: evolves_def fileContent_def)
qed

lemma resolve_inv:
  "serverInv s \<Longrightarrow> keyOk s key kind digest \<Longrightarrow> resolve key kind digest s = (r, s') \<Longrightarrow> serverInv s'"
  using resolve_resolved by (blast intro: evolves_inv dest: resolved_def [THEN iffD1])

end

interpretation packed: resolver "packs_resolve E" for E
  by unfold_locales (rule triple_packs_resolve)

interpretation stored: resolver "server_resolve E" for E
  by unfold_locales (rule triple_server_resolve)

section \<open>Publishing once\<close>

lemma keeps_limiter_wait:
  assumes "\<And>s w. I s \<Longrightarrow> I (s\<lparr>world := w\<rparr>)" and "\<And>s l. I s \<Longrightarrow> I (s\<lparr>limiter := l\<rparr>)"
  shows "keeps I (limiter_wait E)"
  unfolding limiter_wait_def
  by (intro keeps_rules assms)
    (auto simp: clockNow_def intro!: keepsI assms split: prod.splits)

lemma keeps_publish:
  assumes world: "\<And>s w. I s \<Longrightarrow> I (s\<lparr>world := w\<rparr>)" and limiter: "\<And>s l. I s \<Longrightarrow> I (s\<lparr>limiter := l\<rparr>)"
    and counting: "\<And>s c. I s \<Longrightarrow> I (count c s)"
  shows "keeps I (publish E key path n)"
proof -
  have save: "keeps I (backendSave E k data)" for k data
    by (auto simp: backendSave_def intro!: keepsI world split: prod.splits option.splits)
  show ?thesis
    unfolding publish_def acquire_def
    by (intro keeps_rules world keeps_limiter_wait limiter save) (auto intro: counting)
qed

lemma keeps_publishOnce:
  assumes "\<And>s w. I s \<Longrightarrow> I (s\<lparr>world := w\<rparr>)" and "\<And>s l. I s \<Longrightarrow> I (s\<lparr>limiter := l\<rparr>)"
    and "\<And>s c. I s \<Longrightarrow> I (count c s)" and "\<And>s. I s \<Longrightarrow> I (s\<lparr>published := insert key (published s)\<rparr>)"
  shows "keeps I (publishOnce E key path n)"
  unfolding publishOnce_def by (intro keeps_rules keeps_publish assms)

lemma evolves_publishOnce: "keeps (evolves s0) (publishOnce E key path n)"
  by (rule keeps_publishOnce) simp_all

text \<open>What a publication that succeeds has done: it has handed the file's content to the backend.\<close>

definition savedBy :: "('w, 'c) env \<Rightarrow> string \<Rightarrow> bytes \<Rightarrow> 'w \<Rightarrow> bool" where
  "savedBy E key data w' \<longleftrightarrow> (\<exists>w. envSave E key data w = (None, w'))"

lemma triple_publish:
  "triple (\<lambda>s. published s = P \<and> fileContent s path = data) (publish E key path n)
     (\<lambda>r s. published s = P \<and> (r = Inr () \<longrightarrow> savedBy E key (take (nat n) data) (world s)))"
proof -
  let ?I = "\<lambda>s. published s = P \<and> fileContent s path = data"
  have I: "\<And>s w. ?I s \<Longrightarrow> ?I (s\<lparr>world := w\<rparr>)" "\<And>s l. ?I s \<Longrightarrow> ?I (s\<lparr>limiter := l\<rparr>)" "\<And>s c. ?I s \<Longrightarrow> ?I (count c s)"
    by (simp_all add: fileContent_def count_def)
  show ?thesis
    unfolding publish_def acquire_def
    apply (rule triple_attempt_keeps [OF keeps_fault [of ?I, OF I(1)]], assumption, simp)
    apply (rule triple_attempt_keeps [OF keeps_limiter_wait [of ?I, OF I(1) I(2)]], assumption, assumption, simp)
    apply (rule triple_update [where P' = ?I], simp add: I(3))
    apply (rule triple_attempt_keeps [OF keeps_fault [of ?I, OF I(1)]], assumption, simp)
    apply (rule triple_reading)
    apply (auto simp: triple_def backendSave_def savedBy_def split: prod.split option.split)
    done
qed

text \<open>
  C5. Publishing once (\<open>Server.publishOnce\<close>): a key that this process has published is answered as a
  duplicate without any backend call and without a rate-limit slot; otherwise a successful call has
  handed exactly the file's content to \<open>Backend.Save\<close> as its last backend call and marks the key as
  published, and a failed one leaves the set of published keys as it was, so that a later request retries.
\<close>

theorem publishOnce_exactly_once:
  "case publishOnce E key path n s of
     (Inr True, s') \<Rightarrow> key \<in> published s \<and> s' = s
   | (Inr False, s') \<Rightarrow> key \<notin> published s \<and> published s' = insert key (published s) \<and>
       savedBy E key (take (nat n) (fileContent s path)) (world s')
   | (Inl _, s') \<Rightarrow> key \<notin> published s \<and> published s' = published s"
proof (cases "key \<in> published s")
  case True
  then show ?thesis by (simp add: publishOnce_def reading_def ok_def)
next
  case False
  obtain r s' where run: "publish E key path n s = (r, s')" by (metis surj_pair)
  from tripleD [OF triple_publish _ run] have
    "published s' = published s \<and> (r = Inr () \<longrightarrow> savedBy E key (take (nat n) (fileContent s path)) (world s'))"
    by blast
  with False run show ?thesis
    by (cases r) (auto simp: publishOnce_def reading_def attempt_def andThen_def fail_def updating_def ok_def)
qed

text \<open>
  C2. Integrity of the content-addressed store, in both storage modes: whenever \<open>Server.resolve\<close> finds the
  object of a CAS digest, by cache, by download or out of a pack, the local file it returns is the file
  whose SHA-256 is that digest, with the size the object states, whatever the backend delivered.
\<close>

theorem server_resolve_cas_integrity:
  assumes "serverInv s" and "0 \<le> cfgMaxBlobSize (cfg s)"
    and "server_resolve E (casKey (cfgKeyPrefix (cfg s)) digest) ''cas'' digest s = (Inr (Some ob), s')"
  shows "sha256_hex (fileContent s' (objPath ob)) = digest \<and>
    objSize ob = int (length (fileContent s' (objPath ob)))"
  using assms by (rule stored.cas_integrity)

text \<open>
  The first object stays: resolving any key, successfully or not, keeps the invariant of the server
  and leaves every object entered before, and the content of its file, unchanged.
\<close>

lemma server_resolve_entered_stays:
  assumes "serverInv s" and "keyOk s key kind digest" and "server_resolve E key kind digest s = (r, s')"
    and "objects s k = Some ob"
  shows "serverInv s' \<and> objects s' k = Some ob \<and> fileContent s' (objPath ob) = fileContent s (objPath ob)"
  using assms stored.entered_stays stored.resolve_inv by blast

end
