(* ===== verification/Worlds.thy ===== *)
theory Worlds
  imports Resolve
begin

text \<open>
  Properties of the environment. A property of the world that every read of the environment keeps
  holds through every operation that only reads; together with the frame \<open>evolves\<close> of the server's own
  state this says what may happen between two steps of a handler. Also: no primitive operation crashes.
\<close>

section \<open>Properties of the world\<close>

text \<open>What the calls that do not save keep.\<close>

definition closedReads :: "('w, 'c) env \<Rightarrow> ('w \<Rightarrow> bool) \<Rightarrow> bool" where
  "closedReads E P \<longleftrightarrow> (\<forall>w. P w \<longrightarrow>
     (\<forall>operation. P (snd (envFault E operation w))) \<and> P (snd (envNow E w)) \<and>
     (\<forall>key. P (snd (envExists E key w))) \<and> (\<forall>key. P (snd (envLoad E key w))) \<and>
     (\<forall>key n. P (snd (envList E key n w))))"

definition inWorld :: "('w \<Rightarrow> bool) \<Rightarrow> 'w server \<Rightarrow> bool" where
  "inWorld P s \<longleftrightarrow> P (world s)"

lemma inWorld_fields [simp]:
  "inWorld P (s\<lparr>stats := st\<rparr>) = inWorld P s" "inWorld P (s\<lparr>objects := ob\<rparr>) = inWorld P s"
  "inWorld P (s\<lparr>limiter := l\<rparr>) = inWorld P s" "inWorld P (s\<lparr>published := pb\<rparr>) = inWorld P s"
  "inWorld P (s\<lparr>files := fs\<rparr>) = inWorld P s" "inWorld P (s\<lparr>nextFile := n\<rparr>) = inWorld P s"
  "inWorld P (s\<lparr>packs := p\<rparr>) = inWorld P s" "inWorld P (count c s) = inWorld P s"
  "inWorld P (updatePacks f s) = inWorld P s" "inWorld P (appendFile path data s) = inWorld P s"
  "inWorld P (removeFile path s) = inWorld P s" "inWorld P (countBytes c m s) = inWorld P s"
  "inWorld P (s\<lparr>world := w\<rparr>) = P w" "world (count c s) = world s"
  by (simp_all add: inWorld_def count_def countBytes_def updatePacks_def appendFile_def removeFile_def)

named_theorems world_rules "preservation of a world property"

lemma closedReadsD:
  assumes "closedReads E P" and "P w"
  shows "envFault E operation w = (r, w') \<Longrightarrow> P w'" "envNow E w = (now, w') \<Longrightarrow> P w'"
    "envExists E key w = (found, w') \<Longrightarrow> P w'" "envLoad E key w = (loaded, w') \<Longrightarrow> P w'"
    "envList E key n w = (keys, w') \<Longrightarrow> P w'"
  using assms unfolding closedReads_def by (metis snd_conv)+

lemma world_fault [world_rules]: "closedReads E P \<Longrightarrow> keeps (inWorld P) (fault E operation)"
  by (auto intro!: keepsI simp: fault_def inWorld_def split: prod.splits option.splits dest: closedReadsD)

lemma world_clockNow [world_rules]: "closedReads E P \<Longrightarrow> keeps (inWorld P) (clockNow E)"
  by (rule keepsI) (force simp: clockNow_def inWorld_def closedReads_def case_prod_beta)

lemma world_createFile [world_rules]: "keeps (inWorld P) createFile"
  by (auto intro!: keepsI simp: createFile_def)

lemma world_backendLoadInto [world_rules]:
  assumes "closedReads E P"
  shows "keeps (inWorld P) (backendLoadInto E key path bound)"
proof (rule keepsI)
  fix s r s'
  assume pre: "inWorld P s" and run: "backendLoadInto E key path bound s = (r, s')"
  obtain chunks result w where load: "envLoad E key (world s) = ((chunks, result), w)"
    by (metis surj_pair)
  have "keeps (inWorld P) (attempt (forEach (maxWriter_Write E path) chunks bound)
      (\<lambda>_. case result of Inl m \<Rightarrow> fail (Failure m) | Inr found \<Rightarrow> ok found))"
    unfolding maxWriter_Write_def writeFile_def by (intro keeps_rules world_fault assms) simp
  moreover have "inWorld P (s\<lparr>world := w\<rparr>)"
    using closedReadsD(4) [OF assms _ load] pre by (simp add: inWorld_def)
  ultimately show "inWorld P s'"
    using run load unfolding backendLoadInto_def by (auto elim!: keepsD)
qed

lemma world_backendLoadBuffer [world_rules]:
  "closedReads E P \<Longrightarrow> keeps (inWorld P) (backendLoadBuffer E key)"
  by (auto intro!: keepsI simp: backendLoadBuffer_def inWorld_def split: prod.splits dest: closedReadsD)

lemma world_backendExists [world_rules]: "closedReads E P \<Longrightarrow> keeps (inWorld P) (backendExists E key)"
  unfolding backendExists_def acquire_def
  by (intro keeps_rules world_rules)
    (auto intro!: keepsI simp: inWorld_def split: prod.splits elim: closedReadsD(3))

lemmas primitive_defs = acquire_def createTemp_def writeFile_def readFile_def openFile_def statSize_def
  hashFile_def

lemma world_primitives [world_rules]:
  assumes "closedReads E P"
  shows "keeps (inWorld P) (acquire E)" "keeps (inWorld P) (createTemp E)"
    "keeps (inWorld P) (writeFile E path data)" "keeps (inWorld P) (readFile E path)"
    "keeps (inWorld P) (openFile E path)" "keeps (inWorld P) (statSize E path)"
    "keeps (inWorld P) (hashFile E path)"
  unfolding primitive_defs by (intro keeps_rules world_rules assms; simp)+

lemma world_packs_resolve [world_rules]:
  assumes "closedReads E P"
  shows "keeps (inWorld P) (packs_resolve E key kind digest)"
  unfolding packs_resolve_def lookupEntry_def loadPack_def downloadPack_def checkPack_def readCARBlock_def
    materialize_def enterObject_def
  by (intro keeps_rules world_rules assms; simp)

lemma world_removeUnlessKept [world_rules]:
  "keeps (inWorld P) m \<Longrightarrow> keeps (inWorld P) (removeUnlessKept path m)"
  unfolding removeUnlessKept_def
  by (rule keeps_andThen, assumption, intro keeps_rules) auto

lemma world_server_resolve [world_rules]:
  assumes "closedReads E P"
  shows "keeps (inWorld P) (server_resolve E key kind digest)"
  unfolding server_resolve_def downloadObject_def enterObject_def
  by (intro keeps_rules world_rules assms; simp)

lemma world_server_exists [world_rules]:
  assumes "closedReads E P"
  shows "keeps (inWorld P) (server_exists E key)"
  unfolding server_exists_def packs_exists_def by (intro keeps_rules world_rules assms)

section \<open>Existence in the backend\<close>

text \<open>
  A backend that tells the truth: a positive answer of \<open>Exists\<close> means that the key is in the cache, and
  entries do not disappear while they are being read.
\<close>

definition honestBackend :: "('w, 'c) env \<Rightarrow> (string \<Rightarrow> 'w \<Rightarrow> bool) \<Rightarrow> bool" where
  "honestBackend E has \<longleftrightarrow> (\<forall>key. closedReads E (has key)) \<and>
     (\<forall>key w w'. envExists E key w = (Inr True, w') \<longrightarrow> has key w')"

lemma backendExists_has:
  "honestBackend E has \<Longrightarrow> backendExists E key s = (Inr True, s') \<Longrightarrow> has key (world s')"
  by (cases "envExists E key (world (count BackendExistenceChecks (snd (acquire E s))))")
    (auto simp: honestBackend_def backendExists_def attempt_Inr_iff)

section \<open>No primitive operation crashes\<close>

lemma calm_primitives [calm_rules]:
  "calm (fault E operation)" "calm createFile" "calm (backendLoadInto E key path n)"
  "calm (backendLoadBuffer E key)" "calm (backendSave E key data)" "calm (backendExists E key)"
proof -
  show fault: "calm (fault E operation)" for operation
    by (auto simp: calm_def fault_def split: prod.split option.split)
  show "calm createFile" by (simp add: calm_def createFile_def)
  have "calm (attempt (forEach (maxWriter_Write E path) chunks n)
      (\<lambda>_. case result of Inl m \<Rightarrow> fail (Failure m) | Inr found \<Rightarrow> ok found))" for chunks result
    unfolding maxWriter_Write_def writeFile_def by (intro calm_rules fault) simp_all
  then show "calm (backendLoadInto E key path n)"
    by (auto simp: calm_def backendLoadInto_def split: prod.split)
  show "calm (backendLoadBuffer E key)"
    by (auto simp: calm_def backendLoadBuffer_def split: prod.split sum.split)
  show "calm (backendSave E key data)"
    by (auto simp: calm_def backendSave_def split: prod.split option.split)
  show "calm (backendExists E key)"
    unfolding backendExists_def acquire_def
    by (intro calm_rules fault) (auto simp: calm_def library_def split: prod.split sum.split)
qed

lemma calm_composites [calm_rules]:
  "calm (acquire E)" "calm (createTemp E)" "calm (writeFile E path data)" "calm (readFile E path)"
  "calm (openFile E path)" "calm (statSize E path)" "calm (hashFile E path)" "calm (limiter_wait E)"
  unfolding primitive_defs limiter_wait_def by (intro calm_rules; simp)+

lemma calm_library [calm_rules]: "calm (case library r of Inl e \<Rightarrow> fail e | Inr x \<Rightarrow> k x)" if "\<And>x. calm (k x)"
  using that by (auto simp: calm_def library_def split: sum.split)

end
