(* ===== verification/Validation.thy ===== *)
theory Validation
  imports Worlds ActionResult "HOL-Library.AList"
begin

text \<open>
  Validation of action results (\<open>action_result_validation.go\<close>): every CAS object that an action result
  refers to, directly or through trees and directories, has to be available before the result is served
  or published. The completeness theorem is stated over an independent notion of the closure.
\<close>

section \<open>The validator\<close>

text \<open>\<open>vaClosure\<close> is the Go map \<open>closure\<close> in one order of iteration; its readers are shown not to depend on it.\<close>

record validator =
  vaRequirePersisted :: bool
  vaObjects :: nat
  vaBlobs :: "string \<rightharpoonup> int"
  vaTrees :: "string \<rightharpoonup> int"
  vaDirectories :: "string \<rightharpoonup> int"
  vaCollect :: bool
  vaClosure :: "(string \<times> digestReference) list"

definition newValidator :: "bool \<Rightarrow> bool \<Rightarrow> validator" where
  "newValidator requirePersisted collectClosure =
     \<lparr>vaRequirePersisted = requirePersisted, vaObjects = 0, vaBlobs = Map.empty, vaTrees = Map.empty,
      vaDirectories = Map.empty, vaCollect = collectClosure, vaClosure = []\<rparr>"

definition rememberDigest ::
    "(string \<rightharpoonup> int) \<Rightarrow> digestReference \<Rightarrow> go_error + (bool \<times> (string \<rightharpoonup> int))" where
  "rememberDigest validated ref =
     (case validated (refHash ref) of
        None \<Rightarrow> Inr (False, validated(refHash ref \<mapsto> refSize ref))
      | Some n \<Rightarrow>
          if n \<noteq> refSize ref then Inl (Failure (''digest '' @ refHash ref @ '' has inconsistent sizes''))
          else Inr (True, validated))"

definition reserveObject :: "validator \<Rightarrow> go_error + validator" where
  "reserveObject v =
     (let v = v\<lparr>vaObjects := Suc (vaObjects v)\<rparr> in
      if vaObjects v \<le> maxActionResultObjects then Inr v
      else Inl (InvalidActionResult ''action result references too many CAS objects''))"

definition collect :: "digestReference \<Rightarrow> validator \<Rightarrow> validator" where
  "collect ref v =
     (if vaCollect v \<and> \<not> isImplicitEmptyDigest ref
      then v\<lparr>vaClosure := AList.update (refHash ref) ref (vaClosure v)\<rparr> else v)"

definition missingCASObject :: "digestReference \<Rightarrow> go_error" where
  "missingCASObject ref = IncompleteActionResult (''missing CAS object '' @ refHash ref)"

definition casExists :: "('w, 'c) env \<Rightarrow> string \<Rightarrow> validator \<Rightarrow> ('w server, bool) io" where
  "casExists E key v = (if vaRequirePersisted v then backendExists E key else server_exists E key)"

text \<open>\<open>loadCAS\<close> after the reservation: the existence check of a publication, then the resolution.\<close>

definition loadCAS ::
    "('w, 'c) env \<Rightarrow> digestReference \<Rightarrow> validator \<Rightarrow> ('w server, object \<times> validator) io" where
  "loadCAS E ref v =
     (case reserveObject v of Inl e \<Rightarrow> fail e
      | Inr v \<Rightarrow>
        reading (\<lambda>s. casKey (cfgKeyPrefix (cfg s)) (refHash ref)) (\<lambda>key.
        attempt (if vaRequirePersisted v then
                   attempt (backendExists E key) (\<lambda>found. if found then ok () else fail (missingCASObject ref))
                 else ok ()) (\<lambda>_.
        attempt (server_resolve E key ''cas'' (refHash ref)) (\<lambda>cached.
        case cached of None \<Rightarrow> fail (missingCASObject ref)
        | Some ob \<Rightarrow>
            if objSize ob \<noteq> refSize ref
            then fail (InvalidActionResult (''CAS object '' @ refHash ref @ '' has another size''))
            else ok (ob, v)))))"

definition validateBlob :: "('w, 'c) env \<Rightarrow> digestReference \<Rightarrow> validator \<Rightarrow> ('w server, validator) io" where
  "validateBlob E ref v =
     (if isImplicitEmptyDigest ref then ok v
      else case rememberDigest (vaBlobs v) ref of Inl e \<Rightarrow> fail (wrapInvalid e)
      | Inr (alreadyValidated, blobs) \<Rightarrow>
        if alreadyValidated then ok v
        else case reserveObject (v\<lparr>vaBlobs := blobs\<rparr>) of Inl e \<Rightarrow> fail e
        | Inr v \<Rightarrow>
          let v = collect ref v in
          reading (\<lambda>s. casKey (cfgKeyPrefix (cfg s)) (refHash ref)) (\<lambda>key.
          attempt (casExists E key v) (\<lambda>found.
          if found then ok v else fail (missingCASObject ref))))"

definition validateTree :: "('w, 'c) env \<Rightarrow> digestReference \<Rightarrow> validator \<Rightarrow> ('w server, validator) io" where
  "validateTree E ref v =
     (case rememberDigest (vaTrees v) ref of Inl e \<Rightarrow> fail (wrapInvalid e)
      | Inr (alreadyValidated, trees) \<Rightarrow>
        if alreadyValidated then ok v
        else attempt (loadCAS E ref (collect ref (v\<lparr>vaTrees := trees\<rparr>))) (\<lambda>(ob, v).
          attempt (readFile E (objPath ob)) (\<lambda>data.
          case parseTree (envWire E) data of Inl e \<Rightarrow> fail (wrapInvalid e)
          | Inr blobs \<Rightarrow> forEach (validateBlob E) blobs v)))"

text \<open>The body of the loop of \<open>validateDirectoryClosure\<close> for a directory seen for the first time.\<close>

definition validateDirectory ::
    "('w, 'c) env \<Rightarrow> digestReference \<Rightarrow> validator \<Rightarrow> ('w server, digestReference list \<times> validator) io" where
  "validateDirectory E ref v =
     attempt (loadCAS E ref (collect ref v)) (\<lambda>(ob, v).
     attempt (readFile E (objPath ob)) (\<lambda>data.
     case parseDirectory (envWire E) data of Inl e \<Rightarrow> fail (wrapInvalid e)
     | Inr directory \<Rightarrow>
         attempt (forEach (validateBlob E) (pdFiles directory) v) (\<lambda>v.
         ok (pdDirectories directory, v))))"

section \<open>The bound on the objects of a validation\<close>

text \<open>Every step only counts upwards, and never past the limit: this is why the loop below ends.\<close>

lemma reserveObject_Inr:
  "reserveObject v = Inr v' \<longleftrightarrow> vaObjects v < maxActionResultObjects \<and> v' = v\<lparr>vaObjects := Suc (vaObjects v)\<rparr>"
  by (auto simp: reserveObject_def Let_def Suc_le_eq)

lemma collect_fields [simp]:
  "vaObjects (collect ref v) = vaObjects v" "vaBlobs (collect ref v) = vaBlobs v"
  "vaTrees (collect ref v) = vaTrees v" "vaDirectories (collect ref v) = vaDirectories v"
  "vaRequirePersisted (collect ref v) = vaRequirePersisted v" "vaCollect (collect ref v) = vaCollect v"
  by (simp_all add: collect_def)

definition countedFrom :: "validator \<Rightarrow> validator \<Rightarrow> bool" where
  "countedFrom v v' \<longleftrightarrow> vaObjects v \<le> vaObjects v' \<and>
     (vaObjects v' \<le> maxActionResultObjects \<or> vaObjects v' = vaObjects v)"

lemma countedFrom_trans: "countedFrom v v1 \<Longrightarrow> countedFrom v1 v2 \<Longrightarrow> countedFrom v v2"
  by (auto simp: countedFrom_def)

lemma loadCAS_counted:
  "loadCAS E ref v s = (Inr (ob, v'), s') \<Longrightarrow>
     vaObjects v' = Suc (vaObjects v) \<and> vaObjects v' \<le> maxActionResultObjects"
  by (auto simp: loadCAS_def reserveObject_Inr run_iffs)

lemma validateBlob_counted: "validateBlob E ref v s = (Inr v', s') \<Longrightarrow> countedFrom v v'"
  by (auto simp: validateBlob_def reserveObject_Inr run_iffs countedFrom_def Let_def)

lemma forEach_counted:
  assumes "\<And>x v s v' s'. f x v s = (Inr v', s') \<Longrightarrow> countedFrom v v'"
  shows "forEach f xs v s = (Inr v', s') \<Longrightarrow> countedFrom v v'"
proof (induction xs arbitrary: v s)
  case Nil
  then show ?case by (simp add: countedFrom_def)
next
  case (Cons x xs)
  then show ?case using assms by (fastforce simp: attempt_Inr_iff intro: countedFrom_trans)
qed

lemma validateDirectory_counted:
  assumes "validateDirectory E ref v s = (Inr (children, v'), s')"
  shows "vaObjects v < vaObjects v' \<and> vaObjects v' \<le> maxActionResultObjects"
proof -
  from assms obtain ob v1 s1 files s2 where
    "loadCAS E ref (collect ref v) s = (Inr (ob, v1), s1)"
    "forEach (validateBlob E) files v1 s2 = (Inr v', s')"
    by (auto simp: validateDirectory_def run_iffs)
  with loadCAS_counted forEach_counted [OF validateBlob_counted] show ?thesis
    by (fastforce simp: countedFrom_def)
qed

text \<open>The loop over the queue of directories.\<close>

function validateDirectories ::
    "('w, 'c) env \<Rightarrow> digestReference list \<Rightarrow> validator \<Rightarrow> ('w server, validator) io" where
  "validateDirectories E [] v s = (Inr v, s)"
| "validateDirectories E (ref # queue) v s =
     (case rememberDigest (vaDirectories v) ref of Inl e \<Rightarrow> (Inl (wrapInvalid e), s)
      | Inr (alreadyValidated, directories) \<Rightarrow>
        if alreadyValidated then validateDirectories E queue v s
        else (case validateDirectory E ref (v\<lparr>vaDirectories := directories\<rparr>) s of
            (Inl e, s') \<Rightarrow> (Inl e, s')
          | (Inr (children, v'), s') \<Rightarrow> validateDirectories E (queue @ children) v' s'))"
  by pat_completeness auto

termination
  by (relation "measures [\<lambda>(E, queue, v, s). maxActionResultObjects - vaObjects v,
      \<lambda>(E, queue, v, s). length queue]")
    (fastforce dest!: validateDirectory_counted [OF sym])+

definition validateDirectoryClosure ::
    "('w, 'c) env \<Rightarrow> digestReference list \<Rightarrow> validator \<Rightarrow> ('w server, validator) io" where
  "validateDirectoryClosure E roots v = validateDirectories E roots v"

section \<open>Validating an action result\<close>

text \<open>\<open>sortDigestReferences\<close> of \<open>pack_store.go\<close>: one reference per hash, in the order of the hashes.\<close>

definition uniqueReference :: "digestReference \<Rightarrow> (string \<rightharpoonup> digestReference) \<Rightarrow> (string \<rightharpoonup> digestReference)" where
  "uniqueReference value unique =
     (case unique (refHash value) of
        None \<Rightarrow> unique(refHash value \<mapsto> value)
      | Some existing \<Rightarrow> if refSize existing = refSize value then unique(refHash value \<mapsto> value) else unique)"

definition sortDigestReferences :: "digestReference list \<Rightarrow> digestReference list" where
  "sortDigestReferences refs =
     (let unique = fold uniqueReference refs Map.empty
      in map (\<lambda>h. the (unique h)) (sort (remdups (map refHash refs))))"

definition validateActionResultClosure ::
    "('w, 'c) env \<Rightarrow> object \<Rightarrow> bool \<Rightarrow> bool \<Rightarrow> ('w server, digestReference list) io" where
  "validateActionResultClosure E ob requirePersisted collectClosure =
     attempt (readFile E (objPath ob)) (\<lambda>data.
     case parseActionResult (envWire E) data of Inl e \<Rightarrow> fail (wrapInvalid e)
     | Inr references \<Rightarrow>
       attempt (forEach (validateBlob E) (dcValues (arBlobs references))
         (newValidator requirePersisted collectClosure)) (\<lambda>v.
       attempt (forEach (validateTree E) (dcValues (arTrees references)) v) (\<lambda>v.
       attempt (validateDirectoryClosure E (dcValues (arDirectories references)) v) (\<lambda>v.
       ok (sortDigestReferences (map snd (vaClosure v)))))))"

definition validateActionResult :: "('w, 'c) env \<Rightarrow> object \<Rightarrow> ('w server, unit) io" where
  "validateActionResult E ob = attempt (validateActionResultClosure E ob False False) (\<lambda>_. ok ())"

definition validateActionResultForPublication :: "('w, 'c) env \<Rightarrow> object \<Rightarrow> ('w server, unit) io" where
  "validateActionResultForPublication E ob =
     attempt (validateActionResultClosure E ob True False) (\<lambda>_. ok ())"

definition collectActionResultClosure ::
    "('w, 'c) env \<Rightarrow> object \<Rightarrow> ('w server, digestReference list) io" where
  "collectActionResultClosure E ob = validateActionResultClosure E ob False True"

section \<open>Frames\<close>

lemma keeps_readingI:
  "(\<And>x s. I s \<Longrightarrow> f s = x \<Longrightarrow> keeps I (k x)) \<Longrightarrow> keeps I (reading f k)"
  by (auto simp: keeps_def triple_def)

lemma keeps_readFile [keeps_rules]: "keeps (evolves s0) (readFile E path)"
  unfolding readFile_def by (intro keeps_rules)

lemma keeps_server_exists [keeps_rules]:
  "0 \<le> cfgMaxBlobSize (cfg s0) \<Longrightarrow> keeps (evolves s0) (server_exists E key)"
  using triple_server_exists [of s0 E key] by (auto simp: keeps_def triple_def)

lemma keeps_cas_resolve:
  "0 \<le> cfgMaxBlobSize (cfg s0) \<Longrightarrow> evolves s0 s \<Longrightarrow>
     keeps (evolves s0) (server_resolve E (casKey (cfgKeyPrefix (cfg s)) d) ''cas'' d)"
  by (rule keeps_resolved, rule triple_server_resolve) (simp add: evolves_def keyOk_cas)

lemma keeps_validate [keeps_rules]:
  assumes "0 \<le> cfgMaxBlobSize (cfg s0)"
  shows keeps_loadCAS: "keeps (evolves s0) (loadCAS E ref v)"
    and keeps_validateBlob: "keeps (evolves s0) (validateBlob E ref v)"
proof -
  show "keeps (evolves s0) (loadCAS E ref v)"
    unfolding loadCAS_def
    apply (rule keeps_sum, rule keeps_fail)
    apply (rule keeps_readingI, hypsubst)
    apply (intro keeps_rules keeps_backendExists keeps_cas_resolve assms; assumption)
    done
  show "keeps (evolves s0) (validateBlob E ref v)"
    unfolding validateBlob_def casExists_def Let_def
    by (intro keeps_rules keeps_backendExists assms)
qed

lemma keeps_validateTree [keeps_rules]:
  "0 \<le> cfgMaxBlobSize (cfg s0) \<Longrightarrow> keeps (evolves s0) (validateTree E ref v)"
  unfolding validateTree_def by (intro keeps_rules)

lemma keeps_validateDirectory:
  "0 \<le> cfgMaxBlobSize (cfg s0) \<Longrightarrow> keeps (evolves s0) (validateDirectory E ref v)"
  unfolding validateDirectory_def by (intro keeps_rules)

lemma validateDirectories_kept:
  assumes "\<And>ref v. keeps I (validateDirectory E ref v)" and "I s"
    and "validateDirectories E queue v s = (r, s')"
  shows "I s'"
  using assms
proof (induction E queue v s rule: validateDirectories.induct)
  case (2 E ref queue v s)
  show ?case
  proof (cases "\<exists>m. rememberDigest (vaDirectories v) ref = Inr (False, m)")
    case False
    then show ?thesis using 2 by (auto split: sum.splits prod.splits if_splits)
  next
    case True
    then obtain m where m: "rememberDigest (vaDirectories v) ref = Inr (False, m)" by blast
    obtain q s1 where q: "validateDirectory E ref (v\<lparr>vaDirectories := m\<rparr>) s = (q, s1)" by (metis surj_pair)
    have "I s1" using keepsD [OF 2(3) 2(4) q] .
    then show ?thesis using 2 m q by (cases q) (auto, blast)
  qed
qed simp

lemma keeps_validateClosure:
  assumes rules: "\<And>path. keeps I (readFile E path)" "\<And>ref v. keeps I (validateBlob E ref v)"
    "\<And>ref v. keeps I (validateTree E ref v)" "\<And>ref v. keeps I (validateDirectory E ref v)"
  shows "keeps I (validateActionResultClosure E ob persisted collectClosure)"
proof -
  have "keeps I (validateDirectories E queue v)" for queue v
    by (rule keepsI) (erule validateDirectories_kept [OF rules(4), rotated], assumption)
  then show ?thesis
    unfolding validateActionResultClosure_def validateDirectoryClosure_def by (intro keeps_rules rules)
qed

lemma keeps_validateActionResultClosure:
  "0 \<le> cfgMaxBlobSize (cfg s0) \<Longrightarrow>
     keeps (evolves s0) (validateActionResultClosure E ob persisted collectClosure)"
  by (intro keeps_validateClosure keeps_rules keeps_validateDirectory)

lemma world_validate [world_rules]:
  assumes "closedReads E P"
  shows world_loadCAS: "keeps (inWorld P) (loadCAS E ref v)"
    and world_validateBlob: "keeps (inWorld P) (validateBlob E ref v)"
  unfolding loadCAS_def validateBlob_def casExists_def Let_def by (intro keeps_rules world_rules assms)+

lemma world_validateActionResultClosure [world_rules]:
  assumes "closedReads E P"
  shows "keeps (inWorld P) (validateActionResultClosure E ob persisted collectClosure)"
  by (rule keeps_validateClosure; (unfold validateTree_def validateDirectory_def)?;
      intro keeps_rules world_rules assms)

section \<open>The closure of an action result\<close>

text \<open>
  \<open>available\<close>: what a positive existence check means, for a publication (\<open>persisted\<close>) in the backend,
  otherwise locally, or in the backend when there is no packed store. \<open>storedData\<close>: the object is local,
  with the digest and size of the reference.
\<close>

definition available :: "(string \<Rightarrow> 'w \<Rightarrow> bool) \<Rightarrow> bool \<Rightarrow> 'w server \<Rightarrow> digestReference \<Rightarrow> bool" where
  "available has persisted s ref \<longleftrightarrow>
     (let key = casKey (cfgKeyPrefix (cfg s)) (refHash ref) in
      if persisted then has key (world s)
      else objects s key \<noteq> None \<or> packs s = None \<and> has key (world s))"

definition storedData :: "'w server \<Rightarrow> digestReference \<Rightarrow> bytes \<Rightarrow> bool" where
  "storedData s ref data \<longleftrightarrow> (\<exists>ob. objects s (casKey (cfgKeyPrefix (cfg s)) (refHash ref)) = Some ob \<and>
     files s (objPath ob) = Some data \<and> sha256_hex data = refHash ref \<and> int (length data) = refSize ref)"

definition blobOk :: "(string \<Rightarrow> 'w \<Rightarrow> bool) \<Rightarrow> bool \<Rightarrow> 'w server \<Rightarrow> digestReference \<Rightarrow> bool" where
  "blobOk has persisted s ref \<longleftrightarrow> isImplicitEmptyDigest ref \<or> available has persisted s ref"

definition loadedOkay :: "(string \<Rightarrow> 'w \<Rightarrow> bool) \<Rightarrow> bool \<Rightarrow> 'w server \<Rightarrow> digestReference \<Rightarrow> bytes \<Rightarrow> bool" where
  "loadedOkay has persisted s ref data \<longleftrightarrow> storedData s ref data \<and> available has persisted s ref"

definition treeOk :: "protowire \<Rightarrow> (string \<Rightarrow> 'w \<Rightarrow> bool) \<Rightarrow> bool \<Rightarrow> 'w server \<Rightarrow> digestReference \<Rightarrow> bool" where
  "treeOk W has persisted s ref \<longleftrightarrow> (\<exists>data blobs. loadedOkay has persisted s ref data \<and>
     parseTree W data = Inr blobs \<and> (\<forall>b \<in> set blobs. blobOk has persisted s b))"

definition directoryAt :: "protowire \<Rightarrow> 'w server \<Rightarrow> digestReference \<Rightarrow> parsedDirectory \<Rightarrow> bool" where
  "directoryAt W s ref d \<longleftrightarrow> (\<exists>data. storedData s ref data \<and> parseDirectory W data = Inr d)"

text \<open>The directories that can be reached from the roots.\<close>

inductive reachable :: "protowire \<Rightarrow> 'w server \<Rightarrow> digestReference set \<Rightarrow> digestReference \<Rightarrow> bool"
  for W s roots where
  root: "ref \<in> roots \<Longrightarrow> reachable W s roots ref"
| child: "reachable W s roots ref \<Longrightarrow> directoryAt W s ref d \<Longrightarrow> c \<in> set (pdDirectories d) \<Longrightarrow>
    reachable W s roots c"

definition directoryOk ::
    "protowire \<Rightarrow> (string \<Rightarrow> 'w \<Rightarrow> bool) \<Rightarrow> bool \<Rightarrow> 'w server \<Rightarrow> digestReference \<Rightarrow> parsedDirectory \<Rightarrow> bool" where
  "directoryOk W has persisted s ref d \<longleftrightarrow> directoryAt W s ref d \<and> available has persisted s ref \<and>
     (\<forall>b \<in> set (pdFiles d). blobOk has persisted s b)"

definition closureComplete :: "protowire \<Rightarrow> (string \<Rightarrow> 'w \<Rightarrow> bool) \<Rightarrow> bool \<Rightarrow> 'w server \<Rightarrow> bytes \<Rightarrow> bool" where
  "closureComplete W has persisted s data \<longleftrightarrow> (\<exists>refs. parseActionResult W data = Inr refs \<and>
     (\<forall>b \<in> set (dcValues (arBlobs refs)). blobOk has persisted s b) \<and>
     (\<forall>t \<in> set (dcValues (arTrees refs)). treeOk W has persisted s t) \<and>
     (\<forall>r. reachable W s (set (dcValues (arDirectories refs))) r \<longrightarrow>
        (\<exists>d. directoryOk W has persisted s r d)))"

text \<open>\<open>grows\<close>: objects are only added, none changes, and entries stay in the cache.\<close>

definition good :: "'w server \<Rightarrow> bool" where
  "good s \<longleftrightarrow> serverInv s \<and> 0 \<le> cfgMaxBlobSize (cfg s)"

definition grows :: "(string \<Rightarrow> 'w \<Rightarrow> bool) \<Rightarrow> 'w server \<Rightarrow> 'w server \<Rightarrow> bool" where
  "grows has s s' \<longleftrightarrow> evolves s s' \<and> (\<forall>key. has key (world s) \<longrightarrow> has key (world s'))"

lemma grows_refl: "good s \<Longrightarrow> grows has s s"
  by (simp add: grows_def good_def evolves_refl)

lemma grows_trans: "grows has s s1 \<Longrightarrow> grows has s1 s2 \<Longrightarrow> grows has s s2"
  by (auto simp: grows_def intro: evolves_trans)

lemma grows_good: "grows has s s' \<Longrightarrow> good s \<Longrightarrow> good s'"
  by (simp add: grows_def good_def evolves_def)

lemma grows_run:
  assumes "\<And>s0. 0 \<le> cfgMaxBlobSize (cfg s0) \<Longrightarrow> keeps (evolves s0) m"
    and "\<And>P. closedReads E P \<Longrightarrow> keeps (inWorld P) m"
    and "honestBackend E has" and "good s" and "m s = (r, s')"
  shows "grows has s s'"
proof -
  have "evolves s s'"
    using assms(1,4,5) by (auto simp: good_def intro: keepsD evolves_refl)
  moreover have "has key (world s')" if "has key (world s)" for key
    using keepsD [OF assms(2) [of "has key"] _ assms(5)] assms(3) that
    by (simp add: honestBackend_def inWorld_def)
  ultimately show ?thesis by (simp add: grows_def)
qed

lemma grows_loadCAS:
  "honestBackend E has \<Longrightarrow> good s \<Longrightarrow> loadCAS E ref v s = (r, s') \<Longrightarrow> grows has s s'"
  by (rule grows_run [OF keeps_loadCAS world_loadCAS])

lemma grows_validateBlob:
  "honestBackend E has \<Longrightarrow> good s \<Longrightarrow> validateBlob E ref v s = (r, s') \<Longrightarrow> grows has s s'"
  by (rule grows_run [OF keeps_validateBlob world_validateBlob])

lemma grows_readFile:
  "honestBackend E has \<Longrightarrow> good s \<Longrightarrow> readFile E path s = (r, s') \<Longrightarrow> grows has s s'"
  by (rule grows_run [OF keeps_readFile world_primitives(4)])

lemma available_grows: "grows has s s' \<Longrightarrow> available has p s ref \<Longrightarrow> available has p s' ref"
  by (auto simp: available_def grows_def evolves_def Let_def map_le_def dom_def split: if_splits)

lemma blobOk_grows: "grows has s s' \<Longrightarrow> blobOk has p s ref \<Longrightarrow> blobOk has p s' ref"
  by (auto simp: blobOk_def intro: available_grows)

lemma storedData_grows: "grows has s s' \<Longrightarrow> storedData s ref data \<Longrightarrow> storedData s' ref data"
  unfolding storedData_def grows_def
  by (metis (no_types, lifting) evolves_def evolves_object owned_object)

lemma storedData_functional: "storedData s ref data \<Longrightarrow> storedData s ref data' \<Longrightarrow> data = data'"
  by (auto simp: storedData_def)

lemma directoryAt_functional: "directoryAt W s ref d \<Longrightarrow> directoryAt W s ref d' \<Longrightarrow> d = d'"
  by (auto simp: directoryAt_def dest: storedData_functional)

lemma treeOk_grows: "grows has s s' \<Longrightarrow> treeOk W has p s ref \<Longrightarrow> treeOk W has p s' ref"
  unfolding treeOk_def loadedOkay_def by (metis storedData_grows available_grows blobOk_grows)

lemma directoryOk_grows: "grows has s s' \<Longrightarrow> directoryOk W has p s ref d \<Longrightarrow> directoryOk W has p s' ref d"
  unfolding directoryOk_def directoryAt_def by (metis storedData_grows available_grows blobOk_grows)

section \<open>What a successful step has established\<close>

lemma server_exists_available:
  assumes H: "honestBackend E has" and good: "good s"
    and run: "server_exists E (casKey (cfgKeyPrefix (cfg s)) h) s = (Inr True, s')"
  shows "available has False s' \<lparr>refHash = h, refSize = n\<rparr>"
proof -
  let ?key = "casKey (cfgKeyPrefix (cfg s)) h"
  have size: "0 \<le> cfgMaxBlobSize (cfg s)" and ev: "evolves s s"
    using good by (auto simp: good_def intro: evolves_refl)
  from tripleD [OF triple_server_exists [OF size] ev run]
  have ev': "evolves s s'" and packed: "packs s \<noteq> None \<Longrightarrow> objects s' ?key \<noteq> None" by auto
  have "objects s' ?key \<noteq> None \<or> has ?key (world s')" if "packs s = None"
    using run that backendExists_has [OF H, of ?key s s'] unfolding server_exists_def
    by (auto split: if_splits)
  with packed ev' show ?thesis
    by (auto simp: available_def Let_def evolves_def)
qed

lemma casExists_available:
  assumes "honestBackend E has" and "good s"
    and "casExists E (casKey (cfgKeyPrefix (cfg s)) h) v s = (Inr True, s')"
  shows "available has (vaRequirePersisted v) s' \<lparr>refHash = h, refSize = n\<rparr>"
proof (cases "vaRequirePersisted v")
  case True
  with assms have run: "backendExists E (casKey (cfgKeyPrefix (cfg s)) h) s = (Inr True, s')"
    by (simp add: casExists_def)
  have "evolves s s'"
    using keepsD [OF keeps_backendExists evolves_refl run] assms(2) by (simp add: good_def)
  with True backendExists_has [OF assms(1) run] show ?thesis
    by (simp add: available_def evolves_def)
next
  case False
  with assms server_exists_available show ?thesis by (simp add: casExists_def)
qed

lemma grows_backendExists:
  "honestBackend E has \<Longrightarrow> good s \<Longrightarrow> backendExists E key s = (r, s') \<Longrightarrow> grows has s s'"
  by (rule grows_run [OF keeps_backendExists world_backendExists])

lemma resolve_loaded:
  assumes H: "honestBackend E has" and good: "good s" and prefix: "cfgKeyPrefix (cfg s) = keyPrefix"
    and run: "server_resolve E (casKey keyPrefix h) ''cas'' h s = (Inr (Some ob), s')"
  shows "grows has s s' \<and> storedData s' \<lparr>refHash = h, refSize = objSize ob\<rparr> (fileContent s' (objPath ob)) \<and>
    objects s' (casKey keyPrefix h) = Some ob"
proof -
  have inv: "serverInv s" and size: "0 \<le> cfgMaxBlobSize (cfg s)" using good by (auto simp: good_def)
  have run: "server_resolve E (casKey (cfgKeyPrefix (cfg s)) h) ''cas'' h s = (Inr (Some ob), s')"
    using run prefix by simp
  have found: "evolves s s'" "objects s' (casKey keyPrefix h) = Some ob"
    using stored.resolve_resolved [OF inv keyOk_cas [OF size] run] prefix by (auto simp: resolved_def)
  have world: "has key (world s')" if "has key (world s)" for key
    using keepsD [OF world_server_resolve [of E "has key"] _ run] H that
    by (simp add: honestBackend_def inWorld_def)
  from stored.found_content [OF inv keyOk_cas [OF size] run] found world prefix show ?thesis
    by (auto simp: grows_def storedData_def fileContent_def evolves_def dueTo_def)
qed

lemma loadCAS_loaded:
  assumes H: "honestBackend E has" and good: "good s"
    and run: "loadCAS E ref v s = (Inr (ob, v'), s')"
  shows "\<exists>data. loadedOkay has (vaRequirePersisted v) s' ref data \<and> files s' (objPath ob) = Some data \<and>
    v' = v\<lparr>vaObjects := Suc (vaObjects v)\<rparr>"
proof -
  let ?key = "casKey (cfgKeyPrefix (cfg s)) (refHash ref)"
  from run obtain s1 where exists: "(if vaRequirePersisted v then
        attempt (backendExists E ?key) (\<lambda>found. if found then ok () else fail (missingCASObject ref))
      else ok ()) s = (Inr (), s1)"
    and res: "server_resolve E ?key ''cas'' (refHash ref) s1 = (Inr (Some ob), s')"
    and size: "objSize ob = refSize ref" and v': "v' = v\<lparr>vaObjects := Suc (vaObjects v)\<rparr>"
    by (auto simp: loadCAS_def run_iffs reserveObject_Inr)
  have s1: "grows has s s1 \<and> (vaRequirePersisted v \<longrightarrow> has ?key (world s1))"
    using exists grows_backendExists [OF H good] backendExists_has [OF H] grows_refl [OF good]
    by (auto simp: run_iffs split: if_splits)
  then have "good s1" using good grows_good by blast
  from resolve_loaded [OF H this _ res] s1
  have s': "grows has s1 s'" "storedData s' \<lparr>refHash = refHash ref, refSize = objSize ob\<rparr> (fileContent s' (objPath ob))"
    "objects s' ?key = Some ob"
    by (auto simp: grows_def evolves_def)
  with s1 size have "available has (vaRequirePersisted v) s' ref" "storedData s' ref (fileContent s' (objPath ob))"
    by (auto simp: available_def grows_def evolves_def storedData_def)
  moreover have "files s' (objPath ob) = Some (fileContent s' (objPath ob))"
    using s'(2,3) s1 s'(1) by (auto simp: storedData_def grows_def evolves_def fileContent_def)
  ultimately show ?thesis using v' by (auto simp: loadedOkay_def)
qed

text \<open>The validator's memory: what it has marked as validated is so, but for the trees in work \<open>X\<close>.\<close>

definition remembers ::
    "protowire \<Rightarrow> (string \<Rightarrow> 'w \<Rightarrow> bool) \<Rightarrow> bool \<Rightarrow> string set \<Rightarrow> validator \<Rightarrow> 'w server \<Rightarrow> bool" where
  "remembers W has p X v s \<longleftrightarrow> good s \<and> vaRequirePersisted v = p \<and>
     (\<forall>h n. vaBlobs v h = Some n \<longrightarrow> available has p s \<lparr>refHash = h, refSize = n\<rparr>) \<and>
     (\<forall>h n. vaTrees v h = Some n \<and> h \<notin> X \<longrightarrow> treeOk W has p s \<lparr>refHash = h, refSize = n\<rparr>)"

lemma remembers_grows: "grows has s s' \<Longrightarrow> remembers W has p X v s \<Longrightarrow> remembers W has p X v s'"
  unfolding remembers_def by (metis available_grows treeOk_grows grows_good)

lemma rememberDigest_Inr:
  "rememberDigest m ref = Inr (b, m') \<longleftrightarrow>
     (b \<and> m (refHash ref) = Some (refSize ref) \<and> m' = m \<or>
      \<not> b \<and> m (refHash ref) = None \<and> m' = m(refHash ref \<mapsto> refSize ref))"
  by (auto simp: rememberDigest_def split: option.splits)

lemma ref_surjective [simp]: "\<lparr>refHash = refHash ref, refSize = refSize ref\<rparr> = ref"
  by simp

lemma validateBlob_step:
  assumes H: "honestBackend E has" and mem: "remembers W has p X v s"
    and run: "validateBlob E ref v s = (Inr v', s')"
  shows "remembers W has p X v' s' \<and> grows has s s' \<and> vaDirectories v' = vaDirectories v \<and> blobOk has p s' ref"
proof -
  have good: "good s" and p: "vaRequirePersisted v = p" using mem by (auto simp: remembers_def)
  note grows = grows_validateBlob [OF H good run]
  show ?thesis
  proof (cases "isImplicitEmptyDigest ref \<or> vaBlobs v (refHash ref) \<noteq> None")
    case True
    with run have "v' = v \<and> s' = s \<and> (isImplicitEmptyDigest ref \<or> vaBlobs v (refHash ref) = Some (refSize ref))"
      by (auto simp: validateBlob_def run_iffs rememberDigest_Inr)
    with mem grows show ?thesis
      unfolding blobOk_def remembers_def by (metis ref_surjective)
  next
    case False
    with run obtain w where w: "w = collect ref (v\<lparr>vaBlobs := (vaBlobs v)(refHash ref \<mapsto> refSize ref),
          vaObjects := Suc (vaObjects v)\<rparr>)" and v': "v' = w"
      and ex: "casExists E (casKey (cfgKeyPrefix (cfg s)) (refHash ref)) w s = (Inr True, s')"
      by (auto simp: validateBlob_def run_iffs rememberDigest_Inr reserveObject_Inr Let_def)
    have here: "available has p s' ref"
      using casExists_available [OF H good ex, of "refSize ref"] p w by simp
    with remembers_grows [OF grows mem] grows v' w show ?thesis
      by (auto simp: remembers_def blobOk_def)
  qed
qed

lemma forEach_steps:
  assumes step: "\<And>x v s v' s'. J v s \<Longrightarrow> f x v s = (Inr v', s') \<Longrightarrow> J v' s' \<and> grows has s s' \<and> D v' = D v \<and> post x s'"
    and mono: "\<And>x s s'. grows has s s' \<Longrightarrow> post x s \<Longrightarrow> post x s'"
    and good: "\<And>v s. J v s \<Longrightarrow> good s"
  shows "forEach f xs v s = (Inr v', s') \<Longrightarrow> J v s \<Longrightarrow>
    J v' s' \<and> grows has s s' \<and> D v' = D v \<and> (\<forall>x \<in> set xs. post x s')"
proof (induction xs arbitrary: v s)
  case Nil
  then show ?case using good by (auto intro: grows_refl)
next
  case (Cons x xs)
  then obtain v1 s1 where first: "f x v s = (Inr v1, s1)" and rest: "forEach f xs v1 s1 = (Inr v', s')"
    by (auto simp: attempt_Inr_iff)
  from step [OF Cons.prems(2) first] Cons.IH [OF rest] show ?case
    by (auto intro: grows_trans mono)
qed

lemma remembers_good: "remembers W has p X v s \<Longrightarrow> good s"
  by (simp add: remembers_def)

lemma validateBlobs_step:
  assumes H: "honestBackend E has" and mem: "remembers W has p X v s"
    and run: "forEach (validateBlob E) refs v s = (Inr v', s')"
  shows "remembers W has p X v' s' \<and> grows has s s' \<and> vaDirectories v' = vaDirectories v \<and>
    (\<forall>ref \<in> set refs. blobOk has p s' ref)"
  by (rule forEach_steps [where J = "remembers W has p X" and D = vaDirectories and post = "\<lambda>ref s. blobOk has p s ref",
        OF validateBlob_step [OF H] blobOk_grows remembers_good run mem])

lemma loadCAS_step:
  assumes H: "honestBackend E has" and mem: "remembers W has p X v s"
    and run: "loadCAS E ref (collect ref v) s = (Inr (ob, v1), s1)"
  shows "grows has s s1 \<and> remembers W has p X v1 s1 \<and> vaDirectories v1 = vaDirectories v \<and>
    vaTrees v1 = vaTrees v \<and>
    (\<exists>data. loadedOkay has p s1 ref data \<and> files s1 (objPath ob) = Some data)"
proof -
  have good: "good s" and p: "vaRequirePersisted v = p" using mem by (auto simp: remembers_def)
  note grows = grows_loadCAS [OF H good run]
  from loadCAS_loaded [OF H good run] p remembers_grows [OF grows mem] grows
  show ?thesis by (auto simp: remembers_def)
qed

lemma readFile_here:
  assumes "honestBackend E has" and "good s" and "readFile E path s = (Inr data, s')"
  shows "grows has s s' \<and> files s' path = Some data \<and> files s path = Some data"
  using assms(3) grows_readFile [OF assms]
  by (auto simp: readFile_def run_iffs fault_def split: prod.splits option.splits)

lemma validateBlob_trees: "validateBlob E ref v s = (Inr v', s') \<Longrightarrow> vaTrees v' = vaTrees v"
  by (auto simp: validateBlob_def run_iffs reserveObject_Inr Let_def)

lemma validateBlobs_trees: "forEach (validateBlob E) refs v s = (Inr v', s') \<Longrightarrow> vaTrees v' = vaTrees v"
  by (induction refs arbitrary: v s) (auto simp: attempt_Inr_iff dest: validateBlob_trees)

lemma validateTree_step:
  assumes H: "honestBackend E has" and mem: "remembers (envWire E) has p {} v s"
    and run: "validateTree E ref v s = (Inr v', s')"
  shows "remembers (envWire E) has p {} v' s' \<and> grows has s s' \<and> vaDirectories v' = vaDirectories v \<and>
    treeOk (envWire E) has p s' ref"
proof (cases "vaTrees v (refHash ref)")
  case (Some n)
  with run have "v' = v \<and> s' = s \<and> n = refSize ref"
    by (auto simp: validateTree_def run_iffs rememberDigest_Inr)
  with mem Some show ?thesis
    unfolding remembers_def by (metis ref_surjective grows_refl empty_iff)
next
  case None
  let ?w = "v\<lparr>vaTrees := (vaTrees v)(refHash ref \<mapsto> refSize ref)\<rparr>" and ?X = "{refHash ref}"
  from None run obtain ob v1 s1 data s2 blobs where
    load: "loadCAS E ref (collect ref ?w) s = (Inr (ob, v1), s1)"
    and read: "readFile E (objPath ob) s1 = (Inr data, s2)"
    and parse: "parseTree (envWire E) data = Inr blobs"
    and loop: "forEach (validateBlob E) blobs v1 s2 = (Inr v', s')"
    by (auto simp: validateTree_def run_iffs rememberDigest_Inr)
  have "remembers (envWire E) has p ?X ?w s" using mem by (auto simp: remembers_def)
  from loadCAS_step [OF H this load] obtain content where
    s1: "grows has s s1" and m1: "remembers (envWire E) has p ?X v1 s1"
    and v1: "vaDirectories v1 = vaDirectories v" "vaTrees v1 = (vaTrees v)(refHash ref \<mapsto> refSize ref)"
    and loaded: "loadedOkay has p s1 ref content" and file1: "files s1 (objPath ob) = Some content"
    by auto
  from readFile_here [OF H remembers_good [OF m1] read] have s2: "grows has s1 s2" and data: "content = data"
    using file1 by auto
  from validateBlobs_step [OF H remembers_grows [OF s2 m1] loop]
  have after: "remembers (envWire E) has p ?X v' s'" "grows has s2 s'" "vaDirectories v' = vaDirectories v1"
    "\<forall>b \<in> set blobs. blobOk has p s' b" by auto
  have grows: "grows has s s'" "grows has s1 s'" using s1 s2 after(2) by (auto intro: grows_trans)
  have tree: "treeOk (envWire E) has p s' ref"
    using loaded parse after(4) grows(2) data unfolding treeOk_def loadedOkay_def
    by (metis storedData_grows available_grows)
  have "vaTrees v' = (vaTrees v)(refHash ref \<mapsto> refSize ref)"
    using validateBlobs_trees [OF loop] v1 by simp
  with tree after(1) have "remembers (envWire E) has p {} v' s'"
    unfolding remembers_def by (metis empty_iff fun_upd_same option.inject ref_surjective singletonD)
  with tree grows(1) after(3) v1 show ?thesis by simp
qed

lemma validateDirectory_step:
  assumes H: "honestBackend E has" and mem: "remembers (envWire E) has p X v s"
    and run: "validateDirectory E ref v s = (Inr (children, v'), s')"
  shows "\<exists>d. directoryOk (envWire E) has p s' ref d \<and> pdDirectories d = children \<and>
    remembers (envWire E) has p X v' s' \<and> grows has s s' \<and> vaDirectories v' = vaDirectories v"
proof -
  from run obtain ob v1 s1 data s2 d where
    load: "loadCAS E ref (collect ref v) s = (Inr (ob, v1), s1)"
    and read: "readFile E (objPath ob) s1 = (Inr data, s2)"
    and parse: "parseDirectory (envWire E) data = Inr d" and children: "pdDirectories d = children"
    and loop: "forEach (validateBlob E) (pdFiles d) v1 s2 = (Inr v', s')"
    by (auto simp: validateDirectory_def run_iffs)
  from loadCAS_step [OF H mem load] obtain content where
    s1: "grows has s s1" and m1: "remembers (envWire E) has p X v1 s1" and v1: "vaDirectories v1 = vaDirectories v"
    and loaded: "loadedOkay has p s1 ref content" and file1: "files s1 (objPath ob) = Some content"
    by auto
  from readFile_here [OF H remembers_good [OF m1] read] have s2: "grows has s1 s2" and data: "content = data"
    using file1 by auto
  from validateBlobs_step [OF H remembers_grows [OF s2 m1] loop]
  have after: "remembers (envWire E) has p X v' s'" "grows has s2 s'" "vaDirectories v' = vaDirectories v1"
    "\<forall>b \<in> set (pdFiles d). blobOk has p s' b" by auto
  have grows: "grows has s s'" "grows has s1 s'" using s1 s2 after(2) by (auto intro: grows_trans)
  have "directoryOk (envWire E) has p s' ref d"
    using loaded parse after(4) grows(2) data unfolding directoryOk_def directoryAt_def loadedOkay_def
    by (metis storedData_grows available_grows)
  with after grows(1) v1 children show ?thesis by auto
qed

section \<open>The loop over the directories\<close>

definition visited :: "validator \<Rightarrow> digestReference set" where
  "visited v = {ref. vaDirectories v (refHash ref) = Some (refSize ref)}"

text \<open>The invariant of the loop: a visited directory is complete, its children visited or in the queue.\<close>

definition directoriesInv ::
    "protowire \<Rightarrow> (string \<Rightarrow> 'w \<Rightarrow> bool) \<Rightarrow> bool \<Rightarrow> digestReference set \<Rightarrow> validator \<Rightarrow> 'w server \<Rightarrow> bool" where
  "directoriesInv W has p queue v s \<longleftrightarrow>
     (\<forall>ref \<in> visited v. \<exists>d. directoryOk W has p s ref d \<and> set (pdDirectories d) \<subseteq> visited v \<union> queue)"

lemma directoriesInv_grows:
  "grows has s s' \<Longrightarrow> directoriesInv W has p queue v s \<Longrightarrow> visited v' = visited v \<Longrightarrow>
     directoriesInv W has p queue v' s'"
  unfolding directoriesInv_def by (metis directoryOk_grows)

lemma validateDirectories_step:
  assumes "honestBackend E has" and "remembers (envWire E) has p X v s"
    and "directoriesInv (envWire E) has p (set queue) v s"
    and "validateDirectories E queue v s = (Inr v', s')"
  shows "grows has s s' \<and> directoriesInv (envWire E) has p {} v' s' \<and> visited v \<union> set queue \<subseteq> visited v'"
  using assms
proof (induction E queue v s rule: validateDirectories.induct)
  case (1 E v s)
  then show ?case by (auto intro: grows_refl remembers_good)
next
  case (2 E ref queue v s)
  note H = 2(3) and mem = 2(4) and inv = 2(5) and run = 2(6)
  show ?case
  proof (cases "vaDirectories v (refHash ref)")
    case (Some n)
    with run have seen: "ref \<in> visited v" and rest: "validateDirectories E queue v s = (Inr v', s')"
      and remembered: "rememberDigest (vaDirectories v) ref = Inr (True, vaDirectories v)"
      by (auto simp: visited_def rememberDigest_def split: if_splits)
    have "visited v \<union> set (ref # queue) = visited v \<union> set queue" using seen by auto
    with inv have "directoriesInv (envWire E) has p (set queue) v s"
      unfolding directoriesInv_def by simp
    from 2(1) [OF remembered refl TrueI H mem this rest] seen show ?thesis by auto
  next
    case None
    let ?m = "(vaDirectories v)(refHash ref \<mapsto> refSize ref)"
    let ?w = "v\<lparr>vaDirectories := ?m\<rparr>"
    have remembered: "rememberDigest (vaDirectories v) ref = Inr (False, ?m)"
      using None by (simp add: rememberDigest_def)
    with run obtain children v1 s1 where
      step: "validateDirectory E ref ?w s = (Inr (children, v1), s1)"
      and rest: "validateDirectories E (queue @ children) v1 s1 = (Inr v', s')"
      by (auto split: prod.splits sum.splits)
    have "remembers (envWire E) has p X ?w s" using mem by (simp add: remembers_def)
    from validateDirectory_step [OF H this step] obtain d where
      d: "directoryOk (envWire E) has p s1 ref d" "pdDirectories d = children"
      and m1: "remembers (envWire E) has p X v1 s1" and s1: "grows has s s1" and v1: "vaDirectories v1 = ?m"
      by auto
    have vis: "visited v1 = insert ref (visited v)"
      using v1 None by (auto simp: visited_def intro: ref_surjective split: if_splits)
    have "\<exists>d'. directoryOk (envWire E) has p s1 r d' \<and>
        set (pdDirectories d') \<subseteq> visited v1 \<union> set (queue @ children)" if "r \<in> visited v1" for r
    proof (cases "r = ref")
      case True
      with d show ?thesis by (intro exI [of _ d]) auto
    next
      case False
      with that vis inv obtain d' where "directoryOk (envWire E) has p s r d'"
        "set (pdDirectories d') \<subseteq> visited v \<union> set (ref # queue)"
        unfolding directoriesInv_def by blast
      with directoryOk_grows [OF s1] vis show ?thesis by fastforce
    qed
    then have "directoriesInv (envWire E) has p (set (queue @ children)) v1 s1"
      unfolding directoriesInv_def by blast
    from 2(2) [OF remembered refl _ step [symmetric] refl refl H m1 this rest] vis s1
    show ?thesis by (auto intro: grows_trans)
  qed
qed

section \<open>Completeness\<close>

lemma reachable_visited:
  assumes inv: "directoriesInv W has p {} v s" and roots: "roots \<subseteq> visited v" and reach: "reachable W s roots ref"
  shows "ref \<in> visited v"
  using reach
proof induction
  case (root ref)
  with roots show ?case by blast
next
  case (child ref d c)
  with inv obtain d' where "directoryOk W has p s ref d'" "set (pdDirectories d') \<subseteq> visited v"
    unfolding directoriesInv_def by auto
  with child directoryAt_functional show ?case
    unfolding directoryOk_def by blast
qed

lemma new_remembers: "good s \<Longrightarrow> remembers W has p X (newValidator p c) s"
  by (simp add: remembers_def newValidator_def)

text \<open>A validation that succeeds, in its parts: the blobs, the trees and the directories, and what each has established.\<close>

lemma validation_parts:
  assumes H: "honestBackend E has" and good: "good s"
    and run: "validateActionResultClosure E ob persisted collectClosure s = (Inr closure, s')"
  obtains data refs s0 v1 s1 v2 s2 v3 where
    "files s (objPath ob) = Some data" "parseActionResult (envWire E) data = Inr refs" "grows has s s0"
    "forEach (validateBlob E) (dcValues (arBlobs refs)) (newValidator persisted collectClosure) s0 = (Inr v1, s1)"
    "forEach (validateTree E) (dcValues (arTrees refs)) v1 s1 = (Inr v2, s2)"
    "validateDirectories E (dcValues (arDirectories refs)) v2 s2 = (Inr v3, s')"
    "grows has s s1" "grows has s1 s2" "grows has s2 s'"
    "\<forall>b \<in> set (dcValues (arBlobs refs)). blobOk has persisted s1 b"
    "\<forall>t \<in> set (dcValues (arTrees refs)). treeOk (envWire E) has persisted s2 t"
    "directoriesInv (envWire E) has persisted {} v3 s'" "set (dcValues (arDirectories refs)) \<subseteq> visited v3"
proof -
  from run obtain data s0 refs v1 s1 v2 s2 v3 where
    read: "readFile E (objPath ob) s = (Inr data, s0)"
    and parse: "parseActionResult (envWire E) data = Inr refs"
    and blobs: "forEach (validateBlob E) (dcValues (arBlobs refs)) (newValidator persisted collectClosure) s0 = (Inr v1, s1)"
    and trees: "forEach (validateTree E) (dcValues (arTrees refs)) v1 s1 = (Inr v2, s2)"
    and dirs: "validateDirectories E (dcValues (arDirectories refs)) v2 s2 = (Inr v3, s')"
    by (auto simp: validateActionResultClosure_def validateDirectoryClosure_def run_iffs)
  let ?W = "envWire E"
  from readFile_here [OF H good read] have s0: "grows has s s0" and data: "files s (objPath ob) = Some data" by auto
  from validateBlobs_step [OF H new_remembers [OF grows_good [OF s0 good]] blobs, of ?W "{}"]
  have m1: "remembers ?W has persisted {} v1 s1" and s1: "grows has s0 s1" and d1: "vaDirectories v1 = Map.empty"
    and b1: "\<forall>b \<in> set (dcValues (arBlobs refs)). blobOk has persisted s1 b"
    by (auto simp: newValidator_def)
  from forEach_steps [where J = "remembers ?W has persisted {}" and D = vaDirectories
      and post = "\<lambda>t s. treeOk ?W has persisted s t",
      OF validateTree_step [OF H] treeOk_grows remembers_good trees m1]
  have m2: "remembers ?W has persisted {} v2 s2" and s2: "grows has s1 s2" and d2: "vaDirectories v2 = Map.empty"
    and t2: "\<forall>t \<in> set (dcValues (arTrees refs)). treeOk ?W has persisted s2 t"
    using d1 by auto
  have "directoriesInv ?W has persisted (set (dcValues (arDirectories refs))) v2 s2"
    by (simp add: directoriesInv_def visited_def d2)
  from validateDirectories_step [OF H m2 this dirs]
  have "grows has s2 s'" "directoriesInv ?W has persisted {} v3 s'" "set (dcValues (arDirectories refs)) \<subseteq> visited v3"
    by auto
  then show thesis
    by (intro that [OF data parse s0 blobs trees dirs grows_trans [OF s0 s1] s2 _ b1 t2])
qed

lemma validation_complete:
  assumes "honestBackend E has" and "good s"
    and "validateActionResultClosure E ob persisted collectClosure s = (Inr closure, s')"
  shows "\<exists>data. files s (objPath ob) = Some data \<and>
    closureComplete (envWire E) has persisted s' data"
proof (rule validation_parts [OF assms])
  fix data refs s1 s2 v3
  let ?W = "envWire E"
  assume data: "files s (objPath ob) = Some data" "parseActionResult ?W data = Inr refs"
    and s: "grows has s1 s2" "grows has s2 s'"
    and blobs: "\<forall>b \<in> set (dcValues (arBlobs refs)). blobOk has persisted s1 b"
    and trees: "\<forall>t \<in> set (dcValues (arTrees refs)). treeOk ?W has persisted s2 t"
    and inv: "directoriesInv ?W has persisted {} v3 s'" and roots: "set (dcValues (arDirectories refs)) \<subseteq> visited v3"
  have "\<exists>d. directoryOk ?W has persisted s' r d" if "reachable ?W s' (set (dcValues (arDirectories refs))) r" for r
    using reachable_visited [OF inv roots that] inv by (auto simp: directoriesInv_def)
  moreover have "\<forall>b \<in> set (dcValues (arBlobs refs)). blobOk has persisted s' b"
    using blobs grows_trans [OF s] by (blast intro: blobOk_grows)
  moreover have "\<forall>t \<in> set (dcValues (arTrees refs)). treeOk ?W has persisted s' t"
    using trees s(2) by (blast intro: treeOk_grows)
  ultimately show ?thesis using data by (auto simp: closureComplete_def)
qed

text \<open>
  C3. A validation that succeeds has checked the whole closure (\<open>validateActionResultClosure\<close>): with a
  backend that tells the truth, afterwards every blob of the action result is available, every tree is a
  local object with its digest and size whose files are available, and every directory that can be
  reached from the root directories, at any depth, is such an object and all its files are available.
  For a publication, available means: the backend has it.
\<close>

theorem validateActionResultClosure_complete:
  assumes "honestBackend E has" and "serverInv s" and "0 \<le> cfgMaxBlobSize (cfg s)"
    and "validateActionResultClosure E ob persisted collectClosure s = (Inr closure, s')"
  shows "\<exists>data. files s (objPath ob) = Some data \<and>
    closureComplete (envWire E) has persisted s' data"
proof -
  have "good s" using assms(2,3) by (simp add: good_def)
  with assms(1,4) show ?thesis by (blast intro: validation_complete)
qed

text \<open>A closure stays complete while the server goes on.\<close>

lemma reachable_grows:
  assumes "grows has s s'" and "\<forall>r. reachable W s roots r \<longrightarrow> (\<exists>d. directoryOk W has p s r d)"
    and "reachable W s' roots ref"
  shows "reachable W s roots ref"
  using assms(3)
proof induction
  case (child ref d c)
  then obtain d' where ok: "directoryOk W has p s ref d'" using assms(2) by blast
  then have "directoryAt W s' ref d'" using directoryOk_grows [OF assms(1) ok] by (simp add: directoryOk_def)
  with child have "d = d'" by (blast dest: directoryAt_functional)
  with child ok show ?case by (auto simp: directoryOk_def intro: reachable.child)
qed (rule reachable.root)

lemma closureComplete_grows:
  assumes "grows has s s'" and "closureComplete W has p s data"
  shows "closureComplete W has p s' data"
proof -
  from assms(2) obtain refs where refs: "parseActionResult W data = Inr refs"
    and blobs: "\<forall>b \<in> set (dcValues (arBlobs refs)). blobOk has p s b"
    and trees: "\<forall>t \<in> set (dcValues (arTrees refs)). treeOk W has p s t"
    and dirs: "\<forall>r. reachable W s (set (dcValues (arDirectories refs))) r \<longrightarrow> (\<exists>d. directoryOk W has p s r d)"
    by (auto simp: closureComplete_def)
  have "\<exists>d. directoryOk W has p s' r d" if "reachable W s' (set (dcValues (arDirectories refs))) r" for r
    using reachable_grows [OF assms(1) dirs that] dirs directoryOk_grows [OF assms(1)] by blast
  then show ?thesis
    using refs blobs trees blobOk_grows [OF assms(1)] treeOk_grows [OF assms(1)]
    unfolding closureComplete_def by blast
qed

text \<open>It does not depend on files that nothing refers to.\<close>

lemma removeFile_frame:
  assumes "path \<notin> owned s"
  shows "storedData (removeFile path s) = storedData s" "available has p (removeFile path s) = available has p s"
proof -
  have "storedData (removeFile path s) ref data = storedData s ref data" for ref data
  proof (cases "objects s (casKey (cfgKeyPrefix (cfg s)) (refHash ref))")
    case (Some ob)
    then have "objPath ob \<noteq> path" using owned_object assms by blast
    with Some show ?thesis by (simp add: storedData_def removeFile_def)
  qed (simp add: storedData_def removeFile_def)
  then show "storedData (removeFile path s) = storedData s" by blast
  show "available has p (removeFile path s) = available has p s"
    by (rule ext) (simp add: available_def removeFile_def)
qed

lemma reachable_same: "directoryAt W s = directoryAt W s' \<Longrightarrow> reachable W s roots ref \<Longrightarrow> reachable W s' roots ref"
  by (rotate_tac, induction rule: reachable.induct) (auto intro: reachable.intros)

lemma closureComplete_removeFile:
  assumes "path \<notin> owned s"
  shows "closureComplete W has p (removeFile path s) data = closureComplete W has p s data"
proof -
  have dir: "directoryAt W (removeFile path s) = directoryAt W s"
    by (intro ext) (simp add: directoryAt_def removeFile_frame [OF assms])
  have "reachable W (removeFile path s) = reachable W s"
    using reachable_same [OF dir] reachable_same [OF dir [symmetric]] by (intro ext) blast
  then show ?thesis
    unfolding closureComplete_def treeOk_def loadedOkay_def directoryOk_def blobOk_def dir
      removeFile_frame [OF assms] by simp
qed

section \<open>No validation crashes\<close>

lemma wrapInvalid_calm: "\<not> crashed (Inl e :: go_error + 'a) \<Longrightarrow> calm (fail (wrapInvalid e))"
  by (cases e) (simp_all add: calm_def)

lemma calm_parsed:
  assumes "\<not> crashed r" and "\<And>x. calm (k x)"
  shows "calm (case r of Inl e \<Rightarrow> fail (wrapInvalid e) | Inr x \<Rightarrow> k x)"
  using assms wrapInvalid_calm by (cases r) auto

lemma rememberDigest_safe: "\<not> crashed (rememberDigest m ref)"
  unfolding rememberDigest_def by (cases "m (refHash ref)") auto

lemma reserveObject_calm: "(\<And>v. calm (k v)) \<Longrightarrow> calm (case reserveObject v of Inl e \<Rightarrow> fail e | Inr v \<Rightarrow> k v)"
  by (auto simp: reserveObject_def Let_def calm_def)

lemma missing_calm [calm_rules]: "calm (fail (missingCASObject ref))"
  by (simp add: missingCASObject_def calm_def)

lemma calm_readCARBlock [calm_rules]: "calm (readCARBlock E path contentCID n)"
proof -
  have check: "calm (case checkCARBlock (envIpld E) contentCID data of Inl e \<Rightarrow> fail e | Inr d \<Rightarrow> ok d)" for data
    by (auto simp: calm_def checkCARBlock_def split: sum.split)
  show ?thesis
    unfolding readCARBlock_def by (intro calm_rules check)
qed

lemma calm_enterObject: "(\<And>x. calm (k x)) \<Longrightarrow> calm (andThen (enterObject key ob) k)"
  by (rule calm_andThen)

lemma calm_removeUnlessKept [calm_rules]: "calm m \<Longrightarrow> calm (removeUnlessKept path m)"
  by (auto simp: calm_def removeUnlessKept_def andThen_def crashed_Inl_iff split: prod.split sum.split option.split)
    (metis crashed.simps(1,2) fst_conv)+

lemma calm_server_resolve [calm_rules]: "calm (server_resolve E key kind digest)"
  unfolding server_resolve_def packs_resolve_def materialize_def loadPack_def downloadPack_def checkPack_def
    downloadObject_def
  by (intro calm_rules calm_andThen; simp)

lemma calm_server_exists [calm_rules]: "calm (server_exists E key)"
  unfolding server_exists_def packs_exists_def packs_resolve_def materialize_def loadPack_def downloadPack_def
    checkPack_def
  by (intro calm_rules; simp)

lemma calm_loadCAS [calm_rules]: "calm (loadCAS E ref v)"
  unfolding loadCAS_def by (intro reserveObject_calm calm_rules) simp_all

lemma calm_validateBlob [calm_rules]: "calm (validateBlob E ref v)"
  unfolding validateBlob_def casExists_def Let_def
  by (intro calm_rules calm_parsed rememberDigest_safe reserveObject_calm)

lemma calm_validateTree: "protowire_laws (envWire E) \<Longrightarrow> calm (validateTree E ref v)"
  unfolding validateTree_def by (intro calm_rules calm_parsed rememberDigest_safe parseTree_safe)

lemma calm_validateDirectory: "protowire_laws (envWire E) \<Longrightarrow> calm (validateDirectory E ref v)"
  unfolding validateDirectory_def by (intro calm_rules calm_parsed parseDirectory_safe)

lemma wrapInvalid_safe: "\<not> crashed (Inl e :: go_error + 'a) \<Longrightarrow> \<not> crashed (Inl (wrapInvalid e) :: go_error + 'b)"
  by (cases e) simp_all

lemma validateDirectories_calm:
  assumes "\<And>ref v. calm (validateDirectory E ref v)"
  shows "\<not> crashed (fst (validateDirectories E queue v s))"
  using assms
proof (induction E queue v s rule: validateDirectories.induct)
  case (2 E ref queue v s)
  show ?case
  proof (cases "rememberDigest (vaDirectories v) ref")
    case (Inl e)
    then show ?thesis using rememberDigest_safe [of "vaDirectories v" ref] wrapInvalid_safe by auto
  next
    case (Inr r)
    obtain b m where r: "r = (b, m)" by (cases r)
    obtain q s1 where q: "validateDirectory E ref (v\<lparr>vaDirectories := m\<rparr>) s = (q, s1)" by (metis surj_pair)
    have "\<not> crashed q"
      using 2(3) q by (auto simp: calm_def) (metis fst_conv)
    then show ?thesis
      using 2 Inr r q by (cases q; cases b) (auto simp: crashed_Inl_iff, blast+)
  qed
qed simp

lemma validation_calm:
  assumes "protowire_laws (envWire E)"
  shows "\<not> crashed (fst (validateActionResultClosure E ob persisted collectClosure s))"
proof -
  have "calm (validateDirectoryClosure E roots v)" for roots v
    unfolding validateDirectoryClosure_def
    by (rule calmI) (rule validateDirectories_calm, rule calm_validateDirectory, rule assms)
  then have "calm (validateActionResultClosure E ob persisted collectClosure)"
    unfolding validateActionResultClosure_def
    by (intro calm_rules calm_parsed parseActionResult_safe assms calm_validateTree)
  then show ?thesis by (simp add: calm_def)
qed

end
