(* ===== verification/ClosureBound.thy ===== *)
theory ClosureBound
  imports Validation
begin

text \<open>
  The bound of a validation (\<open>reserveObject\<close> in \<open>action_result_validation.go\<close>): the counter of the validator is the
  number of blobs, trees and directories that it has marked, and everything in the closure of an action result
  is marked when the validation succeeds. So a closure that is accepted has at most 100000 members.
\<close>

section \<open>The counter\<close>

definition marked :: "(string \<rightharpoonup> int) \<Rightarrow> digestReference set" where
  "marked m = {ref. m (refHash ref) = Some (refSize ref)}"

lemma marked_update: "m (refHash ref) = None \<Longrightarrow> marked (m(refHash ref \<mapsto> refSize ref)) = insert ref (marked m)"
  by (auto simp: marked_def intro: ref_surjective split: if_splits)

lemma marked_mono: "m \<subseteq>\<^sub>m m' \<Longrightarrow> marked m \<subseteq> marked m'"
  by (auto simp: marked_def map_le_def dom_def)

text \<open>A hash is marked with one size, so the references that are marked are as many as the hashes.\<close>

lemma card_marked:
  assumes "finite (dom m)"
  shows "finite (marked m)" and "card (marked m) = card (dom m)"
proof -
  have "bij_betw refHash (marked m) (dom m)"
  proof (rule bij_betw_imageI)
    show "inj_on refHash (marked m)" by (rule inj_onI) (auto simp: marked_def intro: digestReference.equality)
    show "refHash ` marked m = dom m"
    proof (intro equalityI subsetI)
      fix h assume "h \<in> dom m"
      then obtain n where "m h = Some n" by blast
      then have "\<lparr>refHash = h, refSize = n\<rparr> \<in> marked m" by (simp add: marked_def)
      then show "h \<in> refHash ` marked m" by (rule rev_image_eqI) simp
    qed (auto simp: marked_def)
  qed
  with assms show "finite (marked m)" "card (marked m) = card (dom m)"
    using bij_betw_finite bij_betw_same_card by blast+
qed

text \<open>The validator has counted what it has marked, but for \<open>k\<close> objects that it is about to reserve.\<close>

definition tallied :: "nat \<Rightarrow> validator \<Rightarrow> bool" where
  "tallied k v \<longleftrightarrow> finite (dom (vaBlobs v)) \<and> finite (dom (vaTrees v)) \<and> finite (dom (vaDirectories v)) \<and>
     vaObjects v + k = card (dom (vaBlobs v)) + card (dom (vaTrees v)) + card (dom (vaDirectories v)) \<and>
     vaObjects v \<le> maxActionResultObjects"

lemma tallied_collect [simp]: "tallied k (collect ref v) = tallied k v"
  by (simp add: tallied_def)

lemma tallied_marks:
  "tallied k v \<Longrightarrow> vaBlobs v (refHash ref) = None \<Longrightarrow>
     tallied (Suc k) (v\<lparr>vaBlobs := (vaBlobs v)(refHash ref \<mapsto> refSize ref)\<rparr>)"
  "tallied k v \<Longrightarrow> vaTrees v (refHash ref) = None \<Longrightarrow>
     tallied (Suc k) (v\<lparr>vaTrees := (vaTrees v)(refHash ref \<mapsto> refSize ref)\<rparr>)"
  "tallied k v \<Longrightarrow> vaDirectories v (refHash ref) = None \<Longrightarrow>
     tallied (Suc k) (v\<lparr>vaDirectories := (vaDirectories v)(refHash ref \<mapsto> refSize ref)\<rparr>)"
  by (auto simp: tallied_def card_insert_if domIff)

lemma tallied_reserve: "tallied (Suc k) v \<Longrightarrow> reserveObject v = Inr v' \<Longrightarrow> tallied k v'"
  by (auto simp: tallied_def reserveObject_Inr)

text \<open>What a validation of files does to the marks.\<close>

definition noted :: "validator \<Rightarrow> digestReference set" where
  "noted v = {ref. isImplicitEmptyDigest ref} \<union> marked (vaBlobs v)"

definition filesMarked :: "validator \<Rightarrow> validator \<Rightarrow> bool" where
  "filesMarked v v' \<longleftrightarrow> (tallied 0 v \<longrightarrow> tallied 0 v') \<and> vaBlobs v \<subseteq>\<^sub>m vaBlobs v' \<and>
     vaTrees v' = vaTrees v \<and> vaDirectories v' = vaDirectories v"

lemma filesMarked_trans: "filesMarked v v1 \<Longrightarrow> filesMarked v1 v2 \<Longrightarrow> filesMarked v v2"
  by (auto simp: filesMarked_def intro: map_le_trans)

lemma noted_mono: "vaBlobs v \<subseteq>\<^sub>m vaBlobs v' \<Longrightarrow> noted v \<subseteq> noted v'"
  using marked_mono [of "vaBlobs v" "vaBlobs v'"] by (auto simp: noted_def)

lemma validateBlob_marks:
  assumes "validateBlob E ref v s = (Inr v', s')"
  shows "filesMarked v v' \<and> ref \<in> noted v'"
proof (cases "isImplicitEmptyDigest ref \<or> vaBlobs v (refHash ref) \<noteq> None")
  case True
  with assms have "v' = v \<and> (isImplicitEmptyDigest ref \<or> vaBlobs v (refHash ref) = Some (refSize ref))"
    by (auto simp: validateBlob_def run_iffs rememberDigest_Inr)
  then show ?thesis by (auto simp: filesMarked_def noted_def marked_def)
next
  case False
  let ?w = "v\<lparr>vaBlobs := (vaBlobs v)(refHash ref \<mapsto> refSize ref)\<rparr>"
  from assms False obtain w where w: "reserveObject ?w = Inr w" and v': "v' = collect ref w"
    by (auto simp: validateBlob_def run_iffs rememberDigest_Inr Let_def split: sum.splits)
  have "vaBlobs v \<subseteq>\<^sub>m (vaBlobs v)(refHash ref \<mapsto> refSize ref)" using False by (auto simp: map_le_def)
  moreover have "tallied 0 v'" if "tallied 0 v"
    using tallied_reserve [OF tallied_marks(1) [OF that] w] False v' by simp
  moreover have "vaBlobs v' = vaBlobs ?w" "vaTrees v' = vaTrees v" "vaDirectories v' = vaDirectories v"
    using w v' by (auto simp: reserveObject_Inr)
  ultimately show ?thesis by (simp add: filesMarked_def noted_def marked_def)
qed

lemma validateBlobs_marks:
  "forEach (validateBlob E) refs v s = (Inr v', s') \<Longrightarrow> filesMarked v v' \<and> set refs \<subseteq> noted v'"
proof (induction refs arbitrary: v s)
  case Nil
  then show ?case by (simp add: filesMarked_def)
next
  case (Cons ref refs)
  then obtain v1 s1 where first: "validateBlob E ref v s = (Inr v1, s1)"
    and rest: "forEach (validateBlob E) refs v1 s1 = (Inr v', s')" by (auto simp: attempt_Inr_iff)
  note v1 = validateBlob_marks [OF first] and v' = Cons.IH [OF rest]
  moreover have "noted v1 \<subseteq> noted v'" by (rule noted_mono) (use v' in \<open>simp add: filesMarked_def\<close>)
  ultimately show ?case by (auto intro: filesMarked_trans)
qed

lemma loadCAS_tallied: "loadCAS E ref v s = (Inr (ob, v'), s') \<Longrightarrow> tallied (Suc k) v \<Longrightarrow> tallied k v'"
  by (auto simp: loadCAS_def run_iffs intro: tallied_reserve split: sum.splits)

section \<open>Trees and directories\<close>

text \<open>Without a claim on the backend, every backend is an honest one.\<close>

abbreviation anyKey :: "string \<Rightarrow> 'w \<Rightarrow> bool" where
  "anyKey \<equiv> \<lambda>_ _. True"

lemma anyKey_honest: "honestBackend E anyKey"
  by (auto simp: honestBackend_def closedReads_def)

lemma grows_validateBlobs:
  "good s \<Longrightarrow> forEach (validateBlob E) refs v s = (r, s') \<Longrightarrow> grows anyKey s s'"
  by (rule grows_run [OF _ _ anyKey_honest, where m = "forEach (validateBlob E) refs v"])
    ((intro keeps_rules world_rules)?, assumption)+

text \<open>A tree or a directory whose files are marked.\<close>

definition treeMarked :: "protowire \<Rightarrow> validator \<Rightarrow> 'w server \<Rightarrow> digestReference \<Rightarrow> bool" where
  "treeMarked W v s ref \<longleftrightarrow> (\<exists>data blobs. storedData s ref data \<and> parseTree W data = Inr blobs \<and> set blobs \<subseteq> noted v)"

definition directoryMarked :: "protowire \<Rightarrow> validator \<Rightarrow> 'w server \<Rightarrow> digestReference \<Rightarrow> bool" where
  "directoryMarked W v s ref \<longleftrightarrow> (\<exists>d. directoryAt W s ref d \<and> set (pdFiles d) \<subseteq> noted v)"

lemma marked_grows:
  assumes "grows has s s'" and "vaBlobs v \<subseteq>\<^sub>m vaBlobs v'"
  shows "treeMarked W v s ref \<Longrightarrow> treeMarked W v' s' ref" and "directoryMarked W v s ref \<Longrightarrow> directoryMarked W v' s' ref"
  using storedData_grows [OF assms(1)] noted_mono [OF assms(2)]
  unfolding treeMarked_def directoryMarked_def directoryAt_def by (meson order_trans)+

lemma loadCAS_data:
  assumes "good s" and "loadCAS E ref v s = (Inr (ob, v1), s1)" and "readFile E (objPath ob) s1 = (Inr data, s2)"
  shows "grows anyKey s s2 \<and> storedData s2 ref data \<and> v1 = v\<lparr>vaObjects := Suc (vaObjects v)\<rparr>"
proof -
  note s1 = grows_loadCAS [OF anyKey_honest assms(1,2)]
  from loadCAS_loaded [OF anyKey_honest assms(1,2)] obtain content where
    content: "storedData s1 ref content" "files s1 (objPath ob) = Some content" "v1 = v\<lparr>vaObjects := Suc (vaObjects v)\<rparr>"
    by (auto simp: loadedOkay_def)
  from readFile_here [OF anyKey_honest grows_good [OF s1 assms(1)] assms(3)] have "grows anyKey s1 s2" "data = content"
    using content(2) by auto
  with s1 content storedData_grows show ?thesis by (blast intro: grows_trans)
qed

definition treesMarked :: "protowire \<Rightarrow> validator \<Rightarrow> 'w server \<Rightarrow> bool" where
  "treesMarked W v s \<longleftrightarrow> good s \<and> tallied 0 v \<and> vaDirectories v = Map.empty \<and> (\<forall>t \<in> marked (vaTrees v). treeMarked W v s t)"

lemma validateTree_marks:
  assumes inv: "treesMarked (envWire E) v s" and run: "validateTree E ref v s = (Inr v', s')"
  shows "treesMarked (envWire E) v' s' \<and> insert ref (marked (vaTrees v)) \<subseteq> marked (vaTrees v') \<and>
    vaBlobs v \<subseteq>\<^sub>m vaBlobs v'"
proof (cases "vaTrees v (refHash ref)")
  case (Some n)
  with run have "v' = v \<and> s' = s \<and> n = refSize ref" by (auto simp: validateTree_def run_iffs rememberDigest_Inr)
  with inv Some show ?thesis by (simp add: marked_def)
next
  case None
  let ?w = "v\<lparr>vaTrees := (vaTrees v)(refHash ref \<mapsto> refSize ref)\<rparr>"
  have good: "good s" using inv by (simp add: treesMarked_def)
  from None run obtain ob v1 s1 data s2 blobs where load: "loadCAS E ref (collect ref ?w) s = (Inr (ob, v1), s1)"
    and read: "readFile E (objPath ob) s1 = (Inr data, s2)" and parse: "parseTree (envWire E) data = Inr blobs"
    and loop: "forEach (validateBlob E) blobs v1 s2 = (Inr v', s')"
    by (auto simp: validateTree_def run_iffs rememberDigest_Inr)
  from loadCAS_data [OF good load read] have s2: "grows anyKey s s2" "storedData s2 ref data"
    and v1: "vaBlobs v1 = vaBlobs v" "vaTrees v1 = (vaTrees v)(refHash ref \<mapsto> refSize ref)" "vaDirectories v1 = vaDirectories v"
    by auto
  have s': "grows anyKey s2 s'" by (rule grows_validateBlobs [OF grows_good [OF s2(1) good] loop])
  have "tallied 0 v1"
    by (rule loadCAS_tallied [OF load]) (use inv None in \<open>simp add: treesMarked_def tallied_marks(2)\<close>)
  with validateBlobs_marks [OF loop] v1 have v': "tallied 0 v'" "vaBlobs v \<subseteq>\<^sub>m vaBlobs v'" "vaDirectories v' = vaDirectories v"
    "set blobs \<subseteq> noted v'" "marked (vaTrees v') = insert ref (marked (vaTrees v))"
    using None by (simp_all add: filesMarked_def marked_update)
  have grows: "grows anyKey s s'" using s2(1) s' by (rule grows_trans)
  have "treeMarked (envWire E) v' s' ref"
    unfolding treeMarked_def using storedData_grows [OF s' s2(2)] parse v'(4) by blast
  then have "treesMarked (envWire E) v' s'"
    using inv v' marked_grows(1) [OF grows v'(2)] grows_good [OF grows] by (auto simp: treesMarked_def)
  with v' show ?thesis by blast
qed

lemma validateTrees_marks:
  "forEach (validateTree E) ts v s = (Inr v', s') \<Longrightarrow> treesMarked (envWire E) v s \<Longrightarrow>
     treesMarked (envWire E) v' s' \<and> marked (vaTrees v) \<union> set ts \<subseteq> marked (vaTrees v') \<and> vaBlobs v \<subseteq>\<^sub>m vaBlobs v'"
proof (induction ts arbitrary: v s)
  case (Cons t ts)
  then obtain v1 s1 where first: "validateTree E t v s = (Inr v1, s1)"
    and rest: "forEach (validateTree E) ts v1 s1 = (Inr v', s')" by (auto simp: attempt_Inr_iff)
  from validateTree_marks [OF Cons.prems(2) first] Cons.IH [OF rest] show ?case
    by (auto intro: map_le_trans)
qed simp

definition directoriesMarked :: "protowire \<Rightarrow> validator \<Rightarrow> 'w server \<Rightarrow> bool" where
  "directoriesMarked W v s \<longleftrightarrow> good s \<and> tallied 0 v \<and> (\<forall>r \<in> marked (vaDirectories v). directoryMarked W v s r)"

lemma validateDirectory_marks:
  assumes inv: "directoriesMarked (envWire E) v s" and new: "vaDirectories v (refHash ref) = None"
    and run: "validateDirectory E ref (v\<lparr>vaDirectories := (vaDirectories v)(refHash ref \<mapsto> refSize ref)\<rparr>) s =
      (Inr (children, v'), s')"
  shows "directoriesMarked (envWire E) v' s' \<and> vaBlobs v \<subseteq>\<^sub>m vaBlobs v' \<and> vaTrees v' = vaTrees v \<and> grows anyKey s s'"
proof -
  let ?w = "v\<lparr>vaDirectories := (vaDirectories v)(refHash ref \<mapsto> refSize ref)\<rparr>"
  have good: "good s" using inv by (simp add: directoriesMarked_def)
  from run obtain ob v1 s1 data s2 d where load: "loadCAS E ref (collect ref ?w) s = (Inr (ob, v1), s1)"
    and read: "readFile E (objPath ob) s1 = (Inr data, s2)" and parse: "parseDirectory (envWire E) data = Inr d"
    and loop: "forEach (validateBlob E) (pdFiles d) v1 s2 = (Inr v', s')"
    by (auto simp: validateDirectory_def run_iffs)
  from loadCAS_data [OF good load read] have s2: "grows anyKey s s2" "storedData s2 ref data"
    and v1: "vaBlobs v1 = vaBlobs v" "vaTrees v1 = vaTrees v" "vaDirectories v1 = vaDirectories ?w"
    by auto
  have s': "grows anyKey s2 s'" by (rule grows_validateBlobs [OF grows_good [OF s2(1) good] loop])
  have "tallied 0 v1"
    by (rule loadCAS_tallied [OF load]) (use inv new in \<open>simp add: directoriesMarked_def tallied_marks(3)\<close>)
  with validateBlobs_marks [OF loop] v1 have v': "tallied 0 v'" "vaBlobs v \<subseteq>\<^sub>m vaBlobs v'" "vaTrees v' = vaTrees v"
    "set (pdFiles d) \<subseteq> noted v'" "marked (vaDirectories v') = insert ref (marked (vaDirectories v))"
    using new by (simp_all add: filesMarked_def marked_update)
  have grows: "grows anyKey s s'" using s2(1) s' by (rule grows_trans)
  have "directoryMarked (envWire E) v' s' ref"
    unfolding directoryMarked_def directoryAt_def using storedData_grows [OF s' s2(2)] parse v'(4) by blast
  then show ?thesis
    using inv v' grows marked_grows(2) [OF grows v'(2)] grows_good [OF grows] by (auto simp: directoriesMarked_def)
qed

lemma validateDirectories_marks:
  assumes "directoriesMarked (envWire E) v s" and "validateDirectories E queue v s = (Inr v', s')"
  shows "directoriesMarked (envWire E) v' s' \<and> vaBlobs v \<subseteq>\<^sub>m vaBlobs v' \<and> vaTrees v' = vaTrees v \<and> grows anyKey s s'"
  using assms
proof (induction E queue v s rule: validateDirectories.induct)
  case (1 E v s)
  then show ?case by (simp add: directoriesMarked_def grows_refl)
next
  case (2 E ref queue v s)
  show ?case
  proof (cases "vaDirectories v (refHash ref)")
    case (Some n)
    with 2(4) have "rememberDigest (vaDirectories v) ref = Inr (True, vaDirectories v)"
      by (auto simp: rememberDigest_def split: if_splits)
    from 2(1) [OF this refl TrueI 2(3)] this 2(4) show ?thesis by simp
  next
    case None
    let ?m = "(vaDirectories v)(refHash ref \<mapsto> refSize ref)"
    have remembered: "rememberDigest (vaDirectories v) ref = Inr (False, ?m)"
      using None by (simp add: rememberDigest_def)
    with 2(4) obtain children v1 s1 where step: "validateDirectory E ref (v\<lparr>vaDirectories := ?m\<rparr>) s = (Inr (children, v1), s1)"
      and rest: "validateDirectories E (queue @ children) v1 s1 = (Inr v', s')"
      by (auto split: prod.splits sum.splits)
    note v1 = validateDirectory_marks [OF 2(3) None step]
    then have "directoriesMarked (envWire E) v1 s1" by blast
    from 2(2) [OF remembered refl _ step [symmetric] refl refl this rest] v1 show ?thesis
      by (auto intro: map_le_trans grows_trans)
  qed
qed

section \<open>The size of a closure\<close>

text \<open>
  What a validation looks at: the directories that can be reached from the root directories, and the blobs that are
  named by the action result, its trees and these directories. The empty blob needs no lookup.
\<close>

definition closureDirectories :: "protowire \<Rightarrow> 'w server \<Rightarrow> actionResultReferences \<Rightarrow> digestReference set" where
  "closureDirectories W s refs = {r. reachable W s (set (dcValues (arDirectories refs))) r}"

definition closureBlobs :: "protowire \<Rightarrow> 'w server \<Rightarrow> actionResultReferences \<Rightarrow> digestReference set" where
  "closureBlobs W s refs = {b. \<not> isImplicitEmptyDigest b \<and> (b \<in> set (dcValues (arBlobs refs)) \<or>
     (\<exists>t \<in> set (dcValues (arTrees refs)). \<exists>data blobs. storedData s t data \<and> parseTree W data = Inr blobs \<and> b \<in> set blobs) \<or>
     (\<exists>r \<in> closureDirectories W s refs. \<exists>d. directoryAt W s r d \<and> b \<in> set (pdFiles d)))}"

lemma closureBlobs_noted:
  assumes "set (dcValues (arBlobs refs)) \<subseteq> noted v" and "\<And>t. t \<in> set (dcValues (arTrees refs)) \<Longrightarrow> treeMarked W v s t"
    and "\<And>r. r \<in> closureDirectories W s refs \<Longrightarrow> directoryMarked W v s r"
  shows "closureBlobs W s refs \<subseteq> noted v"
proof
  fix b assume "b \<in> closureBlobs W s refs"
  then consider "b \<in> set (dcValues (arBlobs refs))"
    | t data blobs where "t \<in> set (dcValues (arTrees refs))" "storedData s t data" "parseTree W data = Inr blobs" "b \<in> set blobs"
    | r d where "r \<in> closureDirectories W s refs" "directoryAt W s r d" "b \<in> set (pdFiles d)"
    unfolding closureBlobs_def by blast
  then show "b \<in> noted v"
  proof cases
    case 1
    with assms(1) show ?thesis by blast
  next
    case 2
    from assms(2) [OF 2(1)] obtain data' blobs' where "storedData s t data'" "parseTree W data' = Inr blobs'" "set blobs' \<subseteq> noted v"
      unfolding treeMarked_def by blast
    with 2 storedData_functional show ?thesis by fastforce
  next
    case 3
    from assms(3) [OF 3(1)] obtain d' where "directoryAt W s r d'" "set (pdFiles d') \<subseteq> noted v"
      unfolding directoryMarked_def by blast
    with 3 directoryAt_functional show ?thesis by blast
  qed
qed

lemma validation_marks:
  assumes good: "good s" and run: "validateActionResultClosure E ob persisted collectClosure s = (Inr closure, s')"
    and "files s (objPath ob) = Some data" and "parseActionResult (envWire E) data = Inr refs"
  shows "\<exists>v. tallied 0 v \<and> closureBlobs (envWire E) s' refs \<subseteq> marked (vaBlobs v) \<and>
    set (dcValues (arTrees refs)) \<subseteq> marked (vaTrees v) \<and> closureDirectories (envWire E) s' refs \<subseteq> marked (vaDirectories v)"
proof (rule validation_parts [OF anyKey_honest good run])
  let ?W = "envWire E"
  fix data' refs' s0 v1 s1 v2 s2 v3
  assume "files s (objPath ob) = Some data'" "parseActionResult ?W data' = Inr refs'"
  with assms(3,4) have same: "refs' = refs" by simp
  assume blobs: "forEach (validateBlob E) (dcValues (arBlobs refs')) (newValidator persisted collectClosure) s0 = (Inr v1, s1)"
    and trees: "forEach (validateTree E) (dcValues (arTrees refs')) v1 s1 = (Inr v2, s2)"
    and dirs: "validateDirectories E (dcValues (arDirectories refs')) v2 s2 = (Inr v3, s')"
    and s1: "grows anyKey s s1" and inv: "directoriesInv ?W anyKey persisted {} v3 s'"
    and roots: "set (dcValues (arDirectories refs')) \<subseteq> visited v3"
  note roots = roots [unfolded same]
  from validateBlobs_marks [OF blobs] have v1: "tallied 0 v1" "vaTrees v1 = Map.empty" "vaDirectories v1 = Map.empty"
    "set (dcValues (arBlobs refs)) \<subseteq> noted v1"
    by (simp_all add: filesMarked_def newValidator_def tallied_def same)
  then have "treesMarked ?W v1 s1" using grows_good [OF s1 good] by (simp add: treesMarked_def marked_def)
  from validateTrees_marks [OF trees this] have v2: "treesMarked ?W v2 s2" "vaBlobs v1 \<subseteq>\<^sub>m vaBlobs v2"
    "set (dcValues (arTrees refs)) \<subseteq> marked (vaTrees v2)" by (auto simp: same)
  then have "directoriesMarked ?W v2 s2" by (simp add: treesMarked_def directoriesMarked_def marked_def)
  from validateDirectories_marks [OF this dirs] have v3: "directoriesMarked ?W v3 s'" "vaBlobs v2 \<subseteq>\<^sub>m vaBlobs v3"
    "vaTrees v3 = vaTrees v2" "grows anyKey s2 s'" by auto
  have "visited v3 = marked (vaDirectories v3)" by (simp add: visited_def marked_def)
  then have reached: "closureDirectories ?W s' refs \<subseteq> marked (vaDirectories v3)"
    using reachable_visited [OF inv roots] by (auto simp: closureDirectories_def)
  have "noted v1 \<subseteq> noted v3" by (rule noted_mono) (use v2(2) v3(2) in \<open>rule map_le_trans\<close>)
  moreover have "treeMarked ?W v3 s' t" if "t \<in> set (dcValues (arTrees refs))" for t
    using that v2(1,3) marked_grows(1) [OF v3(4,2)] by (auto simp: treesMarked_def)
  moreover have "directoryMarked ?W v3 s' r" if "r \<in> closureDirectories ?W s' refs" for r
    using that reached v3(1) by (auto simp: directoriesMarked_def)
  ultimately have "closureBlobs ?W s' refs \<subseteq> noted v3"
    using v1(4) by (intro closureBlobs_noted) blast+
  then have "closureBlobs ?W s' refs \<subseteq> marked (vaBlobs v3)" by (auto simp: closureBlobs_def noted_def)
  then show ?thesis
    using v2(3) v3(1,3) reached by (intro exI [of _ v3]) (simp add: directoriesMarked_def)
qed

text \<open>
  C4. A validation returns, and its amount is bounded (\<open>validateActionResultClosure\<close>, \<open>reserveObject\<close>): on every
  input and every behaviour of the backend its result is a closure or an error value, it neither panics nor
  loops, even when directories refer to each other without end; and it accepts at most 100000 objects: when it
  returns a closure, the distinct blobs, trees and directories of the action result, with the
  directories at any depth and all their files, are together at most 100000.
\<close>

theorem validateActionResultClosure_returns:
  assumes "protowire_laws (envWire E)"
  shows "\<not> crashed (fst (validateActionResultClosure E ob persisted collectClosure s)) \<and>
    (\<forall>closure s' data refs. serverInv s \<and> 0 \<le> cfgMaxBlobSize (cfg s) \<and>
       validateActionResultClosure E ob persisted collectClosure s = (Inr closure, s') \<and>
       files s (objPath ob) = Some data \<and> parseActionResult (envWire E) data = Inr refs \<longrightarrow>
       finite (closureBlobs (envWire E) s' refs) \<and> finite (closureDirectories (envWire E) s' refs) \<and>
       card (closureBlobs (envWire E) s' refs) + card (set (dcValues (arTrees refs))) +
         card (closureDirectories (envWire E) s' refs) \<le> 100000)"
proof (rule conjI [OF validation_calm [OF assms]], intro allI impI)
  fix closure s' data refs
  assume run: "serverInv s \<and> 0 \<le> cfgMaxBlobSize (cfg s) \<and>
    validateActionResultClosure E ob persisted collectClosure s = (Inr closure, s') \<and>
    files s (objPath ob) = Some data \<and> parseActionResult (envWire E) data = Inr refs"
  let ?B = "closureBlobs (envWire E) s' refs" and ?T = "set (dcValues (arTrees refs))"
    and ?D = "closureDirectories (envWire E) s' refs"
  from run have "good s" by (simp add: good_def)
  with validation_marks run obtain v where v: "tallied 0 v" and sub: "?B \<subseteq> marked (vaBlobs v)"
    "?T \<subseteq> marked (vaTrees v)" "?D \<subseteq> marked (vaDirectories v)" by blast
  have fin: "finite (dom (vaBlobs v))" "finite (dom (vaTrees v))" "finite (dom (vaDirectories v))"
    and count: "card (dom (vaBlobs v)) + card (dom (vaTrees v)) + card (dom (vaDirectories v)) \<le> 100000"
    using v by (auto simp: tallied_def maxActionResultObjects_def)
  have "card ?B \<le> card (dom (vaBlobs v))" "card ?T \<le> card (dom (vaTrees v))" "card ?D \<le> card (dom (vaDirectories v))"
    "finite ?B" "finite ?D"
    using card_mono [OF card_marked(1) sub(1)] card_mono [OF card_marked(1) sub(2)] card_mono [OF card_marked(1) sub(3)]
      finite_subset [OF sub(1)] finite_subset [OF sub(3)] fin card_marked by metis+
  with count show "finite ?B \<and> finite ?D \<and> card ?B + card ?T + card ?D \<le> 100000" by linarith
qed

end
