(* ===== verification/Examples.thy ===== *)
theory Examples
  imports ClosureBound
begin

text \<open>
  Concrete instances: a protobuf decoder for varint, fixed and length-delimited fields, an IPLD library
  over byte strings, a backend and a server, and for each property with hypotheses an instance at which
  they hold.
\<close>

section \<open>A protobuf decoder\<close>

text \<open>Base-128 varints of at most ten bytes, as \<open>protowire.ConsumeVarint\<close> reads them.\<close>

fun varintFrom :: "nat \<Rightarrow> nat \<Rightarrow> bytes \<Rightarrow> nat \<times> int" where
  "varintFrom k n [] = (0, -1)"
| "varintFrom k n (b # bs) =
     (if k = 10 then (0, -3)
      else if unat b < 128 then (n + unat b * 128 ^ k, int (Suc k))
      else varintFrom (Suc k) (n + (unat b - 128) * 128 ^ k) bs)"

definition exampleVarint :: "bytes \<Rightarrow> 64 word \<times> int" where
  "exampleVarint data = (case varintFrom 0 0 data of (v, n) \<Rightarrow> (of_nat v, n))"

definition exampleTag :: "bytes \<Rightarrow> int \<times> int \<times> int" where
  "exampleTag data = (case varintFrom 0 0 data of (v, n) \<Rightarrow>
     if n < 0 then (0, 0, n) else (int v div 8, int v mod 8, n))"

definition exampleBytes :: "bytes \<Rightarrow> bytes \<times> int" where
  "exampleBytes data = (case varintFrom 0 0 data of (v, n) \<Rightarrow>
     if n < 0 then ([], n)
     else if length data < nat n + v then ([], -1)
     else (take v (drop (nat n) data), n + int v))"

definition exampleFieldValue :: "int \<Rightarrow> int \<Rightarrow> bytes \<Rightarrow> int" where
  "exampleFieldValue num wt data =
     (if wt = 1 then (if length data < 8 then -1 else 8)
      else if wt = 5 then (if length data < 4 then -1 else 4)
      else -4)"

definition exampleWire :: protowire where
  "exampleWire = \<lparr>ConsumeTag = exampleTag, ConsumeBytes = exampleBytes, ConsumeVarint = exampleVarint,
     ConsumeFieldValue = exampleFieldValue, ParseError = (\<lambda>_. ''parse error'')\<rparr>"

lemma varintFrom_bounds:
  "varintFrom k v data = (r, n) \<Longrightarrow> n \<noteq> 0 \<and> n \<le> int (k + length data)"
  by (induction k v data rule: varintFrom.induct) (auto split: if_splits)

lemma exampleWire_laws: "protowire_laws exampleWire"
  using varintFrom_bounds [of 0 0]
  by (auto simp: protowire_laws_def exampleWire_def exampleTag_def exampleBytes_def exampleVarint_def
      exampleFieldValue_def consumedOk_def split: prod.splits if_splits; fastforce)

section \<open>Messages\<close>

text \<open>A field with a short length-delimited value, and a digest message with a small size.\<close>

definition bytesField :: "nat \<Rightarrow> bytes \<Rightarrow> bytes" where
  "bytesField num data = [of_nat (num * 8 + 2), of_nat (length data)] @ data"

definition digestMessage :: "string \<Rightarrow> nat \<Rightarrow> bytes" where
  "digestMessage hash n = bytesField 1 (bytesOfString hash) @ [16, of_nat n]"

definition exampleHash :: string where
  "exampleHash = replicate 64 (CHR ''a'')"

text \<open>An action result with one output file, and a tree whose root has one file.\<close>

definition exampleActionResult :: bytes where
  "exampleActionResult = bytesField 2 (bytesField 2 (digestMessage exampleHash 5))"

definition exampleTree :: bytes where
  "exampleTree = bytesField 1 (bytesField 1 (bytesField 2 (digestMessage exampleHash 5)))"

definition exampleReference :: digestReference where
  "exampleReference = \<lparr>refHash = exampleHash, refSize = 5\<rparr>"

lemma exampleActionResult_parses:
  "(case parseActionResult exampleWire exampleActionResult of Inl e \<Rightarrow> False
    | Inr refs \<Rightarrow> dcValues (arBlobs refs) = [exampleReference] \<and> dcValues (arTrees refs) = [] \<and>
        dcValues (arDirectories refs) = [])"
  by code_simp

lemma exampleTree_parses: "parseTree exampleWire exampleTree = Inr [exampleReference]"
  by code_simp

theorem parseActionResult_references_witness:
  "\<exists>refs. parseActionResult exampleWire exampleActionResult = Inr refs \<and> referencesInv refs \<and>
     set (dcValues (arBlobs refs)) = {exampleReference} \<and>
     outputTrees exampleWire (fst (wireFields exampleWire exampleActionResult)) = {}"
proof -
  obtain refs where refs: "parseActionResult exampleWire exampleActionResult = Inr refs"
    and sets: "dcValues (arBlobs refs) = [exampleReference]" "dcValues (arTrees refs) = []"
    using exampleActionResult_parses by (cases "parseActionResult exampleWire exampleActionResult") auto
  from parseActionResult_references [OF refs refl] sets refs show ?thesis by auto
qed

theorem parseTree_closed_witness:
  "{exampleReference} = {r. \<exists>f \<in> set (fst (wireFields exampleWire exampleTree)). treeMember f \<and>
     (\<exists>d. parseDirectory exampleWire (bytesValue f) = Inr d \<and> r \<in> set (pdFiles d))}"
  using parseTree_closed [OF exampleTree_parses refl] by simp

section \<open>An IPLD library\<close>

text \<open>
  CIDs are byte strings; the DAG-CBOR codec knows the nodes of a table, by position; an archive is the
  sequence of its sections, each a CID and a block with their lengths.
\<close>

fun exampleIndex :: "nat \<Rightarrow> node \<Rightarrow> node list \<Rightarrow> string + bytes" where
  "exampleIndex i n [] = Inl ''unknown node''"
| "exampleIndex i n (m # ms) = (if n = m then Inr [of_nat i] else exampleIndex (Suc i) n ms)"

fun exampleSections :: "nat \<Rightarrow> bytes \<Rightarrow> (bytes \<times> bytes) list" where
  "exampleSections 0 data = []"
| "exampleSections (Suc k) [] = []"
| "exampleSections (Suc k) (n # rest) =
     (case drop (unat n) rest of [] \<Rightarrow> []
      | l # rest' \<Rightarrow> (take (unat n) rest, take (unat l) rest') # exampleSections k (drop (unat l) rest'))"

definition exampleIpld :: "node list \<Rightarrow> bytes ipld" where
  "exampleIpld nodes = \<lparr>
     multihashEncode = Inr, newCidV1Raw = (\<lambda>hash. hash), cidString = stringOfBytes,
     cidDecode = (\<lambda>s. if s = [] then Inl ''empty CID'' else Inr (bytesOfString s)),
     dagCBORSum = (\<lambda>data. Inr (1 # data)),
     dagcborEncode = (\<lambda>n. exampleIndex 0 n nodes),
     dagcborDecode = (\<lambda>data. case data of [b] \<Rightarrow>
         if unat b < length nodes then Inr (cborOrder (nodes ! unat b)) else Inl ''unknown node''
       | _ \<Rightarrow> Inl ''unexpected EOF''),
     carWrite = (\<lambda>roots blocks.
       Inr (concat (map (\<lambda>(c, d). [of_nat (length c)] @ c @ [of_nat (length d)] @ d) blocks))),
     carGet = (\<lambda>archive n c. case map_of (exampleSections (length archive) archive) c of
         None \<Rightarrow> Inl ''block not found''
       | Some d \<Rightarrow> if n < int (length d) then Inl ''section too large'' else Inr d)\<rparr>"

lemma exampleIndex_Inr:
  "exampleIndex i n nodes = Inr data \<Longrightarrow> i + length nodes \<le> 256 \<Longrightarrow>
     \<exists>b. data = [b] \<and> i \<le> unat b \<and> unat b < i + length nodes \<and> nodes ! (unat b - i) = n"
proof (induction i n nodes rule: exampleIndex.induct)
  case (2 i n m ms)
  show ?case
  proof (cases "n = m")
    case True
    have "unat (of_nat i :: byte) = i" using 2(3) by (simp add: unat_of_nat)
    with True 2(2) show ?thesis by auto
  next
    case False
    with 2 obtain b where "data = [b]" "Suc i \<le> unat b" "unat b < Suc i + length ms" "ms ! (unat b - Suc i) = n"
      by auto
    then show ?thesis by (auto simp: nth_Cons' Suc_diff_le)
  qed
qed simp

lemma exampleIpld_laws: "length nodes \<le> 256 \<Longrightarrow> dagcbor_laws (exampleIpld nodes)"
  using exampleIndex_Inr [of 0 _ nodes] by (fastforce simp: dagcbor_laws_def exampleIpld_def)

section \<open>A manifest\<close>

definition examplePackID :: string where
  "examplePackID = replicate 64 (CHR ''b'')"

definition exampleCID :: string where
  "exampleCID = stringOfBytes (replicate 32 170)"

definition exampleManifest :: manifest where
  "exampleManifest = \<lparr>mfVersion = 1, mfParents = [''p''],
     mfPacks = [\<lparr>pkID = examplePackID, pkKey = packKeyFor ''repo'' examplePackID, pkSize = 40\<rparr>],
     mfCAS = [\<lparr>moDigest = exampleHash, moCID = exampleCID, moPackID = examplePackID, moSize = 5\<rparr>],
     mfActions = [\<lparr>maDigest = exampleHash, maCID = exampleCID, maPackID = examplePackID, maSize = 7,
       maClosurePacks = [examplePackID]\<rparr>]\<rparr>"

definition manifestLibrary :: "manifest \<Rightarrow> bytes ipld" where
  "manifestLibrary m = exampleIpld (case manifestToNode m of Inl _ \<Rightarrow> [] | Inr n \<Rightarrow> [n])"

lemma manifestLibrary_laws: "dagcbor_laws (manifestLibrary m)"
  unfolding manifestLibrary_def by (rule exampleIpld_laws) (simp split: sum.split)

lemma exampleHash_decodes: "hex_DecodeString exampleHash = Inr (replicate 32 170)"
  by code_simp

lemma example_digests: "digestPattern exampleHash" "digestPattern examplePackID"
  by code_simp+

lemma exampleCID_valid: "validRawCID (exampleIpld nodes) exampleCID exampleHash"
  by (simp add: validRawCID_def rawCIDForDigest_def example_digests exampleHash_decodes exampleIpld_def
      exampleCID_def)

lemma validCID_example: "validCID (exampleIpld nodes) s \<longleftrightarrow> s \<noteq> []"
  by (simp add: validCID_def exampleIpld_def)

lemma examplePack_key:
  "stringsHasSuffix (packKeyFor ''repo'' examplePackID) (''-car-pack-v1-'' @ examplePackID)"
  by code_simp

lemma examplePack_ok:
  "packOk \<lparr>pkID = examplePackID, pkKey = packKeyFor ''repo'' examplePackID, pkSize = 40\<rparr>"
  using examplePack_key by (simp add: packOk_def stringsHasSuffix_iff example_digests)

lemma exampleManifest_valid: "validManifest (manifestLibrary exampleManifest) exampleManifest"
  unfolding manifestLibrary_def exampleManifest_def
  by (simp add: validManifest_def examplePack_ok objectOk_def actionOk_def closurePackOk_def example_digests
      exampleCID_valid validCID_example) (simp add: exampleCID_def stringOfBytes_def)

lemma exampleManifest_encoded:
  "encodeManifest (manifestLibrary exampleManifest) exampleManifest = Inr ([0], stringOfBytes [1, 0])"
proof -
  obtain n where n: "manifestToNode exampleManifest = Inr n"
    by (simp add: manifestToNode_def exampleManifest_def manifestFormatVersion_def)
  then show ?thesis
    by (simp add: encodeManifest_def manifestLibrary_def exampleIpld_def dagCBORCID_def)
qed

theorem decodeManifest_encodeManifest_witness:
  "decodeManifest (manifestLibrary exampleManifest) [0] (stringOfBytes [1, 0])
     = Inr (canonicalManifest exampleManifest)"
  by (rule decodeManifest_encodeManifest [OF manifestLibrary_laws exampleManifest_valid _ exampleManifest_encoded])
    code_simp

lemma encodeManifest_deterministic_witness:
  "encodeManifest (manifestLibrary exampleManifest) (canonicalManifest exampleManifest)
     = encodeManifest (manifestLibrary exampleManifest) exampleManifest"
  by (rule encodeManifest_deterministic) (simp add: exampleManifest_def manifestFormatVersion_def)

section \<open>A server\<close>

text \<open>A backend with fixed contents, and no faults.\<close>

definition exampleEnv :: "(string \<rightharpoonup> bytes) \<Rightarrow> node list \<Rightarrow> (unit, bytes) env" where
  "exampleEnv entries nodes = \<lparr>
     envFault = (\<lambda>_ w. (None, w)), envNow = (\<lambda>w. (0, w)),
     envExists = (\<lambda>key w. (Inr (entries key \<noteq> None), w)),
     envLoad = (\<lambda>key w. (case entries key of None \<Rightarrow> ([], Inr False) | Some data \<Rightarrow> ([data], Inr True), w)),
     envSave = (\<lambda>_ _ w. (None, w)), envList = (\<lambda>_ _ w. (Inr [], w)),
     envWire = exampleWire, envIpld = exampleIpld nodes\<rparr>"

definition exampleConfig :: config where
  "exampleConfig = \<lparr>cfgBackend = True, cfgCatalog = False, cfgCacheDir = ''cache'', cfgKeyPrefix = ''repo'',
     cfgStorageMode = ''objects'', cfgPackSize = 0, cfgPackFlushInterval = 0, cfgMaxManifests = 0,
     cfgWriteEnabled = True, cfgFailOpen = True, cfgMaxBlobSize = 1000, cfgMaxConcurrent = 4,
     cfgUploadsPerMinute = 100, cfgBackendTimeout = 1, cfgShutdownToken = [], cfgShutdown = False\<rparr>"

definition exampleServer :: "(nat \<rightharpoonup> bytes) \<Rightarrow> nat \<Rightarrow> unit server" where
  "exampleServer fs n = \<lparr>cfg = exampleConfig, stats = counters0, objects = Map.empty, published = {},
     limiter = newIntervalLimiter 100, packs = None, files = fs, nextFile = n, world = ()\<rparr>"

lemma exampleServer_inv: "(\<And>p data. fs p = Some data \<Longrightarrow> p < n) \<Longrightarrow> serverInv (exampleServer fs n)"
  by (simp add: serverInv_def exampleServer_def thePacks_def emptyPackStore_def)

lemma exampleServer_size: "0 \<le> cfgMaxBlobSize (cfg (exampleServer fs n))"
  by (simp add: exampleServer_def exampleConfig_def)

text \<open>The backend holds one CAS object, under the digest of its content.\<close>

definition exampleDigest :: string where
  "exampleDigest = sha256_hex [1, 2, 3]"

definition oneObject :: "(unit, bytes) env" where
  "oneObject = exampleEnv [casKey ''repo'' exampleDigest \<mapsto> [1, 2, 3]] []"

lemmas example_defs = oneObject_def exampleEnv_def exampleServer_def exampleConfig_def

lemma oneObject_resolves:
  obtains s' where "server_resolve oneObject (casKey (cfgKeyPrefix (cfg (exampleServer Map.empty 0))) exampleDigest)
      ''cas'' exampleDigest (exampleServer Map.empty 0) = (Inr (Some \<lparr>objPath = 0, objSize = 3\<rparr>), s')"
    "fileContent s' 0 = [1, 2, 3]"
  by (simp add: example_defs server_resolve_def acquire_def fault_def attempt_def andThen_def createTemp_def
      createFile_def removeUnlessKept_def downloadObject_def backendLoadInto_def maxWriter_Write_def
      writeFile_def appendFile_def fileContent_def count_def statSize_def hashFile_def enterObject_def
      exampleDigest_def)

theorem server_resolve_cas_integrity_witness:
  "sha256_hex [1, 2, 3] = exampleDigest \<and> (3::int) = int (length [1, 2, 3::byte])"
proof -
  obtain s' where run: "server_resolve oneObject (casKey (cfgKeyPrefix (cfg (exampleServer Map.empty 0))) exampleDigest)
      ''cas'' exampleDigest (exampleServer Map.empty 0) = (Inr (Some \<lparr>objPath = 0, objSize = 3\<rparr>), s')"
    and content: "fileContent s' 0 = [1, 2, 3]" by (rule oneObject_resolves)
  have "serverInv (exampleServer Map.empty 0)" by (rule exampleServer_inv) simp
  from server_resolve_cas_integrity [OF this exampleServer_size run] content show ?thesis by simp
qed

text \<open>A server that has an action result locally, in the file 0, while it resolves the CAS object.\<close>

definition withAction :: "unit server" where
  "withAction = (exampleServer [0 \<mapsto> exampleActionResult] 1)
     \<lparr>objects := [objectKey ''repo'' ''ac'' exampleHash \<mapsto>
        \<lparr>objPath = 0, objSize = int (length exampleActionResult)\<rparr>]\<rparr>"

lemma withAction_inv: "serverInv withAction"
  by (simp add: serverInv_def withAction_def exampleServer_def exampleConfig_def thePacks_def
      emptyPackStore_def storedOk_def) (simp add: objectKey_def casKey_def)

section \<open>A validation\<close>

text \<open>The backend has the one output file that the action result refers to.\<close>

definition hasOutput :: "(unit, bytes) env" where
  "hasOutput = exampleEnv [casKey ''repo'' exampleHash \<mapsto> [0]] []"

lemma hasOutput_honest: "honestBackend hasOutput (\<lambda>key _. key = casKey ''repo'' exampleHash)"
  by (auto simp: honestBackend_def closedReads_def hasOutput_def exampleEnv_def split: if_splits)

lemma exampleReference_not_empty: "\<not> isImplicitEmptyDigest exampleReference"
  by code_simp

lemma hasOutput_validates:
  obtains closure s' where "validateActionResultClosure hasOutput \<lparr>objPath = 0, objSize = 74\<rparr> True True
    (exampleServer [0 \<mapsto> exampleActionResult] 1) = (Inr closure, s')"
proof -
  obtain refs where refs: "parseActionResult exampleWire exampleActionResult = Inr refs"
    and sets: "dcValues (arBlobs refs) = [exampleReference]" "dcValues (arTrees refs) = []"
      "dcValues (arDirectories refs) = []"
    using exampleActionResult_parses by (cases "parseActionResult exampleWire exampleActionResult") auto
  have "fst (validateActionResultClosure hasOutput \<lparr>objPath = 0, objSize = 74\<rparr> True True
    (exampleServer [0 \<mapsto> exampleActionResult] 1)) = Inr [exampleReference]"
    using exampleReference_not_empty
    by (simp add: validateActionResultClosure_def readFile_def fault_def hasOutput_def example_defs refs sets
        attempt_def andThen_def validateBlob_def rememberDigest_def newValidator_def reserveObject_def
        maxActionResultObjects_def casExists_def collect_def backendExists_def acquire_def count_def
        validateDirectoryClosure_def sortDigestReferences_def uniqueReference_def exampleReference_def)
  then show thesis using that by (metis prod.collapse)
qed

theorem validateActionResultClosure_complete_witness:
  "\<exists>s' :: unit server. closureComplete exampleWire (\<lambda>key _. key = casKey ''repo'' exampleHash) True s' exampleActionResult"
proof -
  obtain closure s' where run: "validateActionResultClosure hasOutput \<lparr>objPath = 0, objSize = 74\<rparr> True True
    (exampleServer [0 \<mapsto> exampleActionResult] 1) = (Inr closure, s')" by (rule hasOutput_validates)
  have "serverInv (exampleServer [0 \<mapsto> exampleActionResult] 1)"
    by (rule exampleServer_inv) (simp split: if_splits)
  from validateActionResultClosure_complete [OF hasOutput_honest this exampleServer_size run]
  show ?thesis by (auto simp: exampleServer_def hasOutput_def exampleEnv_def)
qed

theorem validateActionResultClosure_returns_witness:
  "\<exists>closure s' refs. validateActionResultClosure hasOutput \<lparr>objPath = 0, objSize = 74\<rparr> True True
      (exampleServer [0 \<mapsto> exampleActionResult] 1) = (Inr closure, s') \<and>
    parseActionResult exampleWire exampleActionResult = Inr refs \<and>
    card (closureBlobs exampleWire s' refs) + card (set (dcValues (arTrees refs))) +
      card (closureDirectories exampleWire s' refs) \<le> 100000"
proof -
  let ?s = "exampleServer [0 \<mapsto> exampleActionResult] 1"
  have wire: "envWire hasOutput = exampleWire" by (simp add: hasOutput_def exampleEnv_def)
  then have laws: "protowire_laws (envWire hasOutput)" by (simp add: exampleWire_laws)
  obtain closure s' where run: "validateActionResultClosure hasOutput \<lparr>objPath = 0, objSize = 74\<rparr> True True ?s = (Inr closure, s')"
    by (rule hasOutput_validates)
  obtain refs where refs: "parseActionResult exampleWire exampleActionResult = Inr refs"
    using exampleActionResult_parses by (cases "parseActionResult exampleWire exampleActionResult") auto
  have inv: "serverInv ?s" by (rule exampleServer_inv) (simp split: if_splits)
  have data: "files ?s (objPath \<lparr>objPath = 0, objSize = 74\<rparr>) = Some exampleActionResult" by (simp add: exampleServer_def)
  from validateActionResultClosure_returns [OF laws, of "\<lparr>objPath = 0, objSize = 74\<rparr>" True True ?s, unfolded wire]
    inv exampleServer_size run data refs show ?thesis by blast
qed

end
