(* ===== verification/PackStage.thy ===== *)
theory PackStage
  imports Validation
begin

text \<open>
  Staging and selection in the packed store (\<open>stageCAS\<close>, \<open>stageAction\<close>, \<open>requestFlushLocked\<close>,
  \<open>selectCASLocked\<close>, \<open>selectActionsLocked\<close>, \<open>removePendingLocked\<close>, \<open>filterPending\<close>, \<open>applyManifestLocked\<close>,
  \<open>sortedStringsFromSet\<close> of \<open>pack_store.go\<close>): pure functions on the fields of \<open>packStore\<close>.
\<close>

section \<open>Staging\<close>

definition requestFlushLocked :: "int \<Rightarrow> packStore \<Rightarrow> packStore" where
  "requestFlushLocked targetSize p =
     (if psPendingBytes p < targetSize then p else p\<lparr>psFlushRequested := True\<rparr>)"

definition stageCASLocked :: "int \<Rightarrow> string \<Rightarrow> object \<Rightarrow> packStore \<Rightarrow> packStore" where
  "stageCASLocked targetSize digest value p =
     (if psPendingCAS p digest \<noteq> None then p
      else if psCAS p digest \<noteq> None then p
      else requestFlushLocked targetSize (p\<lparr>
        psPendingCAS := (psPendingCAS p)(digest \<mapsto> value),
        psPendingCASOrder := psPendingCASOrder p @ [digest],
        psPendingBytes := psPendingBytes p + objSize value\<rparr>))"

definition stageCAS :: "string \<Rightarrow> object \<Rightarrow> 'w server \<Rightarrow> 'w server" where
  "stageCAS digest value s = updatePacks (stageCASLocked (cfgPackSize (cfg s)) digest value) s"

definition stageActionLocked ::
    "int \<Rightarrow> string \<Rightarrow> object \<Rightarrow> digestReference list \<Rightarrow> string \<Rightarrow> packStore \<Rightarrow> packStore" where
  "stageActionLocked targetSize digest value closure contentCID p =
     (case psPendingActions p digest of
        Some existing \<Rightarrow>
          if paCID existing \<noteq> contentCID
          then p\<lparr>psPendingActions := (psPendingActions p)(digest := None),
                 psActionConflicts := insert digest (psActionConflicts p)\<rparr>
          else p
      | None \<Rightarrow> requestFlushLocked targetSize (p\<lparr>
          psPendingActions := (psPendingActions p)(digest \<mapsto>
            \<lparr>paObject = value, paClosure = sortDigestReferences closure, paCID = contentCID\<rparr>),
          psPendingACOrder := psPendingACOrder p @ [digest],
          psPendingBytes := psPendingBytes p + objSize value\<rparr>))"

definition stageAction ::
    "('w, 'c) env \<Rightarrow> string \<Rightarrow> object \<Rightarrow> digestReference list \<Rightarrow> ('w server, unit) io" where
  "stageAction E digest value closure =
     attempt (readFile E (objPath value)) (\<lambda>data.
     case rawCIDForData (envIpld E) data of Inl e \<Rightarrow> fail e
     | Inr contentCID \<Rightarrow>
         updating (\<lambda>s. updatePacks (stageActionLocked (cfgPackSize (cfg s)) digest value closure
           (cidString (envIpld E) contentCID)) s) (ok ()))"

section \<open>Selection\<close>

fun selectCASFrom :: "int \<Rightarrow> (string \<rightharpoonup> object) \<Rightarrow> string list \<Rightarrow> string list \<Rightarrow> int \<Rightarrow> string list" where
  "selectCASFrom targetSize pending [] selected n = selected"
| "selectCASFrom targetSize pending (digest # order) selected n =
     (case pending digest of
        None \<Rightarrow> selectCASFrom targetSize pending order selected n
      | Some value \<Rightarrow>
          if selected \<noteq> [] \<and> n + objSize value > targetSize then selected
          else if n + objSize value \<ge> targetSize then selected @ [digest]
          else selectCASFrom targetSize pending order (selected @ [digest]) (n + objSize value))"

definition selectCASLocked :: "int \<Rightarrow> packStore \<Rightarrow> string list" where
  "selectCASLocked targetSize p = selectCASFrom targetSize (psPendingCAS p) (psPendingCASOrder p) [] 0"

text \<open>A reference that a manifest may rely on: empty, in this pack, or published in an earlier one.\<close>

definition publishable :: "packStore \<Rightarrow> string set \<Rightarrow> digestReference \<Rightarrow> bool" where
  "publishable p selectedCAS ref \<longleftrightarrow>
     isImplicitEmptyDigest ref \<or> refHash ref \<in> selectedCAS \<or> psCAS p (refHash ref) \<noteq> None"

definition selectActionsLocked :: "packStore \<Rightarrow> string set \<Rightarrow> string list" where
  "selectActionsLocked p selectedCAS =
     filter (\<lambda>digest. case psPendingActions p digest of None \<Rightarrow> False
       | Some value \<Rightarrow> list_all (publishable p selectedCAS) (paClosure value)) (psPendingACOrder p)"

section \<open>After a commit\<close>

definition filterPending :: "string list \<Rightarrow> (string \<rightharpoonup> 'a) \<Rightarrow> string list" where
  "filterPending order values' = filter (\<lambda>key. values' key \<noteq> None) order"

definition removeCAS :: "string \<Rightarrow> packStore \<Rightarrow> packStore" where
  "removeCAS digest p =
     (case psPendingCAS p digest of None \<Rightarrow> p
      | Some value \<Rightarrow> p\<lparr>psPendingBytes := psPendingBytes p - objSize value,
                         psPendingCAS := (psPendingCAS p)(digest := None)\<rparr>)"

definition removeAction :: "string \<Rightarrow> packStore \<Rightarrow> packStore" where
  "removeAction digest p =
     (case psPendingActions p digest of None \<Rightarrow> p
      | Some value \<Rightarrow> p\<lparr>psPendingBytes := psPendingBytes p - objSize (paObject value),
                         psPendingActions := (psPendingActions p)(digest := None)\<rparr>)"

definition removePendingLocked :: "string list \<Rightarrow> string list \<Rightarrow> packStore \<Rightarrow> packStore" where
  "removePendingLocked casDigests actionDigests p =
     (let p = fold removeAction actionDigests (fold removeCAS casDigests p) in
      p\<lparr>psPendingCASOrder := filterPending (psPendingCASOrder p) (psPendingCAS p),
        psPendingACOrder := filterPending (psPendingACOrder p) (psPendingActions p)\<rparr>)"

section \<open>Merging a manifest\<close>

definition applyPack :: "packDescriptor \<Rightarrow> packStore \<Rightarrow> packStore" where
  "applyPack descriptor p =
     (case psPacks p (pkID descriptor) of
        Some existing \<Rightarrow>
          if pkKey descriptor < pkKey existing
          then p\<lparr>psPacks := (psPacks p)(pkID descriptor \<mapsto> descriptor)\<rparr> else p
      | None \<Rightarrow> p\<lparr>psPacks := (psPacks p)(pkID descriptor \<mapsto> descriptor)\<rparr>)"

definition applyCAS :: "manifestObject \<Rightarrow> packStore \<Rightarrow> packStore" where
  "applyCAS ob p =
     (case psCAS p (moDigest ob) of
        Some existing \<Rightarrow>
          if moPackID ob < moPackID existing
          then p\<lparr>psCAS := (psCAS p)(moDigest ob \<mapsto> ob)\<rparr> else p
      | None \<Rightarrow> p\<lparr>psCAS := (psCAS p)(moDigest ob \<mapsto> ob)\<rparr>)"

definition applyAction :: "manifestAction \<Rightarrow> packStore \<Rightarrow> packStore" where
  "applyAction a p =
     (case psActions p (maDigest a) of
        Some existing \<Rightarrow>
          if maCID existing \<noteq> maCID a
          then p\<lparr>psActionConflicts := insert (maDigest a) (psActionConflicts p)\<rparr> else p
      | None \<Rightarrow> p\<lparr>psActions := (psActions p)(maDigest a \<mapsto> a)\<rparr>)"

definition applyManifestLocked :: "string \<Rightarrow> manifest \<Rightarrow> packStore \<Rightarrow> packStore" where
  "applyManifestLocked manifestID value p =
     (let p = fold applyAction (mfActions value) (fold applyCAS (mfCAS value) (fold applyPack (mfPacks value) p))
      in p\<lparr>psHeads := insert manifestID (psHeads p - set (mfParents value))\<rparr>)"

section \<open>The manifest of a pack\<close>

record packedEntries =
  peCAS :: "manifestObject list"
  peActions :: "manifestAction list"

text \<open>\<open>sortedStringsFromSet\<close>, on a list of the elements of the set.\<close>

definition sortedStrings :: "string list \<Rightarrow> string list" where
  "sortedStrings xs = sort (remdups xs)"

text \<open>The packs that the closure of an action needs: this one, or the packs that have its objects.\<close>

definition closurePack :: "packStore \<Rightarrow> string \<Rightarrow> string set \<Rightarrow> digestReference \<Rightarrow> string list" where
  "closurePack p packID selectedCAS ref =
     (if isImplicitEmptyDigest ref then []
      else if refHash ref \<in> selectedCAS then [packID]
      else case psCAS p (refHash ref) of None \<Rightarrow> [] | Some previous \<Rightarrow> [moPackID previous])"

definition manifestForPackLocked ::
    "packStore \<Rightarrow> packDescriptor \<Rightarrow> packedEntries \<Rightarrow> string set \<Rightarrow> manifest" where
  "manifestForPackLocked p pack entries selectedCAS =
     \<lparr>mfVersion = manifestFormatVersion,
      mfParents = sorted_list_of_set (psHeads p),
      mfPacks = [pack],
      mfCAS = map (\<lambda>ob. ob\<lparr>moPackID := pkID pack\<rparr>) (peCAS entries),
      mfActions = map (\<lambda>a. a\<lparr>maPackID := pkID pack,
          maClosurePacks := sortedStrings (concat (map (closurePack p (pkID pack) selectedCAS)
            (case psPendingActions p (maDigest a) of None \<Rightarrow> [] | Some pending \<Rightarrow> paClosure pending)))\<rparr>)
        (peActions entries)\<rparr>"

section \<open>What is selected\<close>

text \<open>
  A selection from an order list: \<open>selectCASFrom\<close> picks a subsequence of the pending digests of the
  order, in order; it is the first pending one at least, it stops once the target size is reached, and
  what it picks stays within the target size unless it is a single object.
\<close>

lemma selectCASFrom_extends:
  "\<exists>rest. selectCASFrom targetSize pending order selected n = selected @ rest \<and>
     subseq rest (filter (\<lambda>d. pending d \<noteq> None) order)"
proof (induction order arbitrary: selected n)
  case Nil
  show ?case by simp
next
  case (Cons digest order)
  show ?case
  proof (cases "pending digest")
    case None
    then show ?thesis using Cons by auto
  next
    case (Some ob)
    have "\<exists>rest. selectCASFrom targetSize pending order (selected @ [digest]) m = selected @ rest \<and>
        subseq rest (digest # filter (\<lambda>d. pending d \<noteq> None) order)" for m
      using Cons.IH [of "selected @ [digest]" m] by auto
    then show ?thesis using Some by auto
  qed
qed

lemma subseq_set: "subseq xs ys \<Longrightarrow> set xs \<subseteq> set ys"
  by (rule subsetI) (erule list_emb_set, assumption, simp)

lemma subseq_distinct: "subseq xs ys \<Longrightarrow> distinct ys \<Longrightarrow> distinct xs"
  by (induction rule: list_emb.induct) (auto dest: subseq_set)

lemma selectCASFrom_subset:
  "set (selectCASFrom targetSize pending order [] n) \<subseteq> set order \<inter> dom pending"
  using selectCASFrom_extends [of targetSize pending order "[]" n] by (auto dest!: subseq_set)

lemma selectCASFrom_distinct: "distinct order \<Longrightarrow> distinct (selectCASFrom targetSize pending order [] n)"
  using selectCASFrom_extends [of targetSize pending order "[]" n] by (auto intro: subseq_distinct)

lemma selectCASFrom_nonempty: "selected \<noteq> [] \<Longrightarrow> selectCASFrom targetSize pending order selected n \<noteq> []"
  using selectCASFrom_extends [of targetSize pending order selected n] by auto

lemma selectCASFrom_empty:
  "selectCASFrom targetSize pending order [] n = [] \<longleftrightarrow> filter (\<lambda>d. pending d \<noteq> None) order = []"
  by (induction order) (auto simp: selectCASFrom_nonempty split: option.split)

definition totalSize :: "(string \<rightharpoonup> object) \<Rightarrow> string list \<Rightarrow> int" where
  "totalSize pending ds = (\<Sum>d\<leftarrow>ds. case pending d of None \<Rightarrow> 0 | Some value \<Rightarrow> objSize value)"

lemma totalSize_simps [simp]:
  "totalSize pending [] = 0" "totalSize pending (ds @ es) = totalSize pending ds + totalSize pending es"
  "pending d = Some value \<Longrightarrow> totalSize pending (d # ds) = objSize value + totalSize pending ds"
  by (simp_all add: totalSize_def)

lemma selectCASFrom_size:
  "n = totalSize pending selected \<Longrightarrow> n \<le> targetSize \<or> length selected \<le> 1 \<Longrightarrow>
     totalSize pending (selectCASFrom targetSize pending order selected n) \<le> targetSize \<or>
     length (selectCASFrom targetSize pending order selected n) \<le> 1"
proof (induction targetSize pending order selected n rule: selectCASFrom.induct)
  case (2 targetSize pending digest order selected n)
  then show ?case by (cases "pending digest") (auto simp: Let_def)
qed auto

text \<open>What is pending is selected up to a point where the target is reached or would be exceeded by what comes next.\<close>

lemma selectCASFrom_greedy:
  "n = totalSize pending selected \<Longrightarrow>
     \<exists>rest later. selectCASFrom targetSize pending order selected n = selected @ rest \<and>
       filter (\<lambda>d. pending d \<noteq> None) order = rest @ later \<and>
       (later = [] \<or> totalSize pending (selected @ rest) \<ge> targetSize \<or>
        totalSize pending (selected @ rest) + objSize (the (pending (hd later))) > targetSize)"
proof (induction targetSize pending order selected n rule: selectCASFrom.induct)
  case (2 targetSize pending digest order selected n)
  show ?case
  proof (cases "pending digest")
    case None
    with 2 show ?thesis by simp
  next
    case (Some value')
    let ?m = "n + objSize value'"
    consider "selected \<noteq> []" "?m > targetSize" | "\<not> (selected \<noteq> [] \<and> ?m > targetSize)" "?m \<ge> targetSize"
      | "\<not> (selected \<noteq> [] \<and> ?m > targetSize)" "?m < targetSize"
      by linarith
    then show ?thesis
    proof cases
      case 1
      with Some 2(3) show ?thesis
        by - (rule exI [of _ "[]"], simp)
    next
      case 2
      with Some \<open>n = totalSize pending selected\<close> show ?thesis by - (rule exI [of _ "[digest]"], simp)
    next
      case 3
      with 2(2) [OF Some] Some 2(3) show ?thesis by fastforce
    qed
  qed
qed simp

text \<open>
  C12. A pack takes as much as fits (\<open>selectCASLocked\<close>): the pending digests in their order are the selection followed
  by what is left for later; the selection has no repetition, and is not empty when anything is pending; its
  total size is within the target unless it is one single object; and something is left for later only when the
  selection has reached the target, or would exceed it with the next object.
\<close>

theorem selectCASLocked_bounded:
  assumes "distinct (psPendingCASOrder p)"
  shows "let ds = selectCASLocked targetSize p; pending = psPendingCAS p;
             all = filter (\<lambda>d. pending d \<noteq> None) (psPendingCASOrder p) in
    distinct ds \<and> (ds = [] \<longleftrightarrow> all = []) \<and> (totalSize pending ds \<le> targetSize \<or> length ds \<le> 1) \<and>
    (\<exists>later. all = ds @ later \<and>
      (later = [] \<or> totalSize pending ds \<ge> targetSize \<or>
       totalSize pending ds + objSize (the (pending (hd later))) > targetSize))"
proof -
  let ?ds = "selectCASFrom targetSize (psPendingCAS p) (psPendingCASOrder p) [] 0"
  have "totalSize (psPendingCAS p) ?ds \<le> targetSize \<or> length ?ds \<le> 1"
    by (rule selectCASFrom_size) simp_all
  moreover have "distinct ?ds" using assms by (rule selectCASFrom_distinct)
  moreover have "?ds = [] \<longleftrightarrow> filter (\<lambda>d. psPendingCAS p d \<noteq> None) (psPendingCASOrder p) = []"
    by (rule selectCASFrom_empty)
  ultimately show ?thesis
    using selectCASFrom_greedy [of 0 "psPendingCAS p" "[]" targetSize "psPendingCASOrder p"]
    unfolding selectCASLocked_def Let_def by auto
qed

section \<open>Merging is independent of the order\<close>

text \<open>
  What readers see of a merged store: for a CAS digest the pack it is read from, for a pack ID its key,
  for an action digest its content CID unless it is in conflict.
\<close>

definition casPack :: "packStore \<Rightarrow> string \<Rightarrow> string option" where
  "casPack p digest = map_option moPackID (psCAS p digest)"

definition keyOfPack :: "packStore \<Rightarrow> string \<Rightarrow> string option" where
  "keyOfPack p packID = map_option pkKey (psPacks p packID)"

definition visibleAction :: "packStore \<Rightarrow> string \<Rightarrow> string option" where
  "visibleAction p digest =
     (if digest \<in> psActionConflicts p then None else map_option maCID (psActions p digest))"

definition leastOf :: "string set \<Rightarrow> string option" where
  "leastOf S = (if S = {} then None else Some (Min S))"

lemma leastOf_insert:
  "finite S \<Longrightarrow> leastOf (insert x S) = Some (case leastOf S of None \<Rightarrow> x | Some y \<Rightarrow> min x y)"
  by (simp add: leastOf_def)

lemma leastOf_single [simp]: "leastOf (set_option x) = x"
  by (cases x) (simp_all add: leastOf_def)

lemma apply_fields [simp]:
  "psCAS (applyPack d p) = psCAS p" "psActions (applyPack d p) = psActions p"
  "psActionConflicts (applyPack d p) = psActionConflicts p" "psHeads (applyPack d p) = psHeads p"
  "psPacks (applyCAS ob p) = psPacks p" "psActions (applyCAS ob p) = psActions p"
  "psActionConflicts (applyCAS ob p) = psActionConflicts p" "psHeads (applyCAS ob p) = psHeads p"
  "psPacks (applyAction a p) = psPacks p" "psCAS (applyAction a p) = psCAS p"
  "psHeads (applyAction a p) = psHeads p"
  "psPendingCAS (applyPack d p) = psPendingCAS p" "psPendingCAS (applyCAS ob p) = psPendingCAS p"
  "psPendingCAS (applyAction a p) = psPendingCAS p"
  "psPendingCASOrder (applyPack d p) = psPendingCASOrder p" "psPendingCASOrder (applyCAS ob p) = psPendingCASOrder p"
  "psPendingCASOrder (applyAction a p) = psPendingCASOrder p"
  "psPendingActions (applyPack d p) = psPendingActions p" "psPendingActions (applyCAS ob p) = psPendingActions p"
  "psPendingActions (applyAction a p) = psPendingActions p"
  "psPendingACOrder (applyPack d p) = psPendingACOrder p" "psPendingACOrder (applyCAS ob p) = psPendingACOrder p"
  "psPendingACOrder (applyAction a p) = psPendingACOrder p"
  "psPendingBytes (applyPack d p) = psPendingBytes p" "psPendingBytes (applyCAS ob p) = psPendingBytes p"
  "psPendingBytes (applyAction a p) = psPendingBytes p"
  "psLoadedPacks (applyPack d p) = psLoadedPacks p" "psLoadedPacks (applyCAS ob p) = psLoadedPacks p"
  "psLoadedPacks (applyAction a p) = psLoadedPacks p"
  by (simp_all add: applyPack_def applyCAS_def applyAction_def split: option.split)

lemma fold_field:
  assumes "\<And>x p. g (f x p) = g p"
  shows "g (fold f xs p) = g p"
  by (induction xs arbitrary: p) (simp_all add: assms)

lemma applyManifest_fields:
  "psPacks (applyManifestLocked i m p) = psPacks (fold applyPack (mfPacks m) p)"
  "psCAS (applyManifestLocked i m p) = psCAS (fold applyCAS (mfCAS m) (fold applyPack (mfPacks m) p))"
  "psHeads (applyManifestLocked i m p) = insert i (psHeads p - set (mfParents m))"
  "psPendingCAS (applyManifestLocked i m p) = psPendingCAS p"
  "psPendingCASOrder (applyManifestLocked i m p) = psPendingCASOrder p"
  "psPendingActions (applyManifestLocked i m p) = psPendingActions p"
  "psPendingACOrder (applyManifestLocked i m p) = psPendingACOrder p"
  "psPendingBytes (applyManifestLocked i m p) = psPendingBytes p"
  "psLoadedPacks (applyManifestLocked i m p) = psLoadedPacks p"
  "psActions (applyManifestLocked i m p) =
     psActions (fold applyAction (mfActions m) (fold applyCAS (mfCAS m) (fold applyPack (mfPacks m) p)))"
  "psActionConflicts (applyManifestLocked i m p) =
     psActionConflicts (fold applyAction (mfActions m) (fold applyCAS (mfCAS m) (fold applyPack (mfPacks m) p)))"
  by (simp_all add: applyManifestLocked_def Let_def fold_field [where g = psPacks] fold_field [where g = psCAS]
      fold_field [where g = psHeads] fold_field [where g = psPendingCAS] fold_field [where g = psPendingCASOrder]
      fold_field [where g = psPendingActions] fold_field [where g = psPendingACOrder]
      fold_field [where g = psPendingBytes] fold_field [where g = psLoadedPacks])

lemma leastOf_leastOf: "finite S \<Longrightarrow> finite T \<Longrightarrow> leastOf (set_option (leastOf S) \<union> T) = leastOf (S \<union> T)"
  by (cases "T = {}") (auto simp: leastOf_def Min_Un Min_insert)

text \<open>A fold that keeps the least value per key, seen through \<open>view\<close>.\<close>

lemma fold_least:
  assumes "\<And>x p. view (f x p) =
    (if keyOf x = k then Some (case view p of None \<Rightarrow> valueOf x | Some y \<Rightarrow> min (valueOf x) y) else view p)"
  shows "view (fold f xs p) = leastOf (set_option (view p) \<union> valueOf ` {x \<in> set xs. keyOf x = k})"
proof (induction xs arbitrary: p)
  case Nil
  show ?case by simp
next
  case (Cons x xs)
  let ?T = "valueOf ` {x \<in> set xs. keyOf x = k}"
  have "view (f x p) = leastOf (set_option (view p) \<union> (if keyOf x = k then {valueOf x} else {}))"
    using leastOf_insert [of "set_option (view p)" "valueOf x"] by (simp add: assms)
  then have "view (fold f (x # xs) p)
      = leastOf (set_option (leastOf (set_option (view p) \<union> (if keyOf x = k then {valueOf x} else {}))) \<union> ?T)"
    using Cons.IH [of "f x p"] by simp
  also have "\<dots> = leastOf ((set_option (view p) \<union> (if keyOf x = k then {valueOf x} else {})) \<union> ?T)"
    by (rule leastOf_leastOf) auto
  also have "(set_option (view p) \<union> (if keyOf x = k then {valueOf x} else {})) \<union> ?T
      = set_option (view p) \<union> valueOf ` {y \<in> set (x # xs). keyOf y = k}" by auto
  finally show ?case .
qed

lemma fold_applyCAS:
  "casPack (fold applyCAS obs p) digest =
     leastOf (set_option (casPack p digest) \<union> moPackID ` {ob \<in> set obs. moDigest ob = digest})"
  by (rule fold_least) (auto simp: casPack_def applyCAS_def min_def split: option.split)

lemma fold_applyPack:
  "keyOfPack (fold applyPack ds p) packID =
     leastOf (set_option (keyOfPack p packID) \<union> pkKey ` {d \<in> set ds. pkID d = packID})"
  by (rule fold_least) (auto simp: keyOfPack_def applyPack_def min_def split: option.split)

text \<open>The CIDs known for an action digest; two of them are a conflict.\<close>

definition actionCIDs :: "packStore \<Rightarrow> string \<Rightarrow> string set" where
  "actionCIDs p digest = set_option (map_option maCID (psActions p digest))"

definition severalCIDs :: "string set \<Rightarrow> bool" where
  "severalCIDs C \<longleftrightarrow> (\<exists>c \<in> C. \<exists>c' \<in> C. c \<noteq> c')"

text \<open>The store knows the CIDs \<open>C\<close> of a digest; \<open>K\<close> says that it was in conflict before.\<close>

definition knows :: "packStore \<Rightarrow> string \<Rightarrow> string set \<Rightarrow> bool \<Rightarrow> bool" where
  "knows p digest C K \<longleftrightarrow> (psActions p digest = None \<longleftrightarrow> C = {}) \<and> actionCIDs p digest \<subseteq> C \<and>
     (digest \<in> psActionConflicts p \<longleftrightarrow> K \<or> severalCIDs C)"

lemma knows_self: "knows p digest (actionCIDs p digest) (digest \<in> psActionConflicts p)"
  by (cases "psActions p digest") (auto simp: knows_def actionCIDs_def severalCIDs_def)

lemma knows_fields:
  "psActions q = psActions p \<Longrightarrow> psActionConflicts q = psActionConflicts p \<Longrightarrow> knows q d C K = knows p d C K"
  by (simp add: knows_def actionCIDs_def)

lemma knows_applyAction:
  assumes "knows p digest C K"
  shows "knows (applyAction a p) digest (if maDigest a = digest then insert (maCID a) C else C) K"
proof (cases "maDigest a = digest")
  case False
  then have "psActions (applyAction a p) digest = psActions p digest"
    "digest \<in> psActionConflicts (applyAction a p) \<longleftrightarrow> digest \<in> psActionConflicts p"
    by (auto simp: applyAction_def split: option.split)
  with assms False show ?thesis by (simp add: knows_def actionCIDs_def)
next
  case True
  show ?thesis
  proof (cases "psActions p digest")
    case None
    with assms have "C = {}" by (simp add: knows_def)
    with assms None True show ?thesis
      by (auto simp: knows_def applyAction_def actionCIDs_def severalCIDs_def)
  next
    case (Some b)
    with assms have b: "maCID b \<in> C" by (auto simp: knows_def actionCIDs_def)
    show ?thesis
    proof (cases "maCID b = maCID a")
      case True
      with b have "insert (maCID a) C = C" by auto
      with assms Some True \<open>maDigest a = digest\<close> show ?thesis
        by (simp add: knows_def applyAction_def actionCIDs_def)
    next
      case False
      with b have "severalCIDs (insert (maCID a) C)" by (auto simp: severalCIDs_def)
      with assms Some False \<open>maDigest a = digest\<close> show ?thesis
        by (auto simp: knows_def applyAction_def actionCIDs_def)
    qed
  qed
qed

lemma knows_fold:
  "knows p digest C K \<Longrightarrow>
     knows (fold applyAction as p) digest (C \<union> maCID ` {a \<in> set as. maDigest a = digest}) K"
proof (induction as arbitrary: p C)
  case (Cons a as)
  have eq: "C \<union> maCID ` {x \<in> set (a # as). maDigest x = digest} =
      (if maDigest a = digest then insert (maCID a) C else C) \<union> maCID ` {x \<in> set as. maDigest x = digest}"
    by auto
  show ?case unfolding eq using Cons.IH [OF knows_applyAction [OF Cons.prems, of a]] by simp
qed simp

lemma knows_visible: "knows p digest C K \<Longrightarrow> visibleAction p digest = Some c \<longleftrightarrow> \<not> K \<and> C = {c}"
proof (cases "psActions p digest")
  case (Some a)
  assume K: "knows p digest C K"
  with Some have "maCID a \<in> C" by (auto simp: knows_def actionCIDs_def)
  then have "\<not> severalCIDs C \<longleftrightarrow> C = {maCID a}" by (auto simp: severalCIDs_def)
  with K Some show ?thesis by (auto simp: knows_def visibleAction_def actionCIDs_def severalCIDs_def)
qed (auto simp: knows_def visibleAction_def)

text \<open>The same for a list of manifests.\<close>

definition manifestPacks :: "string \<Rightarrow> manifest \<Rightarrow> string set" where
  "manifestPacks packID m = pkKey ` {d \<in> set (mfPacks m). pkID d = packID}"

definition manifestCAS :: "string \<Rightarrow> manifest \<Rightarrow> string set" where
  "manifestCAS digest m = moPackID ` {ob \<in> set (mfCAS m). moDigest ob = digest}"

definition manifestActions :: "string \<Rightarrow> manifest \<Rightarrow> string set" where
  "manifestActions digest m = maCID ` {a \<in> set (mfActions m). maDigest a = digest}"

definition applyAll :: "(string \<times> manifest) list \<Rightarrow> packStore \<Rightarrow> packStore" where
  "applyAll ms = fold (\<lambda>m. applyManifestLocked (fst m) (snd m)) ms"

lemma applyAll_simps [simp]:
  "applyAll [] p = p" "applyAll (m # ms) p = applyAll ms (applyManifestLocked (fst m) (snd m) p)"
  by (simp_all add: applyAll_def)

lemma casPack_applyManifest:
  "casPack (applyManifestLocked i m p) d = leastOf (set_option (casPack p d) \<union> manifestCAS d m)"
proof -
  have "casPack (fold applyPack ds p) d = casPack p d" for ds
    by (simp add: casPack_def fold_field [where g = psCAS])
  then show ?thesis
    using fold_applyCAS [of "mfCAS m" "fold applyPack (mfPacks m) p" d]
    by (simp add: casPack_def applyManifest_fields manifestCAS_def)
qed

lemma keyOfPack_applyManifest:
  "keyOfPack (applyManifestLocked i m p) d = leastOf (set_option (keyOfPack p d) \<union> manifestPacks d m)"
  using fold_applyPack [of "mfPacks m" p d] by (simp add: keyOfPack_def applyManifest_fields manifestPacks_def)

lemma knows_applyManifest:
  assumes "knows p digest C K"
  shows "knows (applyManifestLocked i m p) digest (C \<union> manifestActions digest m) K"
proof -
  let ?q = "fold applyCAS (mfCAS m) (fold applyPack (mfPacks m) p)"
  have "knows ?q digest C K = knows p digest C K"
    by (rule knows_fields) (simp_all add: fold_field [where g = psActions] fold_field [where g = psActionConflicts])
  with assms have "knows (fold applyAction (mfActions m) ?q) digest (C \<union> manifestActions digest m) K"
    unfolding manifestActions_def by (intro knows_fold) simp
  then show ?thesis
    by (subst knows_fields [where p = "fold applyAction (mfActions m) ?q"]) (simp_all add: applyManifest_fields)
qed

lemma finite_manifest [simp]: "finite (manifestCAS d m)" "finite (manifestPacks d m)"
  by (simp_all add: manifestCAS_def manifestPacks_def)

lemma applyAll_views:
  "casPack (applyAll ms p) d = leastOf (set_option (casPack p d) \<union> (\<Union>m \<in> set ms. manifestCAS d (snd m)))"
  "keyOfPack (applyAll ms p) d = leastOf (set_option (keyOfPack p d) \<union> (\<Union>m \<in> set ms. manifestPacks d (snd m)))"
  "knows p d C K \<Longrightarrow> knows (applyAll ms p) d (C \<union> (\<Union>m \<in> set ms. manifestActions d (snd m))) K"
proof (induction ms arbitrary: p C)
  case (Cons m ms)
  { case 1 show ?case
      by (simp add: Cons.IH(1) casPack_applyManifest leastOf_leastOf Un_assoc) }
  { case 2 show ?case
      by (simp add: Cons.IH(2) keyOfPack_applyManifest leastOf_leastOf Un_assoc) }
  { case 3 show ?case
      using Cons.IH(3) [OF knows_applyManifest [OF 3]] by (simp add: Un_assoc) }
qed simp_all

text \<open>The entry of an action stays as it is once there is one.\<close>

lemma firstAction_applyManifest:
  "psActions (applyManifestLocked i m p) d =
     (case psActions p d of Some a \<Rightarrow> Some a | None \<Rightarrow> find (\<lambda>a. maDigest a = d) (mfActions m))"
proof -
  have "psActions (fold applyAction as q) d =
      (case psActions q d of Some a \<Rightarrow> Some a | None \<Rightarrow> find (\<lambda>a. maDigest a = d) as)" for as q
    by (induction as arbitrary: q) (auto simp: applyAction_def split: option.split)
  then show ?thesis
    by (simp add: applyManifest_fields fold_field [where g = psActions])
qed

lemma firstAction_applyAll:
  "psActions (applyAll ms p) d =
     (case psActions p d of Some a \<Rightarrow> Some a
      | None \<Rightarrow> find (\<lambda>a. maDigest a = d) (concat (map (\<lambda>m. mfActions (snd m)) ms)))"
proof (induction ms arbitrary: p)
  case (Cons m ms)
  have "find P (xs @ ys) = (case find P xs of Some x \<Rightarrow> Some x | None \<Rightarrow> find P ys)" for P and xs ys :: "manifestAction list"
    by (induction xs) auto
  then show ?case by (simp add: Cons.IH firstAction_applyManifest split: option.split)
qed (simp split: option.split)

text \<open>
  C13. What does not depend on the order in which manifests are merged, and what does (\<open>applyManifestLocked\<close>): for
  the same set of manifests, in any order and with repetitions, every CAS digest is read from the same pack, every pack
  is downloaded under the same cache key, and every action digest is missing, in conflict, or
  visible with the same content CID. The rest of an action's entry, the pack that it is read from among it,
  is that of the first manifest that has the action, whatever comes later.
\<close>

theorem applyManifest_order_independent:
  assumes "set ms = set ms'"
  shows "casPack (applyAll ms p) digest = casPack (applyAll ms' p) digest \<and>
    keyOfPack (applyAll ms p) packID = keyOfPack (applyAll ms' p) packID \<and>
    visibleAction (applyAll ms p) digest = visibleAction (applyAll ms' p) digest \<and>
    psActions (applyAll ms p) digest =
      (case psActions p digest of Some a \<Rightarrow> Some a
       | None \<Rightarrow> find (\<lambda>a. maDigest a = digest) (concat (map (\<lambda>m. mfActions (snd m)) ms)))"
proof -
  have "visibleAction (applyAll ms p) digest = Some c \<longleftrightarrow> visibleAction (applyAll ms' p) digest = Some c" for c
    using knows_visible [OF applyAll_views(3) [OF knows_self]] assms by simp
  then have "visibleAction (applyAll ms p) digest = visibleAction (applyAll ms' p) digest"
    by (metis option.exhaust)
  with assms show ?thesis by (simp add: applyAll_views(1,2) firstAction_applyAll)
qed

text \<open>
  C14. Conflicting manifests make an action a miss: when two merged manifests give different content CIDs
  for one action digest, the digest is in conflict, whatever else is merged and in whatever order, and
  \<open>packStore.resolve\<close> answers that there is no such object without downloading anything.
\<close>

theorem applyManifest_conflict:
  assumes "m \<in> set ms" and "m' \<in> set ms" and "a \<in> set (mfActions (snd m))" and "a' \<in> set (mfActions (snd m'))"
    and "maDigest a = digest" and "maDigest a' = digest" and "maCID a \<noteq> maCID a'"
    and "packs s = Some (applyAll ms p)" and "objects s key = None"
  shows "digest \<in> psActionConflicts (applyAll ms p) \<and>
    packs_resolve E key ''ac'' digest s = (Inr None, count ActionDigestConflicts s)"
proof -
  let ?C = "actionCIDs p digest \<union> (\<Union>m \<in> set ms. manifestActions digest (snd m))"
  have "maCID a \<in> ?C" "maCID a' \<in> ?C" using assms by (auto simp: manifestActions_def)
  then have "severalCIDs ?C" using assms(7) unfolding severalCIDs_def by metis
  with applyAll_views(3) [OF knows_self] have "digest \<in> psActionConflicts (applyAll ms p)"
    unfolding knows_def by blast
  with assms(8,9) show ?thesis
    by (simp add: packs_resolve_def lookupEntry_def andThen_def thePacks_def)
qed

section \<open>The invariant of the pending work\<close>

text \<open>
  Every pending digest is in its order list, CAS digests exactly once, and no pending CAS digest is
  published. An order list may hold action digests that are no longer pending: selection skips them.
\<close>

definition stageInv :: "packStore \<Rightarrow> bool" where
  "stageInv p \<longleftrightarrow> distinct (psPendingCASOrder p) \<and> set (psPendingCASOrder p) = dom (psPendingCAS p) \<and>
     dom (psPendingCAS p) \<inter> dom (psCAS p) = {} \<and> dom (psPendingActions p) \<subseteq> set (psPendingACOrder p) \<and>
     finite (psHeads p)"

lemma stageInv_empty: "stageInv emptyPackStore"
  by (simp add: stageInv_def emptyPackStore_def)

lemma stageInv_flushRequested [simp]: "stageInv (p\<lparr>psFlushRequested := b\<rparr>) = stageInv p"
  "stageInv (p\<lparr>psPendingBytes := n\<rparr>) = stageInv p"
  by (simp_all add: stageInv_def)

lemma stageInv_request [simp]: "stageInv (requestFlushLocked n p) = stageInv p"
  by (simp add: requestFlushLocked_def)

lemma stageInv_stageCAS: "stageInv p \<Longrightarrow> stageInv (stageCASLocked n digest ob p)"
  unfolding stageCASLocked_def by simp (auto simp: stageInv_def dom_def)

lemma stageInv_stageAction: "stageInv p \<Longrightarrow> stageInv (stageActionLocked n digest ob closure c p)"
  unfolding stageActionLocked_def by (simp split: option.split) (auto simp: stageInv_def dom_def)

text \<open>What a commit removes from the pending work.\<close>

lemma removeCAS_fields [simp]:
  "psPendingCAS (removeCAS d p) = (psPendingCAS p)(d := None)"
  "psPendingCASOrder (removeCAS d p) = psPendingCASOrder p" "psPendingACOrder (removeCAS d p) = psPendingACOrder p"
  "psPendingActions (removeCAS d p) = psPendingActions p" "psCAS (removeCAS d p) = psCAS p"
  "psHeads (removeCAS d p) = psHeads p" "psPacks (removeCAS d p) = psPacks p" "psActions (removeCAS d p) = psActions p"
  "psLoadedPacks (removeCAS d p) = psLoadedPacks p"
  by (auto simp: removeCAS_def split: option.split)

lemma removeAction_fields [simp]:
  "psPendingActions (removeAction d p) = (psPendingActions p)(d := None)"
  "psPendingCASOrder (removeAction d p) = psPendingCASOrder p" "psPendingACOrder (removeAction d p) = psPendingACOrder p"
  "psPendingCAS (removeAction d p) = psPendingCAS p" "psCAS (removeAction d p) = psCAS p"
  "psHeads (removeAction d p) = psHeads p" "psPacks (removeAction d p) = psPacks p"
  "psActions (removeAction d p) = psActions p" "psLoadedPacks (removeAction d p) = psLoadedPacks p"
  by (auto simp: removeAction_def split: option.split)

lemma fold_removeCAS: "psPendingCAS (fold removeCAS ds p) = psPendingCAS p |` (- set ds)"
  by (induction ds arbitrary: p) (auto simp: restrict_map_def fun_eq_iff)

lemma fold_removeAction: "psPendingActions (fold removeAction ds p) = psPendingActions p |` (- set ds)"
  by (induction ds arbitrary: p) (auto simp: restrict_map_def fun_eq_iff)

lemma removePending_fields:
  "psPendingCAS (removePendingLocked ds as p) = psPendingCAS p |` (- set ds)"
  "psPendingActions (removePendingLocked ds as p) = psPendingActions p |` (- set as)"
  "psPendingCASOrder (removePendingLocked ds as p) = filterPending (psPendingCASOrder p) (psPendingCAS p |` (- set ds))"
  "psPendingACOrder (removePendingLocked ds as p) = filterPending (psPendingACOrder p) (psPendingActions p |` (- set as))"
  "psCAS (removePendingLocked ds as p) = psCAS p" "psHeads (removePendingLocked ds as p) = psHeads p"
  "psPacks (removePendingLocked ds as p) = psPacks p" "psActions (removePendingLocked ds as p) = psActions p"
  "psLoadedPacks (removePendingLocked ds as p) = psLoadedPacks p"
  by (simp_all add: removePendingLocked_def Let_def fold_removeCAS fold_removeAction
      fold_field [where g = psPendingCAS] fold_field [where g = psPendingActions]
      fold_field [where g = psPendingCASOrder] fold_field [where g = psPendingACOrder]
      fold_field [where g = psCAS] fold_field [where g = psHeads] fold_field [where g = psPacks]
      fold_field [where g = psActions] fold_field [where g = psLoadedPacks])

lemma stageInv_commit:
  assumes inv: "stageInv p" and cas: "dom (psCAS q) \<subseteq> dom (psCAS p) \<union> set ds" and heads: "finite (psHeads q)"
    and same: "psPendingCAS q = psPendingCAS p" "psPendingCASOrder q = psPendingCASOrder p"
      "psPendingActions q = psPendingActions p" "psPendingACOrder q = psPendingACOrder p"
  shows "stageInv (removePendingLocked ds as q)"
  using assms by (auto simp: stageInv_def removePending_fields filterPending_def restrict_map_def dom_def split: if_splits)

text \<open>Work that is left: the lengths of the order lists. A selection that is removed makes it less.\<close>

definition pendingWork :: "packStore \<Rightarrow> nat" where
  "pendingWork p = length (psPendingCASOrder p) + length (psPendingACOrder p)"

lemma filter_shorter: "x \<in> set xs \<Longrightarrow> \<not> P x \<Longrightarrow> length (filter P xs) < length xs"
  by (metis filter_True length_filter_le length_filter_less)

lemma length_filterPending: "length (filterPending xs m) \<le> length xs"
  by (simp add: filterPending_def)

lemma pendingWork_removed:
  assumes "set ds \<subseteq> set (psPendingCASOrder p)" and "set as \<subseteq> set (psPendingACOrder p)" and "ds \<noteq> [] \<or> as \<noteq> []"
  shows "pendingWork (removePendingLocked ds as p) < pendingWork p"
proof -
  note le = length_filterPending
  from assms(3) show ?thesis
  proof
    assume "ds \<noteq> []"
    then have "hd ds \<in> set (psPendingCASOrder p)" "hd ds \<in> set ds" using assms(1) by auto
    then have "length (filterPending (psPendingCASOrder p) (psPendingCAS p |` (- set ds))) < length (psPendingCASOrder p)"
      unfolding filterPending_def by (intro filter_shorter [of "hd ds"]) auto
    then show ?thesis unfolding pendingWork_def removePending_fields by (rule add_less_le_mono [OF _ le])
  next
    assume "as \<noteq> []"
    then have "hd as \<in> set (psPendingACOrder p)" "hd as \<in> set as" using assms(2) by auto
    then have "length (filterPending (psPendingACOrder p) (psPendingActions p |` (- set as))) < length (psPendingACOrder p)"
      unfolding filterPending_def by (intro filter_shorter [of "hd as"]) auto
    then show ?thesis unfolding pendingWork_def removePending_fields by (rule add_le_less_mono [OF le])
  qed
qed

lemma selectActions_subset: "set (selectActionsLocked p S) \<subseteq> set (psPendingACOrder p)"
  by (auto simp: selectActionsLocked_def)

end
