(* ===== verification/PackWrite.thy ===== *)
theory PackWrite
  imports PackStage
begin

text \<open>
  Writing packs and manifests (\<open>writePrivateTemp\<close>, \<open>buildPackLocked\<close>, \<open>publishFile\<close>, \<open>flushOneLocked\<close>,
  \<open>flush\<close>, \<open>flushWorker\<close>, \<open>close\<close> of \<open>pack_store.go\<close>) and restoring the store from the published manifests
  (\<open>parseManifestKey\<close>, \<open>loadManifest\<close>, \<open>discover\<close>, \<open>newPackStore\<close>).
\<close>

section \<open>Building a pack\<close>

definition writePrivateTemp :: "('w, 'c) env \<Rightarrow> bytes \<Rightarrow> ('w server, nat) io" where
  "writePrivateTemp E data =
     attempt (createTemp E) (\<lambda>path.
     attempt (fault E Chmod) (\<lambda>_.
     attempt (if data \<noteq> [] then writeFile E path data else ok ()) (\<lambda>_.
     attempt (fault E SyncFile) (\<lambda>_.
     attempt (fault E CloseFile) (\<lambda>_. ok path)))))"

text \<open>
  The blocks of a pack and the entries of its manifest. A digest that is not pending is the zero object,
  whose empty path cannot be read.
\<close>

record 'c packDraft =
  draftBlocks :: "('c \<times> bytes) list"
  draftEntries :: packedEntries

definition addCASBlock ::
    "('w, 'c) env \<Rightarrow> string \<Rightarrow> 'c packDraft \<Rightarrow> ('w server, 'c packDraft) io" where
  "addCASBlock E digest d =
     reading (\<lambda>s. psPendingCAS (thePacks s) digest) (\<lambda>pending.
     case pending of None \<Rightarrow> fail (Failure ''open : no such file or directory'')
     | Some value \<Rightarrow>
       attempt (readFile E (objPath value)) (\<lambda>data.
       case rawCIDForDigest (envIpld E) digest of Inl e \<Rightarrow> fail e
       | Inr contentCID \<Rightarrow>
         ok (d\<lparr>draftBlocks := draftBlocks d @ [(contentCID, data)],
               draftEntries := (draftEntries d)\<lparr>peCAS := peCAS (draftEntries d) @
                 [\<lparr>moDigest = digest, moCID = cidString (envIpld E) contentCID, moPackID = [],
                   moSize = objSize value\<rparr>]\<rparr>\<rparr>)))"

definition addActionBlock ::
    "('w, 'c) env \<Rightarrow> string \<Rightarrow> 'c packDraft \<Rightarrow> ('w server, 'c packDraft) io" where
  "addActionBlock E digest d =
     reading (\<lambda>s. psPendingActions (thePacks s) digest) (\<lambda>pending.
     case pending of None \<Rightarrow> fail (Failure ''open : no such file or directory'')
     | Some value \<Rightarrow>
       attempt (readFile E (objPath (paObject value))) (\<lambda>data.
       case library (cidDecode (envIpld E) (paCID value)) of Inl e \<Rightarrow> fail e
       | Inr contentCID \<Rightarrow>
         ok (d\<lparr>draftBlocks := draftBlocks d @ [(contentCID, data)],
               draftEntries := (draftEntries d)\<lparr>peActions := peActions (draftEntries d) @
                 [\<lparr>maDigest = digest, maCID = paCID value, maPackID = [],
                   maSize = objSize (paObject value), maClosurePacks = []\<rparr>]\<rparr>\<rparr>)))"

definition emptyDraft :: "'c packDraft" where
  "emptyDraft = \<lparr>draftBlocks = [], draftEntries = \<lparr>peCAS = [], peActions = []\<rparr>\<rparr>"

text \<open>The archive is written block by block into the new file; what \<open>Finalize\<close> leaves is \<open>carWrite\<close>.\<close>

definition buildPackLocked ::
    "('w, 'c) env \<Rightarrow> string list \<Rightarrow> string list \<Rightarrow> ('w server, nat \<times> packedEntries \<times> int \<times> string) io" where
  "buildPackLocked E casDigests actionDigests =
     attempt (forEach (addCASBlock E) casDigests emptyDraft) (\<lambda>d.
     attempt (forEach (addActionBlock E) actionDigests d) (\<lambda>d.
     if draftBlocks d = [] then fail (Failure ''cannot build an empty CARv2 pack'')
     else
       attempt (writePrivateTemp E []) (\<lambda>path.
       case library (carWrite (envIpld E) [fst (hd (draftBlocks d))] (draftBlocks d)) of Inl e \<Rightarrow> fail e
       | Inr archive \<Rightarrow>
         attempt (writeFile E path archive) (\<lambda>_.
         attempt (statSize E path) (\<lambda>packSize.
         attempt (openFile E path) (\<lambda>_.
         attempt (hashFile E path) (\<lambda>packID.
         attempt (fault E CloseFile) (\<lambda>_.
         ok (path, draftEntries d, packSize, packID)))))))))"

section \<open>Flushing\<close>

definition publishFile :: "('w, 'c) env \<Rightarrow> string \<Rightarrow> nat \<Rightarrow> int \<Rightarrow> ('w server, unit) io" where
  "publishFile E key path fileSize =
     attempt (openFile E path) (\<lambda>_.
     attempt (publishOnce E key path fileSize) (\<lambda>deduplicated.
     updating (count (if deduplicated then DeduplicatedUploads else Uploads)) (ok ())))"

text \<open>From the pack to the commit of its manifest.\<close>

definition commitPack ::
    "('w, 'c) env \<Rightarrow> string list \<Rightarrow> string list \<Rightarrow> nat \<times> packedEntries \<times> int \<times> string \<Rightarrow> ('w server, bool) io" where
  "commitPack E casDigests actionDigests built =
     (case built of (packPath, entries, packSize, packID) \<Rightarrow>
     reading (\<lambda>s. cfgKeyPrefix (cfg s)) (\<lambda>keyPrefix.
     let pack = \<lparr>pkID = packID, pkKey = packKeyFor keyPrefix packID, pkSize = packSize\<rparr> in
     attempt (publishFile E (pkKey pack) packPath packSize) (\<lambda>_.
     updating (count PackUploads) (
     reading (\<lambda>s. manifestForPackLocked (thePacks s) pack entries (set casDigests)) (\<lambda>manifestValue.
     case encodeManifest (envIpld E) manifestValue of Inl e \<Rightarrow> fail e
     | Inr (manifestData, manifestID) \<Rightarrow>
       attempt (writePrivateTemp E manifestData) (\<lambda>manifestPath.
       attempt (publishFile E (manifestKeyFor keyPrefix manifestID) manifestPath
         (int (length manifestData))) (\<lambda>_.
       updating (count ManifestUploads) (
       updating (updatePacks (\<lambda>p.
         removePendingLocked casDigests actionDigests (applyManifestLocked manifestID manifestValue p)))
       (ok True)))))))))"

definition flushOneLocked :: "('w, 'c) env \<Rightarrow> ('w server, bool) io" where
  "flushOneLocked E =
     reading (\<lambda>s. selectCASLocked (cfgPackSize (cfg s)) (thePacks s)) (\<lambda>casDigests.
     reading (\<lambda>s. selectActionsLocked (thePacks s) (set casDigests)) (\<lambda>actionDigests.
     if casDigests = [] \<and> actionDigests = [] then ok False
     else attempt (buildPackLocked E casDigests actionDigests) (commitPack E casDigests actionDigests)))"

section \<open>Restoring the store\<close>

definition parseManifestKey :: "'c ipld \<Rightarrow> string \<Rightarrow> string \<Rightarrow> string option" where
  "parseManifestKey L keyPrefix key =
     (let head = manifestKeyFor keyPrefix [] in
      if length key \<le> length head \<or> take (length head) key \<noteq> head then None
      else let manifestID = drop (length head) key in
           if validCID L manifestID then Some manifestID else None)"

definition loadManifest :: "('w, 'c) env \<Rightarrow> string \<Rightarrow> string \<Rightarrow> ('w server, manifest) io" where
  "loadManifest E key manifestID =
     attempt (acquire E) (\<lambda>_.
     attempt (backendLoadBuffer E key) (\<lambda>(data, found).
     if \<not> found then fail (Failure ''manifest cache entry is missing'')
     else updating (count BackendDownloads) (
       reading (\<lambda>s. cfgMaxBlobSize (cfg s)) (\<lambda>maxBlobSize.
       if int (length data) > maxBlobSize then fail (Failure ''manifest exceeds maximum object size'')
       else case decodeManifest (envIpld E) data manifestID of Inl e \<Rightarrow> fail e | Inr value \<Rightarrow> ok value))))"

text \<open>
  The loop over the keys: the manifests by ID, in an association list, and the parents they name.
  A manifest that cannot be loaded is counted and left out.
\<close>

fun loadManifests ::
    "('w, 'c) env \<Rightarrow> string list \<Rightarrow> (string \<times> manifest) list \<Rightarrow> string set \<Rightarrow>
      ('w server, (string \<times> manifest) list \<times> string set) comp" where
  "loadManifests E [] manifests parents = returning (manifests, parents)"
| "loadManifests E (key # keys) manifests parents =
     reading (\<lambda>s. parseManifestKey (envIpld E) (cfgKeyPrefix (cfg s)) key) (\<lambda>parsed.
     case parsed of None \<Rightarrow> loadManifests E keys manifests parents
     | Some manifestID \<Rightarrow>
       andThen (loadManifest E key manifestID) (\<lambda>r.
       case r of Inl e \<Rightarrow> updating (count ManifestLoadErrors) (loadManifests E keys manifests parents)
       | Inr value \<Rightarrow>
           loadManifests E keys (AList.update manifestID value manifests)
             (parents \<union> set (mfParents value))))"

definition applyDiscovered :: "string set \<Rightarrow> string \<times> manifest \<Rightarrow> packStore \<Rightarrow> packStore" where
  "applyDiscovered parents m p =
     (let p = applyManifestLocked (fst m) (snd m) p in
      if fst m \<in> parents then p else p\<lparr>psHeads := insert (fst m) (psHeads p)\<rparr>)"

definition backendList :: "('w, 'c) env \<Rightarrow> string \<Rightarrow> int \<Rightarrow> ('w server, string list) io" where
  "backendList E keyPrefix limit = (\<lambda>s. case envList E keyPrefix limit (world s) of
     (r, w) \<Rightarrow> (library r, s\<lparr>world := w\<rparr>))"

definition discover :: "('w, 'c) env \<Rightarrow> ('w server, unit) io" where
  "discover E =
     reading cfg (\<lambda>c.
     attempt (backendList E (manifestKeyFor (cfgKeyPrefix c) []) (cfgMaxManifests c)) (\<lambda>keys.
     updating (countBytes ManifestsDiscovered (length keys)) (
     andThen (loadManifests E keys [] {}) (\<lambda>(manifests, parents).
     updating (updatePacks (fold (applyDiscovered parents) (sort_key fst manifests))) (ok ())))))"

text \<open>\<open>newPackStore\<close> up to the start of its worker.\<close>

definition newPackStore :: "('w, 'c) env \<Rightarrow> ('w server, unit) io" where
  "newPackStore E =
     reading cfg (\<lambda>c.
     if \<not> cfgCatalog c then fail (Failure ''packed storage mode requires a manifest catalog'')
     else updating (\<lambda>s. s\<lparr>packs := Some emptyPackStore\<rparr>) (
       andThen (discover E) (\<lambda>r.
       case r of Inr _ \<Rightarrow> ok ()
       | Inl e \<Rightarrow> updating (count ManifestDiscoveryErrors) (
           if \<not> cfgFailOpen c then fail e else ok ()))))"

section \<open>What a flush changes\<close>

definition samePacks :: "packStore option \<Rightarrow> config \<Rightarrow> 'w server \<Rightarrow> bool" where
  "samePacks p c s \<longleftrightarrow> packs s = p \<and> cfg s = c"

lemma samePacks_fields [simp]:
  "samePacks p c (s\<lparr>world := w\<rparr>) = samePacks p c s" "samePacks p c (s\<lparr>limiter := l\<rparr>) = samePacks p c s"
  "samePacks p c (s\<lparr>published := pb\<rparr>) = samePacks p c s" "samePacks p c (count n s) = samePacks p c s"
  "samePacks p c (s\<lparr>files := fs\<rparr>) = samePacks p c s" "samePacks p c (s\<lparr>nextFile := k\<rparr>) = samePacks p c s"
  "samePacks p c (appendFile path data s) = samePacks p c s"
  by (simp_all add: samePacks_def count_def appendFile_def)

lemma samePacks_fault [keeps_rules]: "keeps (samePacks p c) (fault E operation)"
  by (rule keeps_fault) simp

lemma samePacks_createFile [keeps_rules]: "keeps (samePacks p c) createFile"
  by (auto intro!: keepsI simp: createFile_def)

lemma samePacks_primitives [keeps_rules]:
  "keeps (samePacks p c) (createTemp E)" "keeps (samePacks p c) (writeFile E path data)"
  "keeps (samePacks p c) (readFile E path)" "keeps (samePacks p c) (openFile E path)"
  "keeps (samePacks p c) (statSize E path)" "keeps (samePacks p c) (hashFile E path)"
  "keeps (samePacks p c) (publishOnce E key path n)"
  unfolding primitive_defs by (intro keeps_rules keeps_publishOnce; simp)+

lemma samePacks_writePrivateTemp [keeps_rules]: "keeps (samePacks p c) (writePrivateTemp E data)"
  unfolding writePrivateTemp_def by (intro keeps_rules)

lemma samePacks_build [keeps_rules]: "keeps (samePacks p c) (buildPackLocked E ds as)"
  unfolding buildPackLocked_def addCASBlock_def addActionBlock_def by (intro keeps_rules)

lemma samePacks_publishFile [keeps_rules]: "keeps (samePacks p c) (publishFile E key path n)"
  unfolding publishFile_def by (intro keeps_rules) simp

lemma samePacks_run:
  "keeps (samePacks (packs s) (cfg s)) m \<Longrightarrow> m s = (r, s') \<Longrightarrow> packs s' = packs s \<and> cfg s' = cfg s"
  using keepsD [of "samePacks (packs s) (cfg s)" m s r s'] by (simp add: samePacks_def)

text \<open>A commit that fails leaves the store as it was; one that succeeds applies its own manifest.\<close>

lemma commitPack_packs:
  assumes "commitPack E ds as (packPath, entries, packSize, packID) s = (r, s')"
  shows "cfg s' = cfg s \<and> (case r of
      Inl _ \<Rightarrow> packs s' = packs s
    | Inr flushed \<Rightarrow> flushed \<and> (\<exists>pack m data manifestID.
        pack = \<lparr>pkID = packID, pkKey = packKeyFor (cfgKeyPrefix (cfg s)) packID, pkSize = packSize\<rparr> \<and>
        m = manifestForPackLocked (thePacks s) pack entries (set ds) \<and>
        encodeManifest (envIpld E) m = Inr (data, manifestID) \<and>
        packs s' = map_option (\<lambda>p. removePendingLocked ds as (applyManifestLocked manifestID m p)) (packs s)))"
proof -
  let ?pack = "\<lparr>pkID = packID, pkKey = packKeyFor (cfgKeyPrefix (cfg s)) packID, pkSize = packSize\<rparr>"
  obtain r1 s1 where first: "publishFile E (pkKey ?pack) packPath packSize s = (r1, s1)" by (metis surj_pair)
  have s1: "packs s1 = packs s" "cfg s1 = cfg s" using samePacks_run [OF samePacks_publishFile first] by auto
  show ?thesis
  proof (cases r1)
    case (Inl e)
    with assms first s1 show ?thesis
      by (auto simp: commitPack_def Let_def attempt_def andThen_def)
  next
    case (Inr u)
    let ?m = "manifestForPackLocked (thePacks s) ?pack entries (set ds)"
    have packs1: "thePacks (count PackUploads s1) = thePacks s" "packs (count PackUploads s1) = packs s"
      "cfg (count PackUploads s1) = cfg s"
      using s1 by (simp_all add: thePacks_def count_def)
    show ?thesis
    proof (cases "encodeManifest (envIpld E) ?m")
      case (Inl e)
      with assms first Inr packs1 show ?thesis
        by (auto simp: commitPack_def Let_def attempt_def andThen_def)
    next
      case enc: (Inr em)
      obtain data manifestID where em: "em = (data, manifestID)" by (cases em)
      obtain r2 s2 where second: "writePrivateTemp E data (count PackUploads s1) = (r2, s2)" by (metis surj_pair)
      have s2: "packs s2 = packs s" "cfg s2 = cfg s"
        using samePacks_run [OF samePacks_writePrivateTemp second] packs1 by auto
      show ?thesis
      proof (cases r2)
        case (Inl e)
        with assms first Inr packs1 enc em second s2 show ?thesis
          by (auto simp: commitPack_def Let_def attempt_def andThen_def)
      next
        case (Inr manifestPath)
        obtain r3 s3 where third: "publishFile E (manifestKeyFor (cfgKeyPrefix (cfg s)) manifestID) manifestPath
            (int (length data)) s2 = (r3, s3)" by (metis surj_pair)
        have s3: "packs s3 = packs s" "cfg s3 = cfg s"
          using samePacks_run [OF samePacks_publishFile third] s2 by auto
        show ?thesis
          using assms first \<open>r1 = Inr u\<close> packs1 enc em second s3 Inr third
          by (cases r3) (auto simp: commitPack_def Let_def attempt_def andThen_def updatePacks_def count_def)
      qed
    qed
  qed
qed

lemma flushOneLocked_packs:
  assumes "flushOneLocked E s = (r, s')"
    and "ds = selectCASLocked (cfgPackSize (cfg s)) (thePacks s)" and "as = selectActionsLocked (thePacks s) (set ds)"
  shows "cfg s' = cfg s \<and> (case r of
      Inl _ \<Rightarrow> packs s' = packs s
    | Inr False \<Rightarrow> s' = s \<and> ds = [] \<and> as = []
    | Inr True \<Rightarrow> (ds \<noteq> [] \<or> as \<noteq> []) \<and> (\<exists>pack entries m data manifestID path s1.
        buildPackLocked E ds as s = (Inr (path, entries, pkSize pack, pkID pack), s1) \<and>
        pkKey pack = packKeyFor (cfgKeyPrefix (cfg s)) (pkID pack) \<and>
        m = manifestForPackLocked (thePacks s) pack entries (set ds) \<and>
        encodeManifest (envIpld E) m = Inr (data, manifestID) \<and>
        packs s' = map_option (\<lambda>p. removePendingLocked ds as (applyManifestLocked manifestID m p)) (packs s)))"
proof (cases "ds = [] \<and> as = []")
  case True
  with assms show ?thesis by (auto simp: flushOneLocked_def)
next
  case False
  have run: "attempt (buildPackLocked E ds as) (commitPack E ds as) s = (r, s')"
    using assms(1) False unfolding flushOneLocked_def reading_run assms(2) [symmetric] assms(3) [symmetric]
    by (simp only: if_False)
  obtain b s1 where build: "buildPackLocked E ds as s = (b, s1)" by (metis surj_pair)
  have s1: "packs s1 = packs s" "cfg s1 = cfg s" using samePacks_run [OF samePacks_build build] by auto
  have thePacks: "thePacks s1 = thePacks s" using s1 by (simp add: thePacks_def)
  show ?thesis
  proof (cases b)
    case (Inl e)
    with run build s1 show ?thesis by (auto simp: attempt_def andThen_def)
  next
    case (Inr built)
    obtain path entries packSize packID where built: "built = (path, entries, packSize, packID)" by (cases built)
    have "commitPack E ds as (path, entries, packSize, packID) s1 = (r, s')"
      using run build Inr built by (simp add: attempt_def andThen_def)
    from commitPack_packs [OF this] show ?thesis
      using s1 thePacks False build Inr built
      by (cases r) (auto split: bool.split intro!: exI [of _ "\<lparr>pkID = packID,
        pkKey = packKeyFor (cfgKeyPrefix (cfg s)) packID, pkSize = packSize\<rparr>"])
  qed
qed

section \<open>The loop of \<open>flush\<close>\<close>

lemma flushOneLocked_shrinks:
  assumes run: "flushOneLocked E s = (Inr True, s')"
  shows "pendingWork (thePacks s') < pendingWork (thePacks s)"
proof -
  let ?p = "thePacks s"
  let ?ds = "selectCASLocked (cfgPackSize (cfg s)) ?p"
  let ?as = "selectActionsLocked ?p (set ?ds)"
  from flushOneLocked_packs [OF run refl refl] obtain m manifestID where
    some: "?ds \<noteq> [] \<or> ?as \<noteq> []" and
    packs: "packs s' = map_option (\<lambda>p. removePendingLocked ?ds ?as (applyManifestLocked manifestID m p)) (packs s)"
    by auto
  have "set ?ds \<subseteq> set (psPendingCASOrder ?p)"
    unfolding selectCASLocked_def using selectCASFrom_subset by fastforce
  with selectActions_subset [of ?p "set ?ds"] some
  have less: "pendingWork (removePendingLocked ?ds ?as (applyManifestLocked manifestID m ?p)) < pendingWork ?p"
    using pendingWork_removed [of ?ds "applyManifestLocked manifestID m ?p" ?as]
    by (simp add: applyManifest_fields pendingWork_def)
  show ?thesis
  proof (cases "packs s")
    case None
    then have "?ds = []" "?as = []"
      by (simp_all add: thePacks_def emptyPackStore_def selectCASLocked_def selectActionsLocked_def)
    with some show ?thesis by simp
  next
    case (Some p)
    with packs less show ?thesis by (simp add: thePacks_def)
  qed
qed

function flushLoop :: "('w, 'c) env \<Rightarrow> bool \<Rightarrow> ('w server, unit) io" where
  "flushLoop E all s =
     (case flushOneLocked E s of
        (Inl e, s') \<Rightarrow> (Inl e, s')
      | (Inr flushed, s') \<Rightarrow> if \<not> flushed \<or> \<not> all then (Inr (), s') else flushLoop E all s')"
  by pat_completeness auto
termination
  by (relation "measure (\<lambda>(E, all, s). pendingWork (thePacks s))")
    (auto dest!: flushOneLocked_shrinks [OF sym])

declare flushLoop.simps [simp del]

definition flush :: "('w, 'c) env \<Rightarrow> bool \<Rightarrow> ('w server, unit) io" where
  "flush E all = flushLoop E all"

text \<open>One round of \<open>flushWorker\<close>, and \<open>close\<close> once the worker has stopped.\<close>

definition flushTick :: "('w, 'c) env \<Rightarrow> ('w server, unit) comp" where
  "flushTick E =
     updating (updatePacks (\<lambda>p. p\<lparr>psFlushRequested := False\<rparr>)) (
     andThen (flush E False) (\<lambda>r.
     case r of Inl _ \<Rightarrow> updating (count BackendSaveErrors) (returning ()) | Inr _ \<Rightarrow> returning ()))"

definition packs_close :: "('w, 'c) env \<Rightarrow> ('w server, unit) io" where
  "packs_close E = flush E True"

definition server_Close :: "('w, 'c) env \<Rightarrow> ('w server, unit) io" where
  "server_Close E = reading packs (\<lambda>p. if p = None then ok () else packs_close E)"

lemma flushLoop_keeps:
  assumes "keeps I (flushOneLocked E)" and "I s" and "flushLoop E all s = (r, s')"
  shows "I s' \<and> (r = Inr () \<and> all \<longrightarrow> (\<exists>s1. I s1 \<and> flushOneLocked E s1 = (Inr False, s')))"
  using assms
proof (induction E all s rule: flushLoop.induct)
  case (1 E all s)
  obtain q s1 where q: "flushOneLocked E s = (q, s1)" by (metis surj_pair)
  have s1: "I s1" using keepsD [OF 1(2) 1(3) q] .
  show ?case
  proof (cases q)
    case (Inl e)
    with 1(4) q s1 show ?thesis by (auto simp: flushLoop.simps [of E all s])
  next
    case (Inr flushed)
    show ?thesis
    proof (cases "flushed \<and> all")
      case True
      have "flushLoop E all s1 = (r, s')"
        using 1(4) True unfolding flushLoop.simps [of E all s] q Inr by simp
      with 1(1) [OF q [symmetric] Inr] True 1(2) s1 show ?thesis by simp
    next
      case False
      with 1(4) q Inr have "r = Inr ()" "s' = s1" by (auto simp: flushLoop.simps [of E all s] split: if_splits)
      with False s1 q Inr 1(3) show ?thesis by (cases flushed) auto
    qed
  qed
qed

lemma keeps_flush: "keeps I (flushOneLocked E) \<Longrightarrow> keeps I (flush E all)"
  unfolding flush_def by (rule keepsI) (blast dest: flushLoop_keeps)

section \<open>The contents of a pack\<close>

lemma readFile_world:
  assumes "readFile E path s = (r, s')"
  shows "\<exists>w. s' = s\<lparr>world := w\<rparr> \<and> (\<forall>data. r = Inr data \<longrightarrow> files s path = Some data)"
proof -
  have "fault E ReadFile s = (q, t) \<Longrightarrow> \<exists>w. t = s\<lparr>world := w\<rparr>" for q t
    by (auto simp: fault_def split: prod.splits option.splits)
  then show ?thesis
    using assms by (auto simp: readFile_def attempt_def andThen_def fail_def split: prod.splits sum.splits option.splits)
qed

text \<open>A block of the draft with its entry, as the state has them.\<close>

definition casBlock :: "('w, 'c) env \<Rightarrow> 'w server \<Rightarrow> string \<Rightarrow> ('c \<times> bytes) \<times> manifestObject \<Rightarrow> bool" where
  "casBlock E s digest b \<longleftrightarrow> (\<exists>ob c data. psPendingCAS (thePacks s) digest = Some ob \<and>
     files s (objPath ob) = Some data \<and> rawCIDForDigest (envIpld E) digest = Inr c \<and>
     b = ((c, data), \<lparr>moDigest = digest, moCID = cidString (envIpld E) c, moPackID = [], moSize = objSize ob\<rparr>))"

definition actionBlock :: "('w, 'c) env \<Rightarrow> 'w server \<Rightarrow> string \<Rightarrow> ('c \<times> bytes) \<times> manifestAction \<Rightarrow> bool" where
  "actionBlock E s digest b \<longleftrightarrow> (\<exists>pa c data. psPendingActions (thePacks s) digest = Some pa \<and>
     files s (objPath (paObject pa)) = Some data \<and> cidDecode (envIpld E) (paCID pa) = Inr c \<and>
     b = ((c, data), \<lparr>maDigest = digest, maCID = paCID pa, maPackID = [], maSize = objSize (paObject pa),
       maClosurePacks = []\<rparr>))"

lemma casBlock_world [simp]: "casBlock E (s\<lparr>world := w\<rparr>) = casBlock E s"
  "actionBlock E (s\<lparr>world := w\<rparr>) = actionBlock E s"
  by (simp_all add: casBlock_def actionBlock_def thePacks_def fun_eq_iff)

lemma addCASBlock_run:
  "addCASBlock E digest d s = (Inr d', s') \<Longrightarrow> \<exists>b w. casBlock E s digest b \<and> s' = s\<lparr>world := w\<rparr> \<and>
     d' = \<lparr>draftBlocks = draftBlocks d @ [fst b],
       draftEntries = (draftEntries d)\<lparr>peCAS := peCAS (draftEntries d) @ [snd b]\<rparr>\<rparr>"
  by (cases d) (fastforce simp: addCASBlock_def run_iffs casBlock_def dest!: readFile_world)

lemma addActionBlock_run:
  "addActionBlock E digest d s = (Inr d', s') \<Longrightarrow> \<exists>b w. actionBlock E s digest b \<and> s' = s\<lparr>world := w\<rparr> \<and>
     d' = \<lparr>draftBlocks = draftBlocks d @ [fst b],
       draftEntries = (draftEntries d)\<lparr>peActions := peActions (draftEntries d) @ [snd b]\<rparr>\<rparr>"
  by (cases d) (fastforce simp: addActionBlock_def run_iffs actionBlock_def dest!: readFile_world)

lemma forEach_collect:
  assumes step: "\<And>x d s d' s'. f x d s = (Inr d', s') \<Longrightarrow> \<exists>b w. R s x b \<and> s' = s\<lparr>world := w\<rparr> \<and> d' = add b d"
    and world: "\<And>s w. R (s\<lparr>world := w\<rparr>) = R s"
  shows "forEach f xs d s = (Inr d', s') \<Longrightarrow>
    \<exists>bs w. list_all2 (R s) xs bs \<and> s' = s\<lparr>world := w\<rparr> \<and> d' = fold add bs d"
proof (induction xs arbitrary: d s)
  case Nil
  then have "list_all2 (R s) [] [] \<and> s' = s\<lparr>world := world s\<rparr> \<and> d' = fold add [] d" by simp
  then show ?case by blast
next
  case (Cons x xs)
  then obtain d1 s1 where first: "f x d s = (Inr d1, s1)" and rest: "forEach f xs d1 s1 = (Inr d', s')"
    by (auto simp: attempt_Inr_iff)
  from step [OF first] obtain b w where b: "R s x b" "s1 = s\<lparr>world := w\<rparr>" "d1 = add b d" by blast
  from Cons.IH [OF rest] obtain bs w' where "list_all2 (R s1) xs bs" "s' = s1\<lparr>world := w'\<rparr>" "d' = fold add bs d1"
    by blast
  with b have "list_all2 (R s) (x # xs) (b # bs) \<and> s' = s\<lparr>world := w'\<rparr> \<and> d' = fold add (b # bs) d"
    by (simp add: world)
  then show ?case by blast
qed

definition addCAS :: "('c \<times> bytes) \<times> manifestObject \<Rightarrow> 'c packDraft \<Rightarrow> 'c packDraft" where
  "addCAS b d = \<lparr>draftBlocks = draftBlocks d @ [fst b],
     draftEntries = (draftEntries d)\<lparr>peCAS := peCAS (draftEntries d) @ [snd b]\<rparr>\<rparr>"

definition addAction :: "('c \<times> bytes) \<times> manifestAction \<Rightarrow> 'c packDraft \<Rightarrow> 'c packDraft" where
  "addAction b d = \<lparr>draftBlocks = draftBlocks d @ [fst b],
     draftEntries = (draftEntries d)\<lparr>peActions := peActions (draftEntries d) @ [snd b]\<rparr>\<rparr>"

lemma fold_addCAS:
  "fold addCAS bs d = \<lparr>draftBlocks = draftBlocks d @ map fst bs,
     draftEntries = (draftEntries d)\<lparr>peCAS := peCAS (draftEntries d) @ map snd bs\<rparr>\<rparr>"
  by (induction bs arbitrary: d) (simp_all add: addCAS_def)

lemma fold_addAction:
  "fold addAction bs d = \<lparr>draftBlocks = draftBlocks d @ map fst bs,
     draftEntries = (draftEntries d)\<lparr>peActions := peActions (draftEntries d) @ map snd bs\<rparr>\<rparr>"
  by (induction bs arbitrary: d) (simp_all add: addAction_def)

lemma addCASBlocks_run:
  "forEach (addCASBlock E) ds d s = (Inr d', s') \<Longrightarrow>
     \<exists>bs w. list_all2 (casBlock E s) ds bs \<and> s' = s\<lparr>world := w\<rparr> \<and> d' = fold addCAS bs d"
  by (rule forEach_collect [where R = "casBlock E" and f = "addCASBlock E"];
      (unfold addCAS_def, erule addCASBlock_run | simp))

lemma addActionBlocks_run:
  "forEach (addActionBlock E) ds d s = (Inr d', s') \<Longrightarrow>
     \<exists>bs w. list_all2 (actionBlock E s) ds bs \<and> s' = s\<lparr>world := w\<rparr> \<and> d' = fold addAction bs d"
  by (rule forEach_collect [where R = "actionBlock E" and f = "addActionBlock E"];
      (unfold addAction_def, erule addActionBlock_run | simp))

lemma drafted:
  assumes "forEach (addCASBlock E) ds emptyDraft s = (Inr d1, s1)" and "forEach (addActionBlock E) as d1 s1 = (Inr d2, s2)"
  shows "\<exists>bs cs w. list_all2 (casBlock E s) ds bs \<and> list_all2 (actionBlock E s) as cs \<and> s2 = s\<lparr>world := w\<rparr> \<and>
    draftBlocks d2 = map fst bs @ map fst cs \<and> draftEntries d2 = \<lparr>peCAS = map snd bs, peActions = map snd cs\<rparr>"
proof -
  from addCASBlocks_run [OF assms(1)] obtain bs w where 1: "list_all2 (casBlock E s) ds bs" "s1 = s\<lparr>world := w\<rparr>"
    "d1 = \<lparr>draftBlocks = map fst bs, draftEntries = \<lparr>peCAS = map snd bs, peActions = []\<rparr>\<rparr>"
    by (auto simp: emptyDraft_def fold_addCAS)
  from addActionBlocks_run [OF assms(2)] 1 obtain cs w' where "list_all2 (actionBlock E s) as cs" "s2 = s\<lparr>world := w'\<rparr>"
    "d2 = \<lparr>draftBlocks = map fst bs @ map fst cs, draftEntries = \<lparr>peCAS = map snd bs, peActions = map snd cs\<rparr>\<rparr>"
    by (auto simp: fold_addAction)
  with 1(1) show ?thesis by force
qed

lemma fault_world: "fault E operation s = (r, s') \<Longrightarrow> \<exists>w. s' = s\<lparr>world := w\<rparr>"
  by (auto simp: fault_def split: prod.splits option.splits)

lemma writeFile_run:
  "writeFile E path data s = (Inr u, s') \<Longrightarrow> files s path = Some old \<Longrightarrow> files s' path = Some (old @ data)"
  by (auto simp: writeFile_def run_iffs appendFile_def fileContent_def dest!: fault_world)

lemma writePrivateTemp_run: "writePrivateTemp E data s = (Inr path, s') \<Longrightarrow> files s' path = Some data"
  by (auto simp: writePrivateTemp_def createTemp_def createFile_def writeFile_def appendFile_def fileContent_def run_iffs
      dest!: fault_world split: if_splits)

lemma statSize_run: "statSize E path s = (Inr n, s') \<Longrightarrow> files s path = Some data \<Longrightarrow>
    n = int (length data) \<and> (\<exists>w. s' = s\<lparr>world := w\<rparr>)"
  by (auto simp: statSize_def run_iffs fileContent_def dest!: fault_world)

lemma openFile_run: "openFile E path s = (Inr u, s') \<Longrightarrow> \<exists>w. s' = s\<lparr>world := w\<rparr>"
  by (auto simp: openFile_def run_iffs dest!: fault_world)

lemma hashFile_run: "hashFile E path s = (Inr d, s') \<Longrightarrow> files s path = Some data \<Longrightarrow>
    d = sha256_hex data \<and> (\<exists>w. s' = s\<lparr>world := w\<rparr>)"
  by (auto simp: hashFile_def run_iffs fileContent_def dest!: fault_world)

text \<open>What a pack that was built holds.\<close>

definition packHolds ::
    "('w, 'c) env \<Rightarrow> 'w server \<Rightarrow> string list \<Rightarrow> string list \<Rightarrow> packedEntries \<Rightarrow> bytes \<Rightarrow> bool" where
  "packHolds E s ds as entries archive \<longleftrightarrow> (\<exists>bs cs.
     list_all2 (casBlock E s) ds bs \<and> list_all2 (actionBlock E s) as cs \<and>
     entries = \<lparr>peCAS = map snd bs, peActions = map snd cs\<rparr> \<and> map fst bs @ map fst cs \<noteq> [] \<and>
     carWrite (envIpld E) [fst (hd (map fst bs @ map fst cs))] (map fst bs @ map fst cs) = Inr archive)"

lemma buildPackLocked_run:
  assumes "buildPackLocked E ds as s = (Inr (path, entries, packSize, packID), s')"
  shows "\<exists>archive. packHolds E s ds as entries archive \<and> packSize = int (length archive) \<and>
    packID = sha256_hex archive \<and> files s' path = Some archive"
proof -
  from assms obtain d1 s1 d2 s2 s3 archive s4 s5 s6 s7 where
    cas: "forEach (addCASBlock E) ds emptyDraft s = (Inr d1, s1)"
    and acts: "forEach (addActionBlock E) as d1 s1 = (Inr d2, s2)" and some: "draftBlocks d2 \<noteq> []"
    and temp: "writePrivateTemp E [] s2 = (Inr path, s3)"
    and archive: "carWrite (envIpld E) [fst (hd (draftBlocks d2))] (draftBlocks d2) = Inr archive"
    and wrote: "writeFile E path archive s3 = (Inr (), s4)" and stat: "statSize E path s4 = (Inr packSize, s5)"
    and opened: "openFile E path s5 = (Inr (), s6)" and hash: "hashFile E path s6 = (Inr packID, s7)"
    and closed: "fault E CloseFile s7 = (Inr (), s')" and entries: "entries = draftEntries d2"
    unfolding buildPackLocked_def by (auto simp: run_iffs)
  have content: "files s4 path = Some archive"
    using writeFile_run [OF wrote writePrivateTemp_run [OF temp]] by simp
  have "packHolds E s ds as entries archive"
    using drafted [OF cas acts] some archive entries unfolding packHolds_def by force
  moreover have "packSize = int (length archive)" "files s6 path = Some archive"
    using statSize_run [OF stat content] openFile_run [OF opened] content by auto
  ultimately show ?thesis
    using hashFile_run [OF hash] fault_world [OF closed] by auto
qed

lemma packHolds_digests:
  assumes "packHolds E s ds as entries archive"
  shows "map moDigest (peCAS entries) = ds" "map maDigest (peActions entries) = as"
proof -
  have "list_all2 (casBlock E s) ds bs \<Longrightarrow> map moDigest (map snd bs) = ds" for bs
    by (induction rule: list_all2_induct) (auto simp: casBlock_def)
  moreover have "list_all2 (actionBlock E s) as cs \<Longrightarrow> map maDigest (map snd cs) = as" for cs
    by (induction rule: list_all2_induct) (auto simp: actionBlock_def)
  ultimately show "map moDigest (peCAS entries) = ds" "map maDigest (peActions entries) = as"
    using assms by (auto simp: packHolds_def)
qed

section \<open>The pending work of a flush\<close>

lemma applyCAS_dom: "dom (psCAS (fold applyCAS obs p)) = dom (psCAS p) \<union> moDigest ` set obs"
proof (induction obs arbitrary: p)
  case (Cons ob obs)
  have "dom (psCAS (applyCAS ob p)) = insert (moDigest ob) (dom (psCAS p))"
    by (auto simp: applyCAS_def split: option.splits)
  with Cons show ?case by auto
qed simp

lemma applyManifest_dom:
  "dom (psCAS (applyManifestLocked i m p)) = dom (psCAS p) \<union> moDigest ` set (mfCAS m)"
  by (simp add: applyManifest_fields applyCAS_dom fold_field [where g = psCAS])

definition packedInv :: "'w server \<Rightarrow> bool" where
  "packedInv s \<longleftrightarrow> (\<exists>p. packs s = Some p \<and> stageInv p)"

lemma flushOneLocked_packedInv: "keeps packedInv (flushOneLocked E)"
proof (rule keepsI)
  fix s r s'
  assume inv: "packedInv s" and run: "flushOneLocked E s = (r, s')"
  let ?ds = "selectCASLocked (cfgPackSize (cfg s)) (thePacks s)"
  let ?as = "selectActionsLocked (thePacks s) (set ?ds)"
  obtain p where p: "packs s = Some p" "stageInv p" using inv by (auto simp: packedInv_def)
  note result = flushOneLocked_packs [OF run refl refl]
  show "packedInv s'"
  proof (cases "r = Inr True")
    case False
    with result inv show ?thesis by (cases r) (auto simp: packedInv_def split: bool.splits)
  next
    case True
    with result obtain pack entries m manifestID path s1 where
      build: "buildPackLocked E ?ds ?as s = (Inr (path, entries, pkSize pack, pkID pack), s1)"
      and m: "m = manifestForPackLocked (thePacks s) pack entries (set ?ds)"
      and packs: "packs s' = Some (removePendingLocked ?ds ?as (applyManifestLocked manifestID m p))"
      using p by auto
    from buildPackLocked_run [OF build] have "map moDigest (peCAS entries) = ?ds"
      by (auto dest: packHolds_digests(1))
    then have "map moDigest (mfCAS m) = ?ds" unfolding m by (simp add: manifestForPackLocked_def comp_def)
    then have "moDigest ` set (mfCAS m) = set ?ds" by (metis set_map)
    then have "stageInv (removePendingLocked ?ds ?as (applyManifestLocked manifestID m p))"
      using applyManifest_dom [of manifestID m p] p(2)
      by (intro stageInv_commit [OF p(2)]) (simp_all add: applyManifest_fields(3-7) stageInv_def)
    with packs show ?thesis by (simp add: packedInv_def)
  qed
qed

lemma flush_all_result:
  assumes "packs s = Some p" and "stageInv p" and "flush E True s = (Inr (), s')"
  shows "\<exists>p'. packs s' = Some p' \<and> psPendingCAS p' = Map.empty \<and> psPendingCASOrder p' = [] \<and>
    (\<forall>digest pa. psPendingActions p' digest = Some pa \<longrightarrow>
       (\<exists>ref \<in> set (paClosure pa). \<not> isImplicitEmptyDigest ref \<and> psCAS p' (refHash ref) = None))"
proof -
  have "packedInv s" using assms by (simp add: packedInv_def)
  from flushLoop_keeps [OF flushOneLocked_packedInv this assms(3) [unfolded flush_def]] obtain s1 where
    inv: "packedInv s1" and last: "flushOneLocked E s1 = (Inr False, s')"
    by auto
  let ?ds = "selectCASLocked (cfgPackSize (cfg s1)) (thePacks s1)"
  from flushOneLocked_packs [OF last refl refl] have s': "s' = s1" and ds: "?ds = []"
    and as: "selectActionsLocked (thePacks s1) (set ?ds) = []" by auto
  obtain p' where p': "packs s1 = Some p'" "stageInv p'" using inv by (auto simp: packedInv_def)
  have the: "thePacks s1 = p'" using p' by (simp add: thePacks_def)
  have "filter (\<lambda>d. psPendingCAS p' d \<noteq> None) (psPendingCASOrder p') = []"
    using ds unfolding selectCASLocked_def the by (simp add: selectCASFrom_empty)
  then have "dom (psPendingCAS p') = {}"
    using p'(2) unfolding stageInv_def by (auto simp: filter_empty_conv)
  then have cas: "psPendingCAS p' = Map.empty" "psPendingCASOrder p' = []"
    using p'(2) by (simp_all add: stageInv_def)
  have "\<exists>ref \<in> set (paClosure pa). \<not> isImplicitEmptyDigest ref \<and> psCAS p' (refHash ref) = None"
    if pa: "psPendingActions p' digest = Some pa" for digest pa
  proof -
    have "digest \<in> set (psPendingACOrder p')" using p'(2) pa by (auto simp: stageInv_def dom_def)
    with as ds pa have "\<not> list_all (publishable p' {}) (paClosure pa)"
      unfolding selectActionsLocked_def the by (auto simp: filter_empty_conv)
    then show ?thesis by (auto simp: publishable_def list_all_iff)
  qed
  with p'(1) cas s' show ?thesis by auto
qed

text \<open>
  C15. Closing commits everything (\<open>flush\<close> with \<open>all\<close>, from \<open>packStore.close\<close>): it always returns, and when
  it returns without an error no CAS object is pending any more, and every action that is still pending
  lacks an object of its closure in what has been published.
\<close>

theorem flush_all_commits:
  assumes "packs s = Some p" and "stageInv p" and "flush E True s = (Inr (), s')"
  shows "\<exists>p'. packs s' = Some p' \<and> psPendingCAS p' = Map.empty \<and> psPendingCASOrder p' = [] \<and>
    (\<forall>digest pa. psPendingActions p' digest = Some pa \<longrightarrow>
       (\<exists>ref \<in> set (paClosure pa). \<not> isImplicitEmptyDigest ref \<and> psCAS p' (refHash ref) = None))"
  using assms by (rule flush_all_result)

end
