(* ===== verification/Commit.thy ===== *)
theory Commit
  imports PackWrite
begin

text \<open>
  The commit protocol of the packed store, seen from the cache: a pack is uploaded before the manifest
  that names it, so that at every moment, after a failure too, each manifest in the cache can be restored.
  The contents of the cache are a set of entries that only successful or half-failed saves extend; where entries
  are evicted, it is the set of those that have been saved (see \<open>System\<close>).
\<close>

section \<open>A backend that stores\<close>

text \<open>
  Documented of the Actions cache: reading changes nothing, and a save adds its entry or nothing, whether it
  fails or not. After a save that succeeds there is an entry under the key, which may be the entry of
  another job that was faster. \<open>Backend\<close> shows this of the client in \<open>backend.go\<close>.
\<close>

definition storingBackend :: "('w, 'c) env \<Rightarrow> ('w \<Rightarrow> (string \<times> bytes) set) \<Rightarrow> bool" where
  "storingBackend E contents \<longleftrightarrow>
     (\<forall>H. closedReads E (\<lambda>w. contents w = H)) \<and>
     (\<forall>key data w r w'. envSave E key data w = (r, w') \<longrightarrow>
        (contents w' = contents w \<or> contents w' = insert (key, data) (contents w)) \<and>
        (r = None \<longrightarrow> key \<in> fst ` contents w'))"

definition stored :: "('w \<Rightarrow> (string \<times> bytes) set) \<Rightarrow> 'w server \<Rightarrow> (string \<times> bytes) set" where
  "stored contents s = contents (world s)"

lemma stored_fields [simp]:
  "stored contents (s\<lparr>published := pb\<rparr>) = stored contents s" "stored contents (count c s) = stored contents s"
  "stored contents (updatePacks f s) = stored contents s" "published (count c s) = published s"
  "published (updatePacks f s) = published s" "cfg (count c s) = cfg s"
  by (simp_all add: stored_def updatePacks_def count_def)

lemma stored_reads:
  assumes "storingBackend E contents" and "\<And>P. closedReads E P \<Longrightarrow> keeps (inWorld P) m" and "m s = (r, s')"
  shows "stored contents s' = stored contents s"
  using keepsD [OF assms(2) [of "\<lambda>w. contents w = stored contents s"] _ assms(3)] assms(1)
  by (simp add: storingBackend_def inWorld_def stored_def)

lemma world_writePrivateTemp [world_rules]:
  "closedReads E P \<Longrightarrow> keeps (inWorld P) (writePrivateTemp E data)"
  unfolding writePrivateTemp_def by (intro keeps_rules world_rules)

lemma world_buildPackLocked [world_rules]:
  "closedReads E P \<Longrightarrow> keeps (inWorld P) (buildPackLocked E ds as)"
  unfolding buildPackLocked_def addCASBlock_def addActionBlock_def by (intro keeps_rules world_rules)

lemma world_limiter_wait [world_rules]: "closedReads E P \<Longrightarrow> keeps (inWorld P) (limiter_wait E)"
  unfolding limiter_wait_def by (intro keeps_rules world_rules) simp_all

text \<open>What an upload does to the cache: nothing, or it adds its entry; the latter when it succeeds.\<close>

definition uploading ::
    "('w \<Rightarrow> (string \<times> bytes) set) \<Rightarrow> string set \<Rightarrow> nat \<Rightarrow> bytes \<Rightarrow> (string \<times> bytes) set \<Rightarrow> 'w server \<Rightarrow> bool" where
  "uploading contents P path data C t \<longleftrightarrow> published t = P \<and> fileContent t path = data \<and> stored contents t = C"

lemma uploading_keeps:
  assumes "closedReads E (\<lambda>w. contents w = C)"
  shows "keeps (uploading contents P path data C) (fault E operation)"
    and "keeps (uploading contents P path data C) (limiter_wait E)"
proof -
  let ?J = "\<lambda>t. published t = P \<and> fileContent t path = data"
  have limiter: "fileContent (t\<lparr>limiter := l\<rparr>) path = fileContent t path" "fileContent (t\<lparr>world := w\<rparr>) path = fileContent t path"
    for t :: "'a server" and l w by (simp_all add: fileContent_def)
  show "keeps (uploading contents P path data C) (fault E operation)"
    using triple_conj [OF keeps_fault [of ?J, unfolded keeps_def] world_fault [OF assms, unfolded keeps_def]]
    by (simp add: keeps_def triple_def inWorld_def stored_def uploading_def limiter)
  have "keeps ?J (limiter_wait E)"
    by (rule keeps_limiter_wait) (simp_all add: limiter)
  with world_limiter_wait [OF assms] show "keeps (uploading contents P path data C) (limiter_wait E)"
    by (simp add: keeps_def triple_def inWorld_def stored_def uploading_def)
qed

lemma publish_stored:
  assumes store: "storingBackend E contents" and content: "fileContent s path = data" and n: "n = int (length data)"
    and run: "publish E key path n s = (r, s')"
  shows "published s' = published s \<and>
    (stored contents s' = stored contents s \<or> stored contents s' = insert (key, data) (stored contents s)) \<and>
    (r = Inr () \<longrightarrow> key \<in> fst ` stored contents s')"
proof -
  let ?I = "uploading contents (published s) path data (stored contents s)"
  let ?Q = "\<lambda>t. published t = published s \<and>
      (stored contents t = stored contents s \<or> stored contents t = insert (key, data) (stored contents s))"
  have reads: "closedReads E (\<lambda>w. contents w = stored contents s)" using store by (simp add: storingBackend_def)
  note keeps = uploading_keeps [OF reads]
  have weak: "?I t \<Longrightarrow> ?Q t" for t by (simp add: uploading_def)
  have "triple ?I (publish E key path n) (\<lambda>r t. ?Q t \<and> (r = Inr () \<longrightarrow> key \<in> fst ` stored contents t))"
    unfolding publish_def acquire_def
    apply (rule triple_attempt_keeps [OF keeps(1)], simp add: weak)
    apply (rule triple_attempt_keeps [OF keeps(2)], simp add: weak)
    apply (rule triple_update [where P' = ?I], simp add: uploading_def fileContent_def count_def stored_def)
    apply (rule triple_attempt_keeps [OF keeps(1)], simp add: weak)
    apply (rule triple_reading)
    using store n by (fastforce simp: triple_def backendSave_def stored_def storingBackend_def uploading_def
        split: prod.split option.split)
  moreover have "?I s" using content by (simp add: uploading_def)
  ultimately show ?thesis using tripleD run by fast
qed

lemma publishFile_stored:
  assumes store: "storingBackend E contents" and content: "files s path = Some data" and n: "n = int (length data)"
    and run: "publishFile E key path n s = (r, s')"
  shows "(published s' = published s \<or> published s' = insert key (published s) \<and> key \<in> fst ` stored contents s') \<and>
    (stored contents s' = stored contents s \<or> stored contents s' = insert (key, data) (stored contents s)) \<and>
    (r = Inr () \<longrightarrow> key \<in> published s \<or> key \<in> fst ` stored contents s')"
proof -
  obtain q s1 where opened: "openFile E path s = (q, s1)" by (metis surj_pair)
  have s1: "stored contents s1 = stored contents s" "published s1 = published s" "files s1 = files s"
    using stored_reads [OF store world_primitives(5) opened] opened
    by (auto simp: openFile_def attempt_def andThen_def fail_def dest!: fault_world
        split: prod.splits sum.splits option.splits)
  show ?thesis
  proof (cases q)
    case (Inl e)
    with run opened s1 show ?thesis by (auto simp: publishFile_def attempt_def andThen_def)
  next
    case (Inr u)
    show ?thesis
    proof (cases "key \<in> published s")
      case True
      with run opened s1 Inr show ?thesis
        by (auto simp: publishFile_def publishOnce_def attempt_def andThen_def)
    next
      case False
      obtain q2 s2 where upload: "publish E key path n s1 = (q2, s2)" by (metis surj_pair)
      have "fileContent s1 path = data" using s1(3) content by (simp add: fileContent_def)
      from publish_stored [OF store this n upload] show ?thesis
        using run opened s1 Inr upload False
        by (cases q2) (auto simp: publishFile_def publishOnce_def attempt_def andThen_def)
    qed
  qed
qed

section \<open>Restorable caches\<close>

text \<open>
  Every manifest in the cache that decodes under the CID of its key names only packs that are in the
  cache, under the key it gives, with the SHA-256 that is the pack's ID.
\<close>

definition restorable :: "'c ipld \<Rightarrow> string \<Rightarrow> (string \<times> bytes) set \<Rightarrow> bool" where
  "restorable L keyPrefix C \<longleftrightarrow> (\<forall>manifestID data m.
     (manifestKeyFor keyPrefix manifestID, data) \<in> C \<and> decodeManifest L data manifestID = Inr m \<longrightarrow>
     (\<forall>pack \<in> set (mfPacks m). \<exists>archive. (pkKey pack, archive) \<in> C \<and> sha256_hex archive = pkID pack))"

text \<open>Packs are stored under their digest, and what this process remembers as published is there.\<close>

definition addressedPacks :: "string \<Rightarrow> (string \<times> bytes) set \<Rightarrow> bool" where
  "addressedPacks keyPrefix C \<longleftrightarrow> (\<forall>packID archive. (packKeyFor keyPrefix packID, archive) \<in> C \<longrightarrow>
     sha256_hex archive = packID)"

definition publishedPacks :: "string \<Rightarrow> string set \<Rightarrow> (string \<times> bytes) set \<Rightarrow> bool" where
  "publishedPacks keyPrefix P C \<longleftrightarrow> (\<forall>packID. packKeyFor keyPrefix packID \<in> P \<longrightarrow>
     packKeyFor keyPrefix packID \<in> fst ` C)"

lemma keys_distinct [simp]:
  "packKeyFor keyPrefix packID \<noteq> manifestKeyFor keyPrefix manifestID"
  "manifestKeyFor keyPrefix manifestID \<noteq> packKeyFor keyPrefix packID"
  "packKeyFor keyPrefix a = packKeyFor keyPrefix b \<longleftrightarrow> a = b"
  "manifestKeyFor keyPrefix c = manifestKeyFor keyPrefix d \<longleftrightarrow> c = d"
  by (auto simp: packKeyFor_def manifestKeyFor_def)

lemma restorable_insert_pack:
  "restorable L keyPrefix C \<Longrightarrow> restorable L keyPrefix (insert (packKeyFor keyPrefix packID, archive) C)"
  unfolding restorable_def by (metis Pair_inject insert_iff keys_distinct(1))

lemma addressedPacks_insert:
  "addressedPacks keyPrefix C \<Longrightarrow>
     addressedPacks keyPrefix (insert (packKeyFor keyPrefix (sha256_hex archive), archive) C)"
  "addressedPacks keyPrefix C \<Longrightarrow> addressedPacks keyPrefix (insert (manifestKeyFor keyPrefix manifestID, data) C)"
  unfolding addressedPacks_def by (auto simp: keys_distinct(3))

lemma addressed_archive:
  "addressedPacks keyPrefix C \<Longrightarrow> packKeyFor keyPrefix packID \<in> fst ` C \<Longrightarrow>
     \<exists>archive. (packKeyFor keyPrefix packID, archive) \<in> C \<and> sha256_hex archive = packID"
  unfolding addressedPacks_def by force

lemma restorable_insert_manifest:
  assumes "restorable L keyPrefix C"
    and "\<And>m. decodeManifest L data manifestID = Inr m \<Longrightarrow>
      \<forall>pack \<in> set (mfPacks m). \<exists>archive. (pkKey pack, archive) \<in> C \<and> sha256_hex archive = pkID pack"
  shows "restorable L keyPrefix (insert (manifestKeyFor keyPrefix manifestID, data) C)"
  using assms unfolding restorable_def by (metis (no_types, lifting) Pair_inject insert_iff keys_distinct(4))

lemma publishedPacks_mono: "publishedPacks keyPrefix P C \<Longrightarrow> C \<subseteq> D \<Longrightarrow> publishedPacks keyPrefix P D"
  unfolding publishedPacks_def by blast

text \<open>What a manifest of one pack decodes to has that pack.\<close>

lemma readPack_entries: "readPack (cborOrder (NMap (packEntries p))) = Inr q \<Longrightarrow> q = p"
proof -
  have d: "distinct (map fst (packEntries p))" by (simp add: packEntries_def assemble_defs)
  assume "readPack (cborOrder (NMap (packEntries p))) = Inr q"
  then show "q = p"
    unfolding readPack_def read_cborOrder [OF d]
    by (auto simp: packEntries_def assemble_defs nodeString_def nodeInt_def success_iffs split: if_splits)
qed

lemma decoded_packs:
  assumes "dagcbor_laws L" and "encodeManifest L m = Inr (data, manifestID)" and "mfPacks m = [pack]"
    and "decodeManifest L data manifestID' = Inr m'"
  shows "mfPacks m' = [pack]"
proof -
  from assms(2) have version: "mfVersion m = manifestFormatVersion"
    by (auto simp: encodeManifest_def manifestToNode_def success_iffs)
  with assms(2) have "dagcborEncode L (NMap (manifestEntries m)) = Inr data"
    by (auto simp: encodeManifest_def manifestToNode_entries success_iffs)
  with assms(1) have dec: "dagcborDecode L data = Inr (cborOrder (NMap (manifestEntries m)))"
    unfolding dagcbor_laws_def by blast
  let ?n = "cborOrder (NMap (manifestEntries m))"
  from assms(4) dec have "nodeToManifest L ?n = Inr m'"
    by (auto simp: decodeManifest_def success_iffs simp del: cborOrder.simps)
  then have packs: "nodePacks ?n = Inr (mfPacks m')"
    by (auto simp: nodeToManifest_def Let_def success_iffs)
  have "map_of (manifestEntries m) ''packs'' = Some (NList [NMap (packEntries pack)])"
    using assms(3) by (simp add: manifestEntries_def)
  then have "lookupByString ?n ''packs'' = Some (NList [cborOrder (NMap (packEntries pack))])"
    by (simp only: lookup_cborOrder [OF distinct_manifestEntries] option.map cborOrder.simps(2) list.map)
  with packs obtain q where "readPack (cborOrder (NMap (packEntries pack))) = Inr q" "mfPacks m' = [q]"
    unfolding nodePacks_def by (auto simp: success_iffs simp del: cborOrder.simps split: node.splits)
  then show ?thesis using readPack_entries by simp
qed

section \<open>Manifests never advertise what is missing\<close>

definition commitInv ::
    "('w, 'c) env \<Rightarrow> ('w \<Rightarrow> (string \<times> bytes) set) \<Rightarrow> 'w server \<Rightarrow> bool" where
  "commitInv E contents s \<longleftrightarrow> restorable (envIpld E) (cfgKeyPrefix (cfg s)) (stored contents s) \<and>
     addressedPacks (cfgKeyPrefix (cfg s)) (stored contents s) \<and>
     publishedPacks (cfgKeyPrefix (cfg s)) (published s) (stored contents s)"

definition samePublished :: "string set \<Rightarrow> config \<Rightarrow> 'w server \<Rightarrow> bool" where
  "samePublished P c s \<longleftrightarrow> published s = P \<and> cfg s = c"

lemma samePublished_fields [simp]:
  "samePublished P c (s\<lparr>world := w\<rparr>) = samePublished P c s" "samePublished P c (s\<lparr>files := fs\<rparr>) = samePublished P c s"
  "samePublished P c (s\<lparr>nextFile := k\<rparr>) = samePublished P c s"
  "samePublished P c (appendFile path data s) = samePublished P c s"
  by (simp_all add: samePublished_def appendFile_def)

lemma samePublished_fault [keeps_rules]: "keeps (samePublished P c) (fault E operation)"
  by (rule keeps_fault) simp

lemma samePublished_createFile [keeps_rules]: "keeps (samePublished P c) createFile"
  by (auto intro!: keepsI simp: createFile_def)

lemma samePublished_run:
  assumes "\<And>P c. keeps (samePublished P c) m" and "\<And>P. closedReads E P \<Longrightarrow> keeps (inWorld P) m"
    and "storingBackend E contents" and "m s = (r, s')"
  shows "published s' = published s \<and> cfg s' = cfg s \<and> stored contents s' = stored contents s"
  using keepsD [OF assms(1) _ assms(4), of "published s" "cfg s"] stored_reads [OF assms(3) assms(2) assms(4)]
  by (simp add: samePublished_def)

lemma samePublished_write: "keeps (samePublished P c) (writePrivateTemp E data)"
  unfolding writePrivateTemp_def primitive_defs by (intro keeps_rules; simp)

lemma samePublished_build: "keeps (samePublished P c) (buildPackLocked E ds as)"
  unfolding buildPackLocked_def addCASBlock_def addActionBlock_def primitive_defs
  by (intro keeps_rules samePublished_write; simp)

lemma commitPack_restorable:
  assumes store: "storingBackend E contents" and laws: "dagcbor_laws (envIpld E)" and inv: "commitInv E contents s"
    and archive: "files s packPath = Some archive" "packSize = int (length archive)" "packID = sha256_hex archive"
    and run: "commitPack E ds as (packPath, entries, packSize, packID) s = (r, s')"
  shows "commitInv E contents s'"
proof -
  let ?prefix = "cfgKeyPrefix (cfg s)" and ?L = "envIpld E"
  let ?pack = "\<lparr>pkID = packID, pkKey = packKeyFor ?prefix packID, pkSize = packSize\<rparr>"
  have R: "restorable ?L ?prefix (stored contents s)" "publishedPacks ?prefix (published s) (stored contents s)"
    "addressedPacks ?prefix (stored contents s)"
    using inv by (auto simp: commitInv_def)
  obtain r1 s1 where first: "publishFile E (pkKey ?pack) packPath packSize s = (r1, s1)" by (metis surj_pair)
  have cfg1: "cfg s1 = cfg s" using samePacks_run [OF samePacks_publishFile first] by simp
  from publishFile_stored [OF store archive(1,2) first]
  have P1: "published s1 = published s \<or>
      published s1 = insert (packKeyFor ?prefix packID) (published s) \<and> packKeyFor ?prefix packID \<in> fst ` stored contents s1"
    and C1: "stored contents s1 = stored contents s \<or>
      stored contents s1 = insert (packKeyFor ?prefix packID, archive) (stored contents s)"
    and ok1: "r1 = Inr () \<Longrightarrow> packKeyFor ?prefix packID \<in> published s \<or> packKeyFor ?prefix packID \<in> fst ` stored contents s1"
    by auto
  have R1: "restorable ?L ?prefix (stored contents s1)"
    using C1 R(1) restorable_insert_pack by metis
  have K1: "publishedPacks ?prefix (published s1) (stored contents s1)"
  proof -
    have "stored contents s \<subseteq> stored contents s1" using C1 by auto
    then have "publishedPacks ?prefix (published s) (stored contents s1)" using R(2) publishedPacks_mono by blast
    with P1 show ?thesis unfolding publishedPacks_def by (metis insert_iff keys_distinct(3))
  qed
  have A1: "addressedPacks ?prefix (stored contents s1)"
    using C1 R(3) addressedPacks_insert(1) archive(3) by metis
  have inv1: "commitInv E contents s1" using R1 K1 A1 cfg1 by (simp add: commitInv_def)
  show ?thesis
  proof (cases r1)
    case (Inl e)
    with run first inv1 show ?thesis by (simp add: commitPack_def Let_def attempt_def andThen_def)
  next
    case (Inr u)
    let ?t = "count PackUploads s1"
    let ?m = "manifestForPackLocked (thePacks ?t) ?pack entries (set ds)"
    have inv2: "commitInv E contents ?t" using inv1 by (simp add: commitInv_def count_def stored_def)
    have packed: "\<exists>archive. (pkKey ?pack, archive) \<in> stored contents s1 \<and> sha256_hex archive = pkID ?pack"
      using ok1 Inr R(2) C1 addressed_archive [OF A1, of packID] unfolding publishedPacks_def by auto
    show ?thesis
    proof (cases "encodeManifest ?L ?m")
      case (Inl e)
      with run first Inr inv2 show ?thesis by (simp add: commitPack_def Let_def attempt_def andThen_def)
    next
      case enc: (Inr em)
      obtain data manifestID where em: "em = (data, manifestID)" by (cases em)
      obtain r2 s2 where second: "writePrivateTemp E data ?t = (r2, s2)" by (metis surj_pair)
      have s2: "published s2 = published s1" "cfg s2 = cfg s" "stored contents s2 = stored contents s1"
        using samePublished_run [OF samePublished_write world_writePrivateTemp store second] cfg1
        by auto
      have inv3: "commitInv E contents s2" using inv1 s2 cfg1 by (simp add: commitInv_def)
      show ?thesis
      proof (cases r2)
        case (Inl e)
        with run first Inr enc em second inv3 show ?thesis by (simp add: commitPack_def Let_def attempt_def andThen_def)
      next
        case write2: (Inr manifestPath)
        obtain r3 s3 where third: "publishFile E (manifestKeyFor ?prefix manifestID) manifestPath
            (int (length data)) s2 = (r3, s3)" by (metis surj_pair)
        have file2: "files s2 manifestPath = Some data" using writePrivateTemp_run second write2 by blast
        have cfg3: "cfg s3 = cfg s" using samePacks_run [OF samePacks_publishFile third] s2 by simp
        from publishFile_stored [OF store file2 refl third]
        have P3: "published s3 = published s1 \<or> published s3 = insert (manifestKeyFor ?prefix manifestID) (published s1)"
          and C3: "stored contents s3 = stored contents s1 \<or>
            stored contents s3 = insert (manifestKeyFor ?prefix manifestID, data) (stored contents s1)"
          unfolding s2 by auto
        have "\<forall>pack \<in> set (mfPacks m). \<exists>archive. (pkKey pack, archive) \<in> stored contents s1 \<and> sha256_hex archive = pkID pack"
          if "decodeManifest ?L data manifestID = Inr m" for m
        proof -
          have "mfPacks ?m = [?pack]" by (simp add: manifestForPackLocked_def)
          from decoded_packs [OF laws enc [unfolded em] this that] packed show ?thesis by simp
        qed
        then have R3: "restorable ?L ?prefix (stored contents s3)"
          using C3 R1 restorable_insert_manifest by metis
        have "publishedPacks ?prefix (published s3) (stored contents s1)"
          using P3 K1 by (auto simp: publishedPacks_def)
        then have K3: "publishedPacks ?prefix (published s3) (stored contents s3)"
          using C3 publishedPacks_mono by blast
        have "addressedPacks ?prefix (stored contents s3)" using C3 A1 addressedPacks_insert(2) by metis
        then have inv4: "commitInv E contents s3" using R3 K3 cfg3 by (simp add: commitInv_def)
        have upd: "commitInv E contents (updatePacks f (count c t)) = commitInv E contents t" for f c t
          by (simp add: commitInv_def updatePacks_def count_def stored_def)
        from run first Inr enc em second write2 third have "s' = s3 \<or> (\<exists>f. s' = updatePacks f (count ManifestUploads s3))"
          by (cases r3) (auto simp: commitPack_def Let_def attempt_def andThen_def cfg1 [symmetric])
        with inv4 upd show ?thesis by metis
      qed
    qed
  qed
qed

lemma flushOneLocked_commitInv:
  assumes "storingBackend E contents" and "dagcbor_laws (envIpld E)"
  shows "keeps (commitInv E contents) (flushOneLocked E)"
proof (rule keepsI)
  fix s r s'
  assume inv: "commitInv E contents s" and run: "flushOneLocked E s = (r, s')"
  let ?ds = "selectCASLocked (cfgPackSize (cfg s)) (thePacks s)"
  let ?as = "selectActionsLocked (thePacks s) (set ?ds)"
  obtain b s1 where build: "buildPackLocked E ?ds ?as s = (b, s1)" by (metis surj_pair)
  have inv1: "commitInv E contents s1"
    using samePublished_run [OF samePublished_build world_buildPackLocked assms(1) build] inv
    by (simp add: commitInv_def)
  show "commitInv E contents s'"
  proof (cases b)
    case (Inl e)
    with run build inv inv1 show ?thesis
      by (auto simp: flushOneLocked_def attempt_def andThen_def split: if_splits)
  next
    case (Inr built)
    obtain path entries packSize packID where built: "built = (path, entries, packSize, packID)" by (cases built)
    from buildPackLocked_run [OF build [unfolded Inr built]] obtain archive where
      archive: "files s1 path = Some archive" "packSize = int (length archive)" "packID = sha256_hex archive" by blast
    note commit = commitPack_restorable [OF assms(1,2) inv1 archive]
    from run build Inr built inv show ?thesis
      by (auto simp: flushOneLocked_def attempt_def andThen_def split: if_splits dest: commit)
  qed
qed

lemma keeps_flush_cfg: "keeps (\<lambda>t. cfg t = c) (flush E all)"
proof (rule keeps_flush, rule keepsI)
  fix s r s'
  assume "cfg s = c" and "flushOneLocked E s = (r, s')"
  then show "cfg s' = c" using flushOneLocked_packs [OF _ refl refl] by metis
qed


section \<open>Published actions have published closures\<close>

lemma fold_applyAction_new:
  "psActions (fold applyAction as p) d = Some a \<Longrightarrow> psActions p d = Some a \<or> a \<in> set as \<and> maDigest a = d"
proof (induction as arbitrary: p)
  case (Cons x as)
  then have "psActions (applyAction x p) d = Some a \<or> a \<in> set as \<and> maDigest a = d" by simp
  then show ?case by (auto simp: applyAction_def split: option.splits if_splits)
qed simp

lemma casPack_committed:
  assumes "digest \<in> dom (psCAS p) \<union> set ds" and "dom (psCAS p) \<inter> set ds = {}"
    and "map moDigest (mfCAS m) = ds" and "\<forall>ob \<in> set (mfCAS m). moPackID ob = packID"
  shows "casPack (applyManifestLocked i m p) digest = (if digest \<in> set ds then Some packID else casPack p digest)"
proof (cases "digest \<in> set ds")
  case True
  then have "casPack p digest = None" using assms(2) by (auto simp: casPack_def)
  moreover have "manifestCAS digest m = {packID}"
    using True assms(3,4) unfolding manifestCAS_def by fastforce
  ultimately show ?thesis using True by (simp add: casPack_applyManifest leastOf_def)
next
  case False
  then have "manifestCAS digest m = {}" using assms(3) by (auto simp: manifestCAS_def)
  with False show ?thesis by (simp add: casPack_applyManifest)
qed

lemma list_all2_right: "list_all2 P xs ys \<Longrightarrow> y \<in> set ys \<Longrightarrow> \<exists>x \<in> set xs. P x y"
  by (induction rule: list_all2_induct) auto

text \<open>
  C17. A published action result can be restored in full (\<open>flushOneLocked\<close>): every action that a flush adds
  was pending with its validated closure, and each CAS object of that closure that is not the empty one
  is published, in a pack that the action's manifest entry lists.
\<close>

theorem flush_action_closure:
  assumes "packs s = Some p" and "stageInv p" and "flushOneLocked E s = (Inr True, s')"
    and "psActions p digest = None" and "psActions (thePacks s') digest = Some a"
  shows "\<exists>pa. psPendingActions p digest = Some pa \<and> maCID a = paCID pa \<and>
    (\<forall>ref \<in> set (paClosure pa). isImplicitEmptyDigest ref \<or>
       (\<exists>ob. psCAS (thePacks s') (refHash ref) = Some ob \<and> moPackID ob \<in> set (maClosurePacks a)))"
proof -
  let ?ds = "selectCASLocked (cfgPackSize (cfg s)) p" and ?as = "selectActionsLocked p (set (selectCASLocked (cfgPackSize (cfg s)) p))"
  have the: "thePacks s = p" using assms(1) by (simp add: thePacks_def)
  from flushOneLocked_packs [OF assms(3) refl refl] obtain pack entries m manifestID path s1 where
    build: "buildPackLocked E ?ds ?as s = (Inr (path, entries, pkSize pack, pkID pack), s1)"
    and m: "m = manifestForPackLocked p pack entries (set ?ds)"
    and p': "thePacks s' = removePendingLocked ?ds ?as (applyManifestLocked manifestID m p)"
    unfolding the using assms(1) by (auto simp: thePacks_def)
  from buildPackLocked_run [OF build] obtain archive where holds: "packHolds E s ?ds ?as entries archive" by blast
  have cas: "map moDigest (mfCAS m) = ?ds" "\<forall>ob \<in> set (mfCAS m). moPackID ob = pkID pack"
    using packHolds_digests(1) [OF holds] unfolding m by (auto simp: manifestForPackLocked_def comp_def)
  have "psActions (applyManifestLocked manifestID m p) digest = Some a"
    using assms(5) by (simp add: p' removePending_fields)
  then have "a \<in> set (mfActions m)" "maDigest a = digest"
    using fold_applyAction_new assms(4)
    by (fastforce simp: applyManifest_fields fold_field [where g = psActions])+
  then obtain e where e: "e \<in> set (peActions entries)" "maDigest e = digest" and
    a: "maCID a = maCID e" "maClosurePacks a = sortedStrings (concat (map (closurePack p (pkID pack) (set ?ds))
      (case psPendingActions p digest of None \<Rightarrow> [] | Some pending \<Rightarrow> paClosure pending)))"
    unfolding m by (auto simp: manifestForPackLocked_def)
  have "digest \<in> set ?as" using packHolds_digests(2) [OF holds] e by (metis image_eqI set_map)
  then obtain pa where pa: "psPendingActions p digest = Some pa" "list_all (publishable p (set ?ds)) (paClosure pa)"
    by (auto simp: selectActionsLocked_def split: option.splits)
  obtain bs cs where "list_all2 (actionBlock E s) ?as cs" "peActions entries = map snd cs"
    using holds by (auto simp: packHolds_def)
  moreover from this e(1) obtain c where "c \<in> set cs" "snd c = e" by auto
  ultimately obtain d where "actionBlock E s d c" "snd c = e" by (blast dest: list_all2_right)
  then have "maCID e = paCID pa" using e(2) pa(1) the by (auto simp: actionBlock_def)
  moreover have "isImplicitEmptyDigest ref \<or>
      (\<exists>ob. psCAS (thePacks s') (refHash ref) = Some ob \<and> moPackID ob \<in> set (maClosurePacks a))"
    if ref: "ref \<in> set (paClosure pa)" for ref
  proof (cases "isImplicitEmptyDigest ref")
    case False
    have sub: "set ?ds \<subseteq> dom (psPendingCAS p)"
      unfolding selectCASLocked_def using selectCASFrom_subset by fastforce
    then have disjoint: "dom (psCAS p) \<inter> set ?ds = {}" using assms(2) by (auto simp: stageInv_def)
    have here: "refHash ref \<in> dom (psCAS p) \<union> set ?ds"
      using pa(2) ref False by (auto simp: publishable_def list_all_iff)
    have found: "casPack (thePacks s') (refHash ref) =
        (if refHash ref \<in> set ?ds then Some (pkID pack) else casPack p (refHash ref))"
      using casPack_committed [OF here disjoint cas, of manifestID]
      by (simp add: p' casPack_def removePending_fields)
    have "set (closurePack p (pkID pack) (set ?ds) ref) =
        {if refHash ref \<in> set ?ds then pkID pack else moPackID (the (psCAS p (refHash ref)))}"
      using here False by (auto simp: closurePack_def)
    moreover have "set (closurePack p (pkID pack) (set ?ds) ref) \<subseteq> set (maClosurePacks a)"
      using ref pa(1) by (auto simp: a(2) sortedStrings_def)
    ultimately show ?thesis
      using found here by (auto simp: casPack_def split: if_splits)
  qed simp
  ultimately show ?thesis using pa(1) a(1) by auto
qed

end
