(* ===== verification/PackExamples.thy ===== *)
theory PackExamples
  imports Examples Commit
begin

text \<open>
  Concrete instances for the packed store: a backend that stores, a store with one pending CAS object and
  one pending action that refers to it, its flush, and manifests that are merged in two orders.
\<close>

section \<open>A selection\<close>

definition twoPending :: packStore where
  "twoPending = emptyPackStore\<lparr>
     psPendingCAS := [''a'' \<mapsto> \<lparr>objPath = 0, objSize = 3\<rparr>, ''b'' \<mapsto> \<lparr>objPath = 1, objSize = 4\<rparr>],
     psPendingCASOrder := [''a'', ''b'']\<rparr>"

theorem selectCASLocked_bounded_witness:
  "selectCASLocked 5 twoPending = [''a''] \<and>
    (totalSize (psPendingCAS twoPending) [''a''] \<le> 5 \<or> length [''a''] \<le> 1) \<and>
    (\<exists>later. filter (\<lambda>d. psPendingCAS twoPending d \<noteq> None) (psPendingCASOrder twoPending) = [''a''] @ later)"
proof -
  have order: "distinct (psPendingCASOrder twoPending)" by (simp add: twoPending_def)
  have selected: "selectCASLocked 5 twoPending = [''a'']"
    by (simp add: twoPending_def emptyPackStore_def selectCASLocked_def)
  from selectCASLocked_bounded [OF order, of 5] selected show ?thesis unfolding Let_def by metis
qed

section \<open>Merging manifests\<close>

text \<open>A second manifest that gives another content CID for the same action.\<close>

definition rivalManifest :: manifest where
  "rivalManifest = exampleManifest\<lparr>mfActions := [\<lparr>maDigest = exampleHash, maCID = ''other'',
     maPackID = examplePackID, maSize = 9, maClosurePacks = [examplePackID]\<rparr>]\<rparr>"

definition bothManifests :: "(string \<times> manifest) list" where
  "bothManifests = [(''m1'', exampleManifest), (''m2'', rivalManifest)]"

theorem applyManifest_order_independent_witness:
  "visibleAction (applyAll bothManifests emptyPackStore) exampleHash =
     visibleAction (applyAll (rev bothManifests) emptyPackStore) exampleHash"
proof -
  have "set bothManifests = set (rev bothManifests)" by simp
  from applyManifest_order_independent [OF this] show ?thesis by simp
qed

definition packedServer :: "packStore \<Rightarrow> (nat \<rightharpoonup> bytes) \<Rightarrow> nat \<Rightarrow> 'w \<Rightarrow> 'w server" where
  "packedServer p fs n w = \<lparr>cfg = exampleConfig\<lparr>cfgCatalog := True, cfgStorageMode := ''packs'', cfgPackSize := 100\<rparr>,
     stats = counters0, objects = Map.empty, published = {}, limiter = newIntervalLimiter 100,
     packs = Some p, files = fs, nextFile = n, world = w\<rparr>"

theorem applyManifest_conflict_witness:
  "packs_resolve oneObject (objectKey ''repo'' ''ac'' exampleHash) ''ac'' exampleHash
     (packedServer (applyAll bothManifests emptyPackStore) Map.empty 0 ())
   = (Inr None, count ActionDigestConflicts (packedServer (applyAll bothManifests emptyPackStore) Map.empty 0 ()))"
proof -
  have "(''m1'', exampleManifest) \<in> set bothManifests" "(''m2'', rivalManifest) \<in> set bothManifests"
    by (simp_all add: bothManifests_def)
  moreover have "exampleCID \<noteq> ''other''"
    by (rule notI, drule arg_cong [where f = length]) (simp add: exampleCID_def)
  ultimately show ?thesis
    using applyManifest_conflict [of "(''m1'', exampleManifest)" bothManifests "(''m2'', rivalManifest)"
        "hd (mfActions exampleManifest)" "hd (mfActions rivalManifest)" exampleHash
        "packedServer (applyAll bothManifests emptyPackStore) Map.empty 0 ()" emptyPackStore
        "objectKey ''repo'' ''ac'' exampleHash" oneObject]
    by (simp add: exampleManifest_def rivalManifest_def packedServer_def)
qed

section \<open>A flush\<close>

text \<open>The world is what has been saved.\<close>

definition storeEnv :: "node list \<Rightarrow> ((string \<times> bytes) set, bytes) env" where
  "storeEnv nodes = \<lparr>
     envFault = (\<lambda>_ w. (None, w)), envNow = (\<lambda>w. (0, w)),
     envExists = (\<lambda>key w. (Inr (key \<in> fst ` w), w)),
     envLoad = (\<lambda>key w. (([], Inr False), w)),
     envSave = (\<lambda>key data w. (None, insert (key, data) w)), envList = (\<lambda>_ _ w. (Inr [], w)),
     envWire = exampleWire, envIpld = exampleIpld nodes\<rparr>"

lemma storeEnv_stores: "storingBackend (storeEnv nodes) (\<lambda>w. w)"
  by (auto simp: storingBackend_def closedReads_def storeEnv_def)

definition pendingStore :: packStore where
  "pendingStore = emptyPackStore\<lparr>
     psPendingCAS := [exampleHash \<mapsto> \<lparr>objPath = 0, objSize = 5\<rparr>], psPendingCASOrder := [exampleHash],
     psPendingActions := [examplePackID \<mapsto>
       \<lparr>paObject = \<lparr>objPath = 1, objSize = 2\<rparr>, paClosure = [exampleReference], paCID = ''action''\<rparr>],
     psPendingACOrder := [examplePackID], psPendingBytes := 7\<rparr>"

lemma pendingStore_inv: "stageInv pendingStore"
  by (auto simp: stageInv_def pendingStore_def emptyPackStore_def)

definition pendingServer :: "(string \<times> bytes) set server" where
  "pendingServer = packedServer pendingStore [0 \<mapsto> [1, 2, 3, 4, 5], 1 \<mapsto> [6, 7]] 2 {}"

text \<open>What the flush makes of it: one archive with both blocks, and the manifest of this pack.\<close>

definition flushedArchive :: bytes where
  "flushedArchive = (32 # replicate 32 170 @ [5, 1, 2, 3, 4, 5]) @ (6 # bytesOfString ''action'' @ [2, 6, 7])"

definition flushedPack :: packDescriptor where
  "flushedPack = \<lparr>pkID = sha256_hex flushedArchive, pkKey = packKeyFor ''repo'' (sha256_hex flushedArchive),
     pkSize = int (length flushedArchive)\<rparr>"

definition flushedManifest :: manifest where
  "flushedManifest = manifestForPackLocked pendingStore flushedPack
     \<lparr>peCAS = [\<lparr>moDigest = exampleHash, moCID = exampleCID, moPackID = [], moSize = 5\<rparr>],
      peActions = [\<lparr>maDigest = examplePackID, maCID = ''action'', maPackID = [], maSize = 2, maClosurePacks = []\<rparr>]\<rparr>
     {exampleHash}"

definition flushEnv :: "((string \<times> bytes) set, bytes) env" where
  "flushEnv = storeEnv (case manifestToNode flushedManifest of Inl _ \<Rightarrow> [] | Inr n \<Rightarrow> [n])"

lemma flushedManifest_encoded:
  "encodeManifest (envIpld flushEnv) flushedManifest = Inr ([0], stringOfBytes [1, 0])"
proof -
  obtain n where n: "manifestToNode flushedManifest = Inr n"
    by (simp add: manifestToNode_def flushedManifest_def manifestForPackLocked_def manifestFormatVersion_def)
  then show ?thesis
    by (simp add: encodeManifest_def flushEnv_def storeEnv_def exampleIpld_def dagCBORCID_def)
qed

lemma pendingServer_selects:
  "selectCASLocked 100 pendingStore = [exampleHash]"
  "selectActionsLocked pendingStore {exampleHash} = [examplePackID]"
  by (simp_all add: pendingStore_def emptyPackStore_def selectCASLocked_def selectActionsLocked_def publishable_def
      exampleReference_def)

definition flushedEntries :: packedEntries where
  "flushedEntries = \<lparr>peCAS = [\<lparr>moDigest = exampleHash, moCID = exampleCID, moPackID = [], moSize = 5\<rparr>],
     peActions = [\<lparr>maDigest = examplePackID, maCID = ''action'', maPackID = [], maSize = 2, maClosurePacks = []\<rparr>]\<rparr>"

definition builtServer :: "(string \<times> bytes) set server" where
  "builtServer = pendingServer\<lparr>files := (files pendingServer)(2 \<mapsto> flushedArchive), nextFile := 3\<rparr>"

lemma length_bytesOfString: "length (bytesOfString s) = length s"
  by (simp add: bytesOfString_def)

lemmas run_defs = readFile_def fault_def flushEnv_def storeEnv_def attempt_def andThen_def library_def
  writePrivateTemp_def createTemp_def createFile_def writeFile_def appendFile_def statSize_def openFile_def
  hashFile_def fileContent_def

lemma pendingServer_builds:
  "buildPackLocked flushEnv [exampleHash] [examplePackID] pendingServer
    = (Inr (2, flushedEntries, int (length flushedArchive), sha256_hex flushedArchive), builtServer)"
  by (simp add: buildPackLocked_def addCASBlock_def addActionBlock_def emptyDraft_def pendingServer_def
      packedServer_def thePacks_def pendingStore_def run_defs rawCIDForDigest_def example_digests
      exampleHash_decodes exampleIpld_def flushedArchive_def exampleCID_def flushedEntries_def builtServer_def
      length_bytesOfString eval_nat_numeral)

lemma waits_quietly:
  assumes fault: "\<And>operation t. fault E operation t = (Inr (), t)" and clock: "\<And>t. clockNow E t = (0, t)"
  shows "\<exists>b l. limiter_wait E s = (Inr b, s\<lparr>limiter := l\<rparr>)"
proof -
  obtain slot l where reserve: "limiter_reserve 0 (limiter s) = (slot, l)" by (metis surj_pair)
  have "limiter_wait E s = (if limInterval (limiter s) = 0 then (Inr False, s\<lparr>limiter := limiter s\<rparr>)
      else (Inr (\<not> slot \<le> 0), s\<lparr>limiter := l\<rparr>))"
    by (simp add: limiter_wait_def attempt_def andThen_def fault clock reserve)
  then show ?thesis by (metis (full_types))
qed

lemma waits: "\<exists>b l. limiter_wait flushEnv s = (Inr b, s\<lparr>limiter := l\<rparr>)"
  by (rule waits_quietly) (simp_all add: fault_def clockNow_def flushEnv_def storeEnv_def)

lemma publishes:
  assumes "files s path = Some data" and "key \<notin> published s"
  shows "\<exists>s1. publishFile flushEnv key path n s = (Inr (), s1) \<and> packs s1 = packs s \<and> cfg s1 = cfg s \<and>
    files s1 = files s \<and> nextFile s1 = nextFile s \<and> published s1 = insert key (published s) \<and>
    world s1 = insert (key, take (nat n) data) (world s)"
proof -
  obtain b l where wait: "limiter_wait flushEnv s = (Inr b, s\<lparr>limiter := l\<rparr>)" using waits by blast
  have fault: "fault flushEnv operation t = (Inr (), t)" for operation t
    by (simp add: fault_def flushEnv_def storeEnv_def)
  have save: "backendSave flushEnv k d t = (Inr (), t\<lparr>world := insert (k, d) (world t)\<rparr>)" for k d t
    by (simp add: backendSave_def flushEnv_def storeEnv_def)
  let ?s1 = "(if b then count ThrottleWaits else id) (s\<lparr>limiter := l\<rparr>)"
  have content: "fileContent ?s1 path = data" using assms by (simp add: fileContent_def count_def)
  have "publish flushEnv key path n s = (Inr (), ?s1\<lparr>world := insert (key, take (nat n) data) (world ?s1)\<rparr>)"
    unfolding publish_def acquire_def attempt_def andThen_def
    by (simp add: fault wait save content del: if_split)
  then show ?thesis
    using assms by (simp add: publishFile_def publishOnce_def openFile_def attempt_def andThen_def fault count_def)
qed

lemma pendingServer_flushes:
  obtains s' where "flushOneLocked flushEnv pendingServer = (Inr True, s')"
    "packs s' = Some (removePendingLocked [exampleHash] [examplePackID]
       (applyManifestLocked (stringOfBytes [1, 0]) flushedManifest pendingStore))"
proof -
  have fields: "cfgPackSize (cfg pendingServer) = 100" "thePacks pendingServer = pendingStore"
    "cfgKeyPrefix (cfg builtServer) = ''repo''" "packs builtServer = Some pendingStore"
    "files builtServer 2 = Some flushedArchive" "published builtServer = {}"
    by (simp_all add: pendingServer_def packedServer_def thePacks_def builtServer_def exampleConfig_def)
  obtain s1 where s1: "publishFile flushEnv (pkKey flushedPack) 2 (int (length flushedArchive)) builtServer = (Inr (), s1)"
    "packs s1 = Some pendingStore" "cfg s1 = cfg builtServer" "published s1 = {pkKey flushedPack}"
    using publishes [OF fields(5), of "pkKey flushedPack" "int (length flushedArchive)"] fields by auto
  have first: "publishFile flushEnv (packKeyFor ''repo'' (sha256_hex flushedArchive)) 2
      (int (length flushedArchive)) builtServer = (Inr (), s1)"
    using s1(1) by (simp add: flushedPack_def)
  let ?s1 = "count PackUploads s1"
  let ?s2 = "?s1\<lparr>files := (files ?s1)(nextFile ?s1 \<mapsto> [0]), nextFile := Suc (nextFile ?s1)\<rparr>"
  have temp: "writePrivateTemp flushEnv [0] ?s1 = (Inr (nextFile ?s1), ?s2)"
    by (simp add: run_defs)
  have "files ?s2 (nextFile ?s1) = Some [0]" by simp
  moreover have "manifestKeyFor ''repo'' (stringOfBytes [1, 0]) \<notin> published ?s2"
    using s1(4) by (simp add: flushedPack_def count_def)
  ultimately obtain s3 where s3: "publishFile flushEnv (manifestKeyFor ''repo'' (stringOfBytes [1, 0])) (nextFile ?s1) 1 ?s2
      = (Inr (), s3)" "packs s3 = packs ?s2"
    using publishes [of ?s2 "nextFile ?s1" "[0]" _ 1] by blast
  have packs: "packs s3 = Some pendingStore" using s3(2) s1(2) by (simp add: count_def)
  have the: "thePacks (count PackUploads s1) = pendingStore" using s1(2) by (simp add: thePacks_def count_def)
  have "commitPack flushEnv [exampleHash] [examplePackID]
      (2, flushedEntries, int (length flushedArchive), sha256_hex flushedArchive) builtServer
    = (Inr True, updatePacks (\<lambda>p. removePendingLocked [exampleHash] [examplePackID]
       (applyManifestLocked (stringOfBytes [1, 0]) flushedManifest p)) (count ManifestUploads s3))"
    using first temp s3(1) flushedManifest_encoded fields(3)
    by (simp add: commitPack_def attempt_def andThen_def the flushedManifest_def flushedPack_def
        flushedEntries_def Let_def)
  moreover have "flushOneLocked flushEnv pendingServer = commitPack flushEnv [exampleHash] [examplePackID]
      (2, flushedEntries, int (length flushedArchive), sha256_hex flushedArchive) builtServer"
    using pendingServer_selects pendingServer_builds fields
    by (simp add: flushOneLocked_def attempt_def andThen_def)
  ultimately show thesis
    using that packs by (simp add: updatePacks_def count_def)
qed

lemma flushed_empty:
  "selectCASLocked n (removePendingLocked [exampleHash] [examplePackID]
     (applyManifestLocked i flushedManifest pendingStore)) = []"
  "selectActionsLocked (removePendingLocked [exampleHash] [examplePackID]
     (applyManifestLocked i flushedManifest pendingStore)) {} = []"
proof -
  let ?p = "removePendingLocked [exampleHash] [examplePackID] (applyManifestLocked i flushedManifest pendingStore)"
  have "psPendingCAS ?p = Map.empty" "psPendingActions ?p = Map.empty"
    by (simp_all add: removePending_fields applyManifest_fields pendingStore_def)
  then show "selectCASLocked n ?p = []" "selectActionsLocked ?p {} = []"
    by (simp_all add: selectCASLocked_def selectCASFrom_empty selectActionsLocked_def)
qed

lemma pendingServer_closes:
  obtains s' where "flush flushEnv True pendingServer = (Inr (), s')"
    "flushOneLocked flushEnv pendingServer = (Inr True, s')"
proof -
  obtain s' where run: "flushOneLocked flushEnv pendingServer = (Inr True, s')"
    and packs: "packs s' = Some (removePendingLocked [exampleHash] [examplePackID]
       (applyManifestLocked (stringOfBytes [1, 0]) flushedManifest pendingStore))"
    by (rule pendingServer_flushes)
  have "flushOneLocked flushEnv s' = (Inr False, s')"
    by (simp add: flushOneLocked_def thePacks_def packs flushed_empty)
  with run have "flush flushEnv True pendingServer = (Inr (), s')"
    by (simp add: flush_def flushLoop.simps [of _ _ pendingServer] flushLoop.simps [of _ _ s'])
  with run that show thesis by blast
qed

lemma pendingServer_packs: "packs pendingServer = Some pendingStore"
  by (simp add: pendingServer_def packedServer_def)

theorem flush_all_commits_witness:
  "\<exists>s' p'. flush flushEnv True pendingServer = (Inr (), s') \<and> packs s' = Some p' \<and> psPendingCAS p' = Map.empty"
  using flush_all_commits [OF pendingServer_packs pendingStore_inv] pendingServer_closes by metis

lemma flushEnv_laws: "dagcbor_laws (envIpld flushEnv)"
  unfolding flushEnv_def storeEnv_def env.simps by (rule exampleIpld_laws) (simp split: sum.split)


theorem flush_action_closure_witness:
  "\<exists>s' a ob. flushOneLocked flushEnv pendingServer = (Inr True, s') \<and> psActions (thePacks s') examplePackID = Some a \<and>
     psCAS (thePacks s') exampleHash = Some ob \<and> moPackID ob \<in> set (maClosurePacks a)"
proof -
  obtain s' where run: "flushOneLocked flushEnv pendingServer = (Inr True, s')"
    and packs: "packs s' = Some (removePendingLocked [exampleHash] [examplePackID]
       (applyManifestLocked (stringOfBytes [1, 0]) flushedManifest pendingStore))"
    by (rule pendingServer_flushes)
  obtain a where a: "psActions (thePacks s') examplePackID = Some a"
    by (simp add: thePacks_def packs removePending_fields applyManifestLocked_def Let_def flushedManifest_def
        manifestForPackLocked_def applyAction_def applyCAS_def applyPack_def pendingStore_def emptyPackStore_def)
  have "psActions pendingStore examplePackID = None" by (simp add: pendingStore_def emptyPackStore_def)
  from flush_action_closure [OF pendingServer_packs pendingStore_inv run this a] run a show ?thesis
    using exampleReference_not_empty
    by (auto simp: pendingStore_def exampleReference_def)
qed

end
