(* ===== verification/Http.thy ===== *)
theory Http
  imports PackWrite
begin

text \<open>
  The HTTP handlers of \<open>server.go\<close>: \<open>serveHTTP\<close>, \<open>parseObjectPath\<close>, \<open>handleRead\<close>, \<open>handlePut\<close>,
  \<open>handlePackedActionValidationError\<close>, \<open>handleSaveError\<close>, \<open>handleShutdown\<close>,
  \<open>handleImplicitEmptyCASRead\<close>, \<open>reject\<close>. A handler takes a request and returns what it has written to the
  \<open>ResponseWriter\<close>; the log is not modelled.
\<close>

section \<open>Requests and responses\<close>

text \<open>
  The body of a request arrives in chunks and can break with an error after the last one.
  \<open>reqTakes\<close> is the number of bytes after which the client stops reading the response, if it does.
\<close>

record request =
  reqMethod :: string
  reqPath :: string
  reqContentEncoding :: string
  reqContentLength :: int
  reqShutdownToken :: string
  reqBody :: "bytes list"
  reqBodyError :: "string option"
  reqTakes :: "nat option"

record response =
  rsStatus :: nat
  rsHeaders :: "(string \<times> string) list"
  rsBody :: bytes
  rsBroken :: bool \<comment> \<open>the body ended early\<close>
  rsShutdown :: bool \<comment> \<open>the \<open>Shutdown\<close> callback has been started\<close>

definition respond :: "nat \<Rightarrow> (string \<times> string) list \<Rightarrow> bytes \<Rightarrow> response" where
  "respond status headers body =
     \<lparr>rsStatus = status, rsHeaders = headers, rsBody = body, rsBroken = False, rsShutdown = False\<rparr>"

text \<open>\<open>http.Error\<close> and \<open>http.NotFound\<close>: the message on a line of plain text.\<close>

definition httpErrorWith :: "(string \<times> string) list \<Rightarrow> string \<Rightarrow> nat \<Rightarrow> response" where
  "httpErrorWith headers message status =
     respond status (headers @ [(''Content-Type'', ''text/plain; charset=utf-8''),
       (''X-Content-Type-Options'', ''nosniff'')]) (bytesOfString message @ [10])"

definition httpError :: "string \<Rightarrow> nat \<Rightarrow> response" where
  "httpError = httpErrorWith []"

definition notFound :: response where
  "notFound = httpError ''404 page not found'' 404"

definition noContent :: response where
  "noContent = respond 204 [] []"

definition methodNotAllowed :: "string \<Rightarrow> response" where
  "methodNotAllowed allow = httpErrorWith [(''Allow'', allow)] ''method not allowed'' 405"

definition objectHeaders :: "int \<Rightarrow> (string \<times> string) list" where
  "objectHeaders objectSize =
     [(''Content-Type'', ''application/octet-stream''), (''Content-Length'', decimal (nat objectSize)),
      (''Cache-Control'', ''private, max-age=31536000, immutable'')]"

definition rejectWith :: "response \<Rightarrow> ('w server, response) comp" where
  "rejectWith r = updating (count RejectedRequests) (returning r)"

definition reject :: "string \<Rightarrow> nat \<Rightarrow> ('w server, response) comp" where
  "reject message status = rejectWith (httpError message status)"

section \<open>Paths\<close>

definition parseObjectPath :: "string \<Rightarrow> (string \<times> string) option" where
  "parseObjectPath path =
     (if sublist ''//'' path \<or> suffix ''/'' path then None
      else case splitAt (CHR ''/'') (if prefix ''/'' path then tl path else path) of
        [kind, digest] \<Rightarrow>
          if kind \<noteq> ''cas'' \<and> kind \<noteq> ''ac'' then None
          else if \<not> digestPattern digest then None
          else Some (kind, digest)
      | _ \<Rightarrow> None)"

section \<open>Reading\<close>

text \<open>A backend or local error: with fail-open a miss, otherwise an error status.\<close>

definition failedLoad :: "string \<Rightarrow> nat \<Rightarrow> ('w server, response) comp" where
  "failedLoad message status =
     updating (count BackendLoadErrors) (
     reading (\<lambda>s. cfgFailOpen (cfg s)) (\<lambda>failOpen.
     if failOpen then updating (count Misses) (returning notFound)
     else returning (httpError message status)))"

text \<open>The last part of \<open>handleRead\<close>: the file of the object is copied to the client.\<close>

definition serveObject :: "('w, 'c) env \<Rightarrow> request \<Rightarrow> object \<Rightarrow> ('w server, response) comp" where
  "serveObject E r ob =
     andThen (openFile E (objPath ob)) (\<lambda>opened.
     case opened of Inl _ \<Rightarrow> failedLoad ''local cache unavailable'' 500
     | Inr _ \<Rightarrow> updating (count Hits) (
         let head = respond 200 (objectHeaders (objSize ob)) [] in
         if reqMethod r = ''HEAD'' then returning head
         else andThen (readFile E (objPath ob)) (\<lambda>content.
           case content of Inl _ \<Rightarrow> updating (countBytes BytesServed 0) (returning (head\<lparr>rsBroken := True\<rparr>))
           | Inr data \<Rightarrow>
               let n = (case reqTakes r of None \<Rightarrow> length data | Some k \<Rightarrow> min k (length data)) in
               updating (countBytes BytesServed n)
                 (returning (head\<lparr>rsBody := take n data, rsBroken := n < length data\<rparr>)))))"

definition handleRead ::
    "('w, 'c) env \<Rightarrow> request \<Rightarrow> string \<Rightarrow> string \<Rightarrow> string \<Rightarrow> ('w server, response) comp" where
  "handleRead E r key kind digest =
     andThen (server_resolve E key kind digest) (\<lambda>result.
     case result of
       Inl _ \<Rightarrow> failedLoad ''cache backend unavailable'' 502
     | Inr None \<Rightarrow> updating (count Misses) (returning notFound)
     | Inr (Some ob) \<Rightarrow>
         if kind = ''ac'' then
           andThen (validateActionResult E ob) (\<lambda>validated.
           case validated of
             Inl (IncompleteActionResult _) \<Rightarrow>
               updating (count IncompleteActionResults) (updating (count Misses) (returning notFound))
           | Inl (InvalidActionResult _) \<Rightarrow>
               updating (count InvalidActionResults) (updating (count Misses) (returning notFound))
           | Inl _ \<Rightarrow> failedLoad ''cache backend unavailable'' 502
           | Inr _ \<Rightarrow> updating (count ValidatedActionResults) (serveObject E r ob))
         else serveObject E r ob)"

section \<open>Uploading\<close>

text \<open>
  \<open>io.Copy\<close> of the limited body into the spool file: the number of bytes copied, and whether reading
  the body or writing the file failed. \<open>uploadLimit\<close> is \<open>Content-Length + 1\<close>, which wraps to a negative
  number, a limit of nothing, at the end of the \<open>int64\<close> range.
\<close>

fun copyBody ::
    "('w, 'c) env \<Rightarrow> nat \<Rightarrow> string option \<Rightarrow> bytes list \<Rightarrow> nat \<Rightarrow> nat \<Rightarrow> ('w server, nat \<times> bool) comp" where
  "copyBody E path err [] limit n = returning (n, limit \<noteq> 0 \<and> err \<noteq> None)"
| "copyBody E path err (p # ps) limit n =
     (if limit = 0 then returning (n, False)
      else andThen (writeFile E path (take limit p)) (\<lambda>written.
        case written of Inl _ \<Rightarrow> returning (n, True)
        | Inr _ \<Rightarrow> copyBody E path err ps (limit - length (take limit p)) (n + length (take limit p))))"

definition uploadLimit :: "int \<Rightarrow> nat" where
  "uploadLimit contentLength = (if contentLength = maxInt64 then 0 else nat (contentLength + 1))"

definition handleSaveError :: "('w server, response) comp" where
  "handleSaveError =
     updating (count BackendSaveErrors) (
     reading (\<lambda>s. cfgFailOpen (cfg s)) (\<lambda>failOpen.
     if failOpen then returning noContent
     else returning (httpError ''cache backend unavailable'' 502)))"

text \<open>
  \<open>handlePackedActionValidationError\<close>; \<open>handlePut\<close> has the same switch, with other log messages, for an
  action result that fails its validation for publication.
\<close>

definition handlePackedActionValidationError :: "go_error \<Rightarrow> ('w server, response) comp" where
  "handlePackedActionValidationError e =
     (case e of
        IncompleteActionResult _ \<Rightarrow>
          updating (count IncompleteActionResults) (
          updating (count SkippedActionResultUploads) (returning noContent))
      | InvalidActionResult _ \<Rightarrow>
          updating (count InvalidActionResults) (
          updating (count SkippedActionResultUploads) (returning noContent))
      | _ \<Rightarrow>
          updating (count BackendLoadErrors) (
          reading (\<lambda>s. cfgFailOpen (cfg s)) (\<lambda>failOpen.
          if failOpen then updating (count SkippedActionResultUploads) (returning noContent)
          else returning (httpError ''cache backend unavailable'' 502))))"

text \<open>After the upload has been entered: stage it in the packed store, or publish it.\<close>

definition stageUpload ::
    "('w, 'c) env \<Rightarrow> string \<Rightarrow> string \<Rightarrow> object \<Rightarrow> ('w server, response) comp" where
  "stageUpload E kind digest stored =
     (if kind = ''cas'' then updating (stageCAS digest stored) (returning noContent)
      else andThen (collectActionResultClosure E stored) (\<lambda>collected.
        case collected of Inl e \<Rightarrow> handlePackedActionValidationError e
        | Inr closure \<Rightarrow>
            andThen (stageAction E digest stored closure) (\<lambda>staged.
            case staged of Inl _ \<Rightarrow> handleSaveError
            | Inr _ \<Rightarrow> updating (count ValidatedActionResults) (returning noContent))))"

definition publishUpload ::
    "('w, 'c) env \<Rightarrow> string \<Rightarrow> nat \<Rightarrow> int \<Rightarrow> ('w server, response) comp" where
  "publishUpload E key path n =
     andThen (publishOnce E key path n) (\<lambda>result.
     case result of Inl _ \<Rightarrow> handleSaveError
     | Inr deduplicated \<Rightarrow>
         updating (count (if deduplicated then DeduplicatedUploads else Uploads)) (returning noContent))"

definition finishUpload ::
    "('w, 'c) env \<Rightarrow> string \<Rightarrow> string \<Rightarrow> string \<Rightarrow> object \<Rightarrow> nat \<Rightarrow> int \<Rightarrow> ('w server, response) comp" where
  "finishUpload E key kind digest stored path n =
     reading (\<lambda>s. cfgWriteEnabled (cfg s)) (\<lambda>writeEnabled.
     if \<not> writeEnabled then updating (count DiscardedUploads) (returning noContent)
     else reading packs (\<lambda>p.
     if p \<noteq> None then stageUpload E kind digest stored
     else if kind = ''ac'' then
       andThen (validateActionResultForPublication E \<lparr>objPath = path, objSize = n\<rparr>) (\<lambda>validated.
       case validated of Inl e \<Rightarrow> handlePackedActionValidationError e
       | Inr _ \<Rightarrow> updating (count ValidatedActionResults) (publishUpload E key path n))
     else publishUpload E key path n))"

text \<open>
  From the copy into the spool file to the response; the second component of the result is \<open>keep\<close>,
  whether the deferred function leaves the file.
\<close>

definition receiveUpload ::
    "('w, 'c) env \<Rightarrow> request \<Rightarrow> string \<Rightarrow> string \<Rightarrow> string \<Rightarrow> nat \<Rightarrow> ('w server, response \<times> bool) comp" where
  "receiveUpload E r key kind digest path =
     (let drop' = (\<lambda>m. andThen m (\<lambda>response. returning (response, False))) in
      andThen (copyBody E path (reqBodyError r) (reqBody r) (uploadLimit (reqContentLength r)) 0) (\<lambda>(n, failed).
      updating (countBytes BytesReceived n) (
      if failed then drop' (reject ''failed to read request body'' 400)
      else if int n \<noteq> reqContentLength r then drop' (reject ''body size does not match Content-Length'' 400)
      else reading (\<lambda>s. sha256_hex (fileContent s path)) (\<lambda>actual.
      if kind = ''cas'' \<and> actual \<noteq> digest
      then drop' (reject ''CAS digest does not match request body'' 422)
      else andThen (fault E SyncFile) (\<lambda>synced.
      case synced of Inl _ \<Rightarrow> returning (httpError ''cannot sync upload spool'' 500, False)
      | Inr _ \<Rightarrow>
          andThen (enterObject key \<lparr>objPath = path, objSize = int n\<rparr>) (\<lambda>(stored, keep).
          andThen (finishUpload E key kind digest stored path (int n)) (\<lambda>response.
          returning (response, keep))))))))"

text \<open>\<open>strings.EqualFold\<close> against \<open>identity\<close>, whose letters have no folding outside ASCII.\<close>

definition equalFold :: "string \<Rightarrow> string \<Rightarrow> bool" where
  "equalFold s t \<longleftrightarrow> map (\<lambda>c. if CHR ''A'' \<le> c \<and> c \<le> CHR ''Z'' then char_of (of_char c + (32 :: nat)) else c) s
     = map (\<lambda>c. if CHR ''A'' \<le> c \<and> c \<le> CHR ''Z'' then char_of (of_char c + (32 :: nat)) else c) t"

definition handlePut ::
    "('w, 'c) env \<Rightarrow> request \<Rightarrow> string \<Rightarrow> string \<Rightarrow> string \<Rightarrow> ('w server, response) comp" where
  "handlePut E r key kind digest =
     (if reqContentEncoding r \<noteq> [] \<and> \<not> equalFold (reqContentEncoding r) ''identity''
      then reject ''content encoding is unsupported'' 415
      else if reqContentLength r < 0 then reject ''Content-Length is required'' 411
      else reading (\<lambda>s. cfgMaxBlobSize (cfg s)) (\<lambda>maxBlobSize.
      if reqContentLength r > maxBlobSize then reject ''object exceeds configured maximum size'' 413
      else andThen (createTemp E) (\<lambda>created.
      case created of Inl _ \<Rightarrow> returning (httpError ''cannot create upload spool'' 500)
      | Inr path \<Rightarrow>
          andThen (receiveUpload E r key kind digest path) (\<lambda>(response, keep).
          updating (if keep then id else removeFile path) (returning response)))))"

section \<open>The dispatcher\<close>

definition handleShutdown :: "request \<Rightarrow> ('w server, response) comp" where
  "handleShutdown r =
     (if reqMethod r \<noteq> ''POST'' then returning (methodNotAllowed ''POST'')
      else reading cfg (\<lambda>c.
      if cfgShutdownToken c = [] \<or> length (reqShutdownToken r) \<noteq> length (cfgShutdownToken c)
        \<or> reqShutdownToken r \<noteq> cfgShutdownToken c
      then returning (httpError ''forbidden'' 403)
      else returning ((respond 202 [] [])\<lparr>rsShutdown := cfgShutdown c\<rparr>)))"

definition handleImplicitEmptyCASRead :: "('w server, response) comp" where
  "handleImplicitEmptyCASRead = updating (count Hits) (returning (respond 200 (objectHeaders 0) []))"

definition readMethod :: "request \<Rightarrow> bool" where
  "readMethod r \<longleftrightarrow> reqMethod r = ''GET'' \<or> reqMethod r = ''HEAD''"

definition serveHTTP :: "('w, 'c) env \<Rightarrow> request \<Rightarrow> ('w server, response) comp" where
  "serveHTTP E r =
     (if reqPath r = ''/ready'' then
        if \<not> readMethod r then returning (methodNotAllowed ''GET, HEAD'')
        else returning (respond 200 [(''Content-Type'', ''text/plain; charset=utf-8'')]
          (if reqMethod r = ''GET'' then bytesOfString ''ready'' @ [10] else []))
      else if reqPath r = ''/stats'' then
        if \<not> readMethod r then returning (methodNotAllowed ''GET, HEAD'')
        else reading (\<lambda>s. Stats_JSON (counters_snapshot (stats s))) (\<lambda>body.
          returning (respond 200 [(''Content-Type'', ''application/json''),
            (''Content-Length'', decimal (length body))] (if reqMethod r = ''GET'' then body else [])))
      else if reqPath r = ''/shutdown'' then handleShutdown r
      else updating (count Requests) (
        case parseObjectPath (reqPath r) of
          None \<Rightarrow> reject ''path must be /cas/<lowercase-sha256> or /ac/<lowercase-sha256>'' 400
        | Some (kind, digest) \<Rightarrow>
            if kind = ''cas'' \<and> digest = emptySHA256Digest \<and> readMethod r then handleImplicitEmptyCASRead
            else reading (\<lambda>s. objectKey (cfgKeyPrefix (cfg s)) kind digest) (\<lambda>key.
              if readMethod r then handleRead E r key kind digest
              else if reqMethod r = ''PUT'' then handlePut E r key kind digest
              else rejectWith (methodNotAllowed ''GET, HEAD, PUT''))))"

end
