(* ===== verification/Sha256Vector.thy ===== *)
theory Sha256Vector
  imports Sha256
begin

text \<open>
  A known answer of the hash function, evaluated in the kernel: the SHA-256 of the empty content, which
  \<open>reapi_wire.go\<close> has as the constant \<open>emptySHA256Digest\<close>. The schedule of its one block and the state
  after half of the rounds are the two intermediate results.
\<close>

definition emptySchedule :: "u32 list" where
  "emptySchedule =
    [2147483648, 0, 0, 0, 0, 0, 0, 0, 0, 0, 0, 0, 0, 0, 0, 0, 2147483648, 0, 2117632, 0,
     570427392, 0, 84448578, 2147483648, 1476919296, 4235264, 1451269, 1711282176, 3592562048,
     337794312, 3594910044, 3374850048, 3287351444, 676112230, 109604294, 2742808854,
     1904000662, 4274181962, 2813755136, 2165675682, 2561075048, 62000258, 1562224585,
     2975250741, 3286092305, 614207615, 3297584367, 1575308336, 3741240933, 748767245,
     1008022316, 30329261, 369937616, 195877528, 907775968, 3526495142, 43741191, 1967544444,
     133517113, 4161330627, 3704256008, 1581412744, 1153231965, 996066459]"

definition emptyHalfway :: sha256_state where
  "emptyHalfway =
    (300352095, 2696613087, 1926471693, 1690082844, 3151463532, 1447716390, 2957685293,
     2506713973)"

lemma rounds_append: "sha256_rounds (xs @ ys) hs = sha256_rounds ys (sha256_rounds xs hs)"
  by (induction xs hs rule: sha256_rounds.induct) (simp_all add: Let_def)

text \<open>The hash of content whose padding is one block, from its schedule and the state after half of the rounds.\<close>

lemma sha256_one_block:
  assumes "length (sha256_pad data) = 64" and "rev (sha256_extend 48 (rev (wordsOfBytes (sha256_pad data)))) = schedule"
    and "sha256_rounds (take 32 (zip sha256_k schedule)) sha256_init = halfway"
    and "hex_EncodeToString (sha256_output (sha256_add sha256_init
      (sha256_rounds (drop 32 (zip sha256_k schedule)) halfway))) = digest"
  shows "sha256_hex data = digest"
proof -
  let ?kws = "zip sha256_k schedule"
  have "sha256_rounds ?kws sha256_init = sha256_rounds (drop 32 ?kws) halfway"
    using rounds_append [of "take 32 ?kws" "drop 32 ?kws" sha256_init] by (simp add: assms(3))
  then have "sha256_block sha256_init (sha256_pad data) = sha256_add sha256_init (sha256_rounds (drop 32 ?kws) halfway)"
    by (simp only: sha256_block_def assms(2))
  moreover have "sha256_Sum256 data = sha256_output (sha256_block sha256_init (sha256_pad data))"
    by (simp add: sha256_Sum256_def Let_def assms(1) numeral_eq_Suc [of "num.One"])
  ultimately show ?thesis by (simp only: sha256_hex_def assms(4))
qed

lemma emptySchedule_extends: "rev (sha256_extend 48 (rev (wordsOfBytes (sha256_pad [])))) = emptySchedule"
  by code_simp

lemma emptyHalfway_rounds: "sha256_rounds (take 32 (zip sha256_k emptySchedule)) sha256_init = emptyHalfway"
  by code_simp

lemma emptyOutput_rounds:
  "hex_EncodeToString (sha256_output (sha256_add sha256_init
     (sha256_rounds (drop 32 (zip sha256_k emptySchedule)) emptyHalfway))) = emptySHA256Digest"
  by code_simp

text \<open>
  The implicit empty object is the empty object: the constant \<open>emptySHA256Digest\<close>, for which the server
  answers without a lookup, is the SHA-256 of the empty content.
\<close>

lemma sha256_hex_empty: "sha256_hex [] = emptySHA256Digest"
  by (rule sha256_one_block [OF _ emptySchedule_extends emptyHalfway_rounds emptyOutput_rounds]) code_simp

end
