(* ===== verification/Serving.thy ===== *)
theory Serving
  imports Http Sha256Vector
begin

text \<open>
  What the handlers of \<open>server.go\<close> guarantee: every request keeps the invariant of the server and every
  object entered before; what is served under a CAS path has the digest of the path; an upload that is
  not what it claims to be is refused without a trace; action results are served and published only with
  a complete closure; read-only servers never write, and fail-open servers never fail.
\<close>

section \<open>Frames\<close>

lemma count_fields [simp]:
  "cfg (count c s) = cfg s" "objects (count c s) = objects s" "packs (count c s) = packs s"
  "published (count c s) = published s" "files (count c s) = files s" "nextFile (count c s) = nextFile s"
  by (simp_all add: count_def)

text \<open>Changes of the packed store that leave the packs it can read alone.\<close>

lemma evolves_updatePacks:
  assumes "evolves s0 s" and "\<And>p. psLoadedPacks (f p) = psLoadedPacks p"
    and "\<And>p packID d. (\<And>packID d. psPacks p packID = Some d \<Longrightarrow> pkID d = packID) \<Longrightarrow>
      psPacks (f p) packID = Some d \<Longrightarrow> pkID d = packID"
  shows "evolves s0 (updatePacks f s)"
proof (cases "packs s")
  case None
  then have "updatePacks f s = s" by (simp add: updatePacks_def)
  then show ?thesis using assms(1) by simp
next
  case (Some p)
  have loaded: "psLoadedPacks (thePacks (updatePacks f s)) = psLoadedPacks (thePacks s)"
    using Some assms(2) by (simp add: thePacks_def updatePacks_def)
  have inv: "serverInv s" using assms(1) by (rule evolves_inv)
  have ids: "\<And>packID d. psPacks p packID = Some d \<Longrightarrow> pkID d = packID"
    using inv Some by (simp add: serverInv_def thePacks_def)
  have "pkID d = packID" if "psPacks (thePacks (updatePacks f s)) packID = Some d" for packID d
    using that assms(3) [OF ids] Some by (simp add: thePacks_def updatePacks_def)
  then have "serverInv (updatePacks f s)"
    using inv unfolding serverInv_def loaded by (simp add: updatePacks_def storedOk_def loadedOk_def)
  moreover have "owned (updatePacks f s) = owned s" unfolding owned_def loaded by (simp add: updatePacks_def)
  ultimately show ?thesis
    using assms(1) unfolding evolves_def frame_def loaded by (simp add: updatePacks_def)
qed

lemma stage_fields [simp]:
  "psLoadedPacks (requestFlushLocked n p) = psLoadedPacks p" "psPacks (requestFlushLocked n p) = psPacks p"
  "psLoadedPacks (stageCASLocked n d ob p) = psLoadedPacks p" "psPacks (stageCASLocked n d ob p) = psPacks p"
  "psLoadedPacks (stageActionLocked n d ob closure c p) = psLoadedPacks p"
  "psPacks (stageActionLocked n d ob closure c p) = psPacks p"
  by (simp_all add: requestFlushLocked_def stageCASLocked_def stageActionLocked_def split: option.split)

lemma evolves_stage [simp]:
  "evolves s0 s \<Longrightarrow> evolves s0 (stageCAS digest ob s)"
  "evolves s0 s \<Longrightarrow> evolves s0 (updatePacks (stageActionLocked n digest ob closure c) s)"
  unfolding stageCAS_def by (rule evolves_updatePacks; simp)+

lemma keeps_stageAction: "keeps (evolves s0) (stageAction E digest ob closure)"
  unfolding stageAction_def by (intro keeps_rules) simp

lemmas respond_defs = reject_def rejectWith_def failedLoad_def handleSaveError_def

lemma keeps_validations:
  assumes "0 \<le> cfgMaxBlobSize (cfg s0)"
  shows "keeps (evolves s0) (validateActionResult E ob)"
    "keeps (evolves s0) (validateActionResultForPublication E ob)"
    "keeps (evolves s0) (collectActionResultClosure E ob)"
  unfolding validateActionResult_def validateActionResultForPublication_def collectActionResultClosure_def
  by (intro keeps_rules keeps_validateActionResultClosure assms)+

lemma keeps_go_error:
  assumes "\<And>m. keeps I (f m)" "\<And>m. keeps I (g m)" "\<And>m. keeps I (h m)" "\<And>m. keeps I (k m)" "keeps I d"
  shows "keeps I (case e of Failure m \<Rightarrow> f m | IncompleteActionResult m \<Rightarrow> g m
    | InvalidActionResult m \<Rightarrow> h m | Panic m \<Rightarrow> k m | Diverges \<Rightarrow> d)"
  using assms by (cases e) simp_all

lemma keeps_packedError: "keeps (evolves s0) (handlePackedActionValidationError e)"
  unfolding handlePackedActionValidationError_def by (intro keeps_rules keeps_go_error) simp_all

lemma keeps_saveError: "keeps (evolves s0) handleSaveError"
  unfolding handleSaveError_def by (intro keeps_rules) simp_all

lemma keeps_failedLoad: "keeps (evolves s0) (failedLoad message status)"
  unfolding failedLoad_def by (intro keeps_rules) simp_all

lemma keeps_publishUpload: "keeps (evolves s0) (publishUpload E key path n)"
  unfolding publishUpload_def by (intro keeps_rules evolves_publishOnce keeps_saveError) simp_all

lemma keeps_finishUpload:
  assumes "0 \<le> cfgMaxBlobSize (cfg s0)"
  shows "keeps (evolves s0) (finishUpload E key kind digest stored path n)"
  unfolding finishUpload_def stageUpload_def
  by (intro keeps_rules keeps_validations assms keeps_packedError keeps_saveError keeps_publishUpload
      keeps_stageAction) simp_all

lemma keeps_serveObject: "keeps (evolves s0) (serveObject E r ob)"
  unfolding serveObject_def Let_def
  by (intro keeps_rules keeps_openFile keeps_failedLoad keeps_readFile) simp_all

lemma keeps_handleRead:
  assumes "keyOk s0 key kind digest"
  shows "keeps (evolves s0) (handleRead E r key kind digest)"
proof -
  have size: "0 \<le> cfgMaxBlobSize (cfg s0)" using assms by (simp add: keyOk_def)
  have resolve: "keeps (evolves s0) (server_resolve E key kind digest)"
    using triple_server_resolve [OF assms] by (rule keeps_resolved)
  show ?thesis
    unfolding handleRead_def
    by (intro keeps_rules keeps_go_error resolve keeps_failedLoad keeps_serveObject
        keeps_validations size) simp_all
qed

section \<open>The copy of an upload\<close>

lemma scratch_later:
  assumes "scratch s0 path data s" and "evolves s s'"
  shows "scratch s0 path data s'"
proof -
  have inv: "serverInv s" and ev: "evolves s0 s" and fresh: "path \<notin> owned s" and content: "files s path = Some data"
    using assms(1) by (auto simp: scratch_def evolves_def)
  have bound: "path < nextFile s" using inv content by (simp add: serverInv_def)
  then have "path \<notin> owned s'" "files s' path = files s path"
    using assms(2) fresh by (auto simp: evolves_def frame_def)
  then show ?thesis
    using assms content evolves_trans [OF ev assms(2)] by (simp add: scratch_def)
qed

lemma keeps_scratch:
  assumes "\<And>s1. cfg s1 = cfg s0 \<Longrightarrow> keeps (evolves s1) m"
  shows "keeps (scratch s0 path data) m"
proof (rule keepsI)
  fix s r s'
  assume sc: "scratch s0 path data s" and run: "m s = (r, s')"
  have "serverInv s" "cfg s = cfg s0" using sc by (auto simp: scratch_def evolves_def)
  then have "evolves s s'" using keepsD [OF assms evolves_refl run] by simp
  with sc show "scratch s0 path data s'" by (rule scratch_later)
qed

definition copied :: "'w server \<Rightarrow> nat \<Rightarrow> bytes \<Rightarrow> nat \<Rightarrow> bytes \<Rightarrow> nat \<times> bool \<Rightarrow> 'w server \<Rightarrow> bool" where
  "copied s0 path data n wanted r s \<longleftrightarrow> (\<exists>d. scratch s0 path (data @ d) s \<and> fst r = n + length d \<and>
     (\<not> snd r \<longrightarrow> d = wanted))"

lemma triple_copyBody:
  "triple (scratch s0 path data) (copyBody E path err ps limit n) (copied s0 path data n (take limit (concat ps)))"
proof (induction ps arbitrary: data limit n)
  case Nil
  show ?case
    unfolding copyBody.simps by (rule triple_ret) (auto simp: copied_def)
next
  case (Cons p ps)
  have later: "copied s0 path (data @ take limit p) (n + length (take limit p))
      (take (limit - length (take limit p)) (concat ps)) r s \<Longrightarrow>
    copied s0 path data n (take limit (concat (p # ps))) r s" for r s
    unfolding copied_def
  proof (elim exE conjE)
    fix d
    assume d: "scratch s0 path ((data @ take limit p) @ d) s" "fst r = n + length (take limit p) + length d"
      "\<not> snd r \<longrightarrow> d = take (limit - length (take limit p)) (concat ps)"
    have "take limit p @ take (limit - length (take limit p)) (concat ps) = take limit (concat (p # ps))"
      by (cases "limit \<le> length p") simp_all
    with d show "\<exists>d. scratch s0 path (data @ d) s \<and> fst r = n + length d \<and>
        (\<not> snd r \<longrightarrow> d = take limit (concat (p # ps)))"
      by (intro exI [of _ "take limit p @ d"]) auto
  qed
  show ?case
  proof (cases "limit = 0")
    case True
    have "triple (scratch s0 path data) (returning (n, False)) (copied s0 path data n (take 0 (concat (p # ps))))"
      by (rule triple_ret) (auto simp: copied_def)
    with True show ?thesis by (simp only: copyBody.simps simp_thms if_True)
  next
    case False
    have "triple (scratch s0 path data) (andThen (writeFile E path (take limit p)) (\<lambda>written.
        case written of Inl _ \<Rightarrow> returning (n, True)
        | Inr _ \<Rightarrow> copyBody E path err ps (limit - length (take limit p)) (n + length (take limit p))))
      (copied s0 path data n (take limit (concat (p # ps))))"
      apply (rule triple_andThen [OF triple_writeFile])
      apply (rule triple_sum)
       apply (rule triple_ret, fastforce simp: copied_def)
      apply (rule triple_weaken [OF Cons.IH [of "data @ take limit p"]], simp)
      apply (erule later)
      done
    with False show ?thesis by (simp only: copyBody.simps simp_thms if_False)
  qed
qed

section \<open>Uploads\<close>

text \<open>
  The two outcomes of an upload. Refused: an error status, and the objects, the published keys and the
  packed store are what they were. Accepted: \<open>uploaded\<close> was the case before \<open>finishUpload\<close>.
\<close>

definition refusedStatus :: "nat set" where
  "refusedStatus = {400, 411, 413, 415, 422, 500}"

definition unchanged :: "'w server \<Rightarrow> 'w server \<Rightarrow> bool" where
  "unchanged s0 s \<longleftrightarrow> objects s = objects s0 \<and> published s = published s0 \<and> packs s = packs s0"

lemma unchanged_fields [simp]:
  "unchanged s0 (s\<lparr>world := w\<rparr>) = unchanged s0 s" "unchanged s0 (s\<lparr>stats := st\<rparr>) = unchanged s0 s"
  "unchanged s0 (s\<lparr>files := fs\<rparr>) = unchanged s0 s" "unchanged s0 (s\<lparr>nextFile := k\<rparr>) = unchanged s0 s"
  "unchanged s0 (count c s) = unchanged s0 s" "unchanged s0 (countBytes c k s) = unchanged s0 s"
  "unchanged s0 (appendFile path data s) = unchanged s0 s" "unchanged s0 (removeFile path s) = unchanged s0 s"
  by (simp_all add: unchanged_def count_def countBytes_def appendFile_def removeFile_def)

lemma unchanged_refl [simp]: "unchanged s s"
  by (simp add: unchanged_def)

lemma keeps_unchanged:
  "keeps (unchanged s0) (fault E operation)" "keeps (unchanged s0) (createTemp E)"
  "keeps (unchanged s0) (writeFile E path data)"
proof -
  show fault: "keeps (unchanged s0) (fault E operation)" for operation by (rule keeps_fault) simp
  show "keeps (unchanged s0) (createTemp E)"
    unfolding createTemp_def by (intro keeps_rules fault) (auto intro!: keepsI simp: createFile_def)
  show "keeps (unchanged s0) (writeFile E path data)"
    unfolding writeFile_def by (intro keeps_rules fault) simp
qed

text \<open>What the handler has checked of an upload that it accepts.\<close>

definition acceptable :: "'w server \<Rightarrow> request \<Rightarrow> string \<Rightarrow> string \<Rightarrow> bytes \<Rightarrow> bool" where
  "acceptable s0 r kind digest data \<longleftrightarrow>
     data = concat (reqBody r) \<and> int (length data) = reqContentLength r \<and>
     (kind = ''cas'' \<longrightarrow> sha256_hex data = digest)"

lemma acceptable_due:
  "keyOk s0 key kind digest \<Longrightarrow> acceptable s0 r kind digest data \<Longrightarrow> dueTo s0 key data"
  by (auto simp: keyOk_def acceptable_def dueTo_def)

text \<open>The entered state of an accepted upload.\<close>

definition uploaded ::
    "'w server \<Rightarrow> request \<Rightarrow> string \<Rightarrow> string \<Rightarrow> string \<Rightarrow> nat \<Rightarrow> object \<times> bool \<Rightarrow> 'w server \<Rightarrow> bool" where
  "uploaded s0 r key kind digest path result s \<longleftrightarrow>
     evolves s0 s \<and> objects s key = Some (fst result) \<and>
     files s path = Some (concat (reqBody r)) \<and> path < nextFile s \<and>
     int (length (concat (reqBody r))) = reqContentLength r \<and>
     (kind = ''cas'' \<longrightarrow> sha256_hex (concat (reqBody r)) = digest) \<and>
     (\<not> snd result \<longrightarrow> scratch s0 path (concat (reqBody r)) s) \<and>
     (snd result \<longrightarrow> objPath (fst result) = path) \<and> (objects s0 key = None \<longrightarrow> snd result)"

text \<open>At the start of \<open>finishUpload\<close>.\<close>

definition entered ::
    "'w server \<Rightarrow> request \<Rightarrow> string \<Rightarrow> string \<Rightarrow> string \<Rightarrow> nat \<Rightarrow> object \<times> bool \<Rightarrow> 'w server \<Rightarrow> bool" where
  "entered s0 r key kind digest path result s \<longleftrightarrow>
     uploaded s0 r key kind digest path result s \<and> published s = published s0 \<and> packs s = packs s0 \<and>
     objects s = (objects s0)(key \<mapsto> fst result)"

lemma triple_enterUpload:
  assumes key: "keyOk s0 key kind digest" and ok: "acceptable s0 r kind digest data"
    and n: "int n = reqContentLength r"
  shows "triple (\<lambda>s. scratch s0 path data s \<and> unchanged s0 s) (enterObject key \<lparr>objPath = path, objSize = int n\<rparr>)
    (entered s0 r key kind digest path)"
proof (rule tripleI)
  fix s result s'
  assume "scratch s0 path data s \<and> unchanged s0 s"
    and run: "enterObject key \<lparr>objPath = path, objSize = int n\<rparr> s = (result, s')"
  then have sc: "scratch s0 path data s" and same: "objects s = objects s0" "published s = published s0" "packs s = packs s0"
    by (auto simp: unchanged_def)
  have data: "data = concat (reqBody r)" "int n = int (length data)" using ok n by (auto simp: acceptable_def)
  have pre: "scratch s0 path data s \<and> dueTo s0 key data \<and> int n = int (length data)"
    using sc acceptable_due [OF key ok] data by simp
  have "files s' = files s" "nextFile s' = nextFile s"
    using run by (auto simp: enterObject_def split: option.splits)
  moreover have "path < nextFile s" "files s path = Some data"
    using sc by (auto simp: scratch_def evolves_def serverInv_def)
  ultimately have file': "files s' path = Some data" "path < nextFile s'" by simp_all
  have kept: "snd result \<longrightarrow> objPath (fst result) = path" "objects s0 key = None \<longrightarrow> snd result"
    using run same(1) by (auto simp: enterObject_def split: option.splits)
  have post: "evolves s0 s' \<and> objects s' key = Some (fst result) \<and> (\<not> snd result \<longrightarrow> scratch s0 path data s')"
    by (rule tripleD [OF triple_enterObject pre run])
  have body: "int (length data) = reqContentLength r" "kind = ''cas'' \<longrightarrow> sha256_hex data = digest"
    using ok by (auto simp: acceptable_def)
  have "uploaded s0 r key kind digest path result s'"
    unfolding uploaded_def data(1) [symmetric] using file' kept post body by blast
  moreover have "published s' = published s \<and> packs s' = packs s \<and> objects s' = (objects s)(key \<mapsto> fst result)"
    using run by (auto simp: enterObject_def split: option.splits)
  ultimately show "entered s0 r key kind digest path result s'" using same by (simp add: entered_def)
qed

lemma keeps_copyBody:
  assumes "\<And>data. keeps I (writeFile E path data)"
  shows "keeps I (copyBody E path err ps limit n)"
proof (induction ps arbitrary: limit n)
  case (Cons p ps)
  show ?case unfolding copyBody.simps by (intro keeps_rules assms Cons.IH)
qed (unfold copyBody.simps, rule keeps_returning)

text \<open>
  \<open>receiveUpload\<close> up to \<open>finishUpload\<close>, for any assertion about its response that refusals and
  accepted uploads both establish.
\<close>

lemma triple_receiveUpload:
  assumes key: "keyOk s0 key kind digest"
    and refused: "\<And>response s data. rsStatus response \<in> refusedStatus \<Longrightarrow> scratch s0 path data s \<Longrightarrow>
      unchanged s0 s \<Longrightarrow> Q (response, False) s"
    and accepted: "\<And>result. triple (entered s0 r key kind digest path result)
      (andThen (finishUpload E key kind digest (fst result) path (reqContentLength r))
        (\<lambda>response. returning (response, snd result))) Q"
  shows "triple (\<lambda>s. scratch s0 path [] s \<and> unchanged s0 s) (receiveUpload E r key kind digest path) Q"
proof -
  let ?same = "\<lambda>data s. scratch s0 path data s \<and> unchanged s0 s"
  have drop: "triple (?same data) (andThen (reject message status) (\<lambda>response. returning (response, False))) Q"
    if "status \<in> refusedStatus" for data message status
    unfolding reject_def rejectWith_def
    by (rule triple_andThen [where R = "\<lambda>response s. rsStatus response \<in> refusedStatus \<and> ?same data s"])
      (use that refused in \<open>auto simp: triple_def httpError_def httpErrorWith_def respond_def\<close>)
  have enter: "triple (?same data) (andThen (enterObject key \<lparr>objPath = path, objSize = int n\<rparr>) (\<lambda>(stored, keep).
      andThen (finishUpload E key kind digest stored path (int n)) (\<lambda>response. returning (response, keep)))) Q"
    if ok: "acceptable s0 r kind digest data" and n: "int n = reqContentLength r" for data n
    apply (rule triple_andThen [OF triple_enterUpload [OF key ok n]])
    apply (rule triple_prod)
    subgoal for result stored keep using accepted [of result] n by simp
    done
  have sync: "triple (?same data) (andThen (fault E SyncFile) (\<lambda>synced.
      case synced of Inl _ \<Rightarrow> returning (httpError message 500, False)
      | Inr _ \<Rightarrow> andThen (enterObject key \<lparr>objPath = path, objSize = int n\<rparr>) (\<lambda>(stored, keep).
          andThen (finishUpload E key kind digest stored path (int n)) (\<lambda>response. returning (response, keep))))) Q"
    if ok: "acceptable s0 r kind digest data" and n: "int n = reqContentLength r" for data n message
  proof (rule triple_andThen)
    show "triple (?same data) (fault E SyncFile) (\<lambda>_. ?same data)"
      using triple_conj [OF keeps_fault_evolves(2) [unfolded keeps_def] keeps_unchanged(1) [unfolded keeps_def]] .
    show "triple (?same data) (case synced of Inl _ \<Rightarrow> returning (httpError message 500, False)
      | Inr _ \<Rightarrow> andThen (enterObject key \<lparr>objPath = path, objSize = int n\<rparr>) (\<lambda>(stored, keep).
          andThen (finishUpload E key kind digest stored path (int n)) (\<lambda>response. returning (response, keep)))) Q"
      for synced :: "go_error + unit"
      by (rule triple_sum [OF triple_ret enter [OF ok n]])
        (auto intro!: refused simp: httpError_def httpErrorWith_def respond_def refusedStatus_def)
  qed
  have limit: "data = concat (reqBody r)"
    if "data = take (uploadLimit (reqContentLength r)) (concat (reqBody r))"
      and "int (length data) = reqContentLength r" for data
    using that by (auto simp: uploadLimit_def maxInt64_def min_def split: if_splits)
  have checked: "triple (?same data) (if failed then andThen (reject m1 400) (\<lambda>response. returning (response, False))
      else if int n \<noteq> reqContentLength r then andThen (reject m2 400) (\<lambda>response. returning (response, False))
      else reading (\<lambda>s. sha256_hex (fileContent s path)) (\<lambda>actual.
        if kind = ''cas'' \<and> actual \<noteq> digest then andThen (reject m3 422) (\<lambda>response. returning (response, False))
        else andThen (fault E SyncFile) (\<lambda>synced.
          case synced of Inl _ \<Rightarrow> returning (httpError message 500, False)
          | Inr _ \<Rightarrow> andThen (enterObject key \<lparr>objPath = path, objSize = int n\<rparr>) (\<lambda>(stored, keep).
              andThen (finishUpload E key kind digest stored path (int n)) (\<lambda>response. returning (response, keep)))))) Q"
    if n: "n = length data" and "\<not> failed \<longrightarrow> data = take (uploadLimit (reqContentLength r)) (concat (reqBody r))"
    for data n failed m1 m2 m3 message
  proof -
    have "acceptable s0 r kind digest data"
      if "\<not> failed" "int n = reqContentLength r" "\<not> (kind = ''cas'' \<and> sha256_hex data \<noteq> digest)"
      using that limit [of data] n \<open>\<not> failed \<longrightarrow> data = take (uploadLimit (reqContentLength r)) (concat (reqBody r))\<close>
      by (auto simp: acceptable_def)
    note ok = this
    show ?thesis
      apply (rule triple_if, rule drop, simp add: refusedStatus_def)
      apply (rule triple_if, rule drop, simp add: refusedStatus_def)
      apply (rule triple_reading, rule triple_if)
       apply (rule triple_pre [where P' = "?same data"], rule drop, simp add: refusedStatus_def, simp)
      subgoal for actual
        apply (rule triple_pre [where P' = "\<lambda>s. ?same data s \<and> actual = sha256_hex data"], rule triple_assume)
         apply (rule sync, rule ok, auto simp: fileContent_scratch)
        done
      done
  qed
  show ?thesis
    unfolding receiveUpload_def Let_def
    apply (rule triple_andThen [OF triple_conj [OF triple_copyBody
          keeps_copyBody [OF keeps_unchanged(3), unfolded keeps_def]]])
    apply (rule triple_prod)
    subgoal for result n failed
      apply (rule triple_update [where P' = "\<lambda>s. \<exists>data. ?same data s \<and> (n = length data \<and>
          (\<not> failed \<longrightarrow> data = take (uploadLimit (reqContentLength r)) (concat (reqBody r))))"])
       apply (auto simp: copied_def countBytes_def)[1]
      apply (intro triple_ex triple_assume)
      apply (rule checked, auto)
      done
    done
qed

text \<open>What \<open>finishUpload\<close> keeps of the entered upload, and the deferred removal of the spool file.\<close>

lemma uploaded_later:
  assumes "uploaded s0 r key kind digest path result s" and "evolves s s'"
  shows "uploaded s0 r key kind digest path result s'"
  using assms evolves_trans [of s0 s s'] evolves_object [OF assms(2)] scratch_later [OF _ assms(2)]
  by (auto simp: uploaded_def evolves_def frame_def)

lemma keeps_uploaded:
  assumes "0 \<le> cfgMaxBlobSize (cfg s0)" and "\<And>s1. cfg s1 = cfg s0 \<Longrightarrow> keeps (evolves s1) m"
  shows "keeps (uploaded s0 r key kind digest path result) m"
proof (rule keepsI)
  fix s q s'
  assume up: "uploaded s0 r key kind digest path result s" and run: "m s = (q, s')"
  then have "serverInv s" "cfg s = cfg s0" by (auto simp: uploaded_def evolves_def)
  then have "evolves s s'" using keepsD [OF assms(2) evolves_refl run] by simp
  with up show "uploaded s0 r key kind digest path result s'" by (rule uploaded_later)
qed

lemma uploaded_finish:
  "0 \<le> cfgMaxBlobSize (cfg s0) \<Longrightarrow>
     keeps (uploaded s0 r key kind digest path result) (finishUpload E key kind digest ob path n)"
  by (rule keeps_uploaded) (auto intro: keeps_finishUpload)

definition cleanUp :: "nat \<Rightarrow> bool \<Rightarrow> 'w server \<Rightarrow> 'w server" where
  "cleanUp path keep = (if keep then id else removeFile path)"

lemma cleanUp_fields [simp]:
  "objects (cleanUp path keep s) = objects s" "published (cleanUp path keep s) = published s"
  "packs (cleanUp path keep s) = packs s" "world (cleanUp path keep s) = world s" "cfg (cleanUp path keep s) = cfg s"
  by (simp_all add: cleanUp_def removeFile_def)

lemma evolves_cleanUp:
  "uploaded s0 r key kind digest path result s \<Longrightarrow> evolves s0 (cleanUp path (snd result) s)"
  by (auto simp: uploaded_def cleanUp_def intro: evolves_remove)

lemma triple_handlePut:
  assumes key: "keyOk s0 key kind digest"
    and refused: "\<And>response s. rsStatus response \<in> refusedStatus \<Longrightarrow> evolves s0 s \<Longrightarrow>
      unchanged s0 s \<Longrightarrow> Q response s"
    and accepted: "\<And>path result. reqContentLength r \<le> cfgMaxBlobSize (cfg s0) \<Longrightarrow>
      triple (entered s0 r key kind digest path result)
      (finishUpload E key kind digest (fst result) path (reqContentLength r))
      (\<lambda>response s. Q response (cleanUp path (snd result) s))"
  shows "triple (\<lambda>s. evolves s0 s \<and> unchanged s0 s) (handlePut E r key kind digest) Q"
proof -
  have drop: "triple (\<lambda>s. evolves s0 s \<and> unchanged s0 s) (reject message status) Q"
    if "status \<in> refusedStatus" for message status
    using that refused
    by (auto simp: triple_def reject_def rejectWith_def httpError_def httpErrorWith_def respond_def)
  have receive: "triple (\<lambda>s. scratch s0 path [] s \<and> unchanged s0 s)
      (andThen (receiveUpload E r key kind digest path) (\<lambda>(response, keep).
        updating (if keep then id else removeFile path) (returning response))) Q"
    if "reqContentLength r \<le> cfgMaxBlobSize (cfg s0)" for path
  proof (rule triple_andThen)
    show "triple (\<lambda>s. scratch s0 path [] s \<and> unchanged s0 s) (receiveUpload E r key kind digest path)
        (\<lambda>result s. Q (fst result) (cleanUp path (snd result) s))"
    proof (rule triple_receiveUpload [OF key])
      fix response :: response and s data
      assume "rsStatus response \<in> refusedStatus" "scratch s0 path data s" "unchanged s0 s"
      then show "Q (fst (response, False)) (cleanUp path (snd (response, False)) s)"
        by (simp add: cleanUp_def refused evolves_remove)
    next
      fix result :: "object \<times> bool"
      show "triple (entered s0 r key kind digest path result)
        (andThen (finishUpload E key kind digest (fst result) path (reqContentLength r))
          (\<lambda>response. returning (response, snd result)))
        (\<lambda>result s. Q (fst result) (cleanUp path (snd result) s))"
        by (rule triple_andThen [OF accepted [OF that]]) (simp add: triple_def returning_def)
    qed
    show "triple (\<lambda>s. Q (fst result) (cleanUp path (snd result) s))
      (case result of (response, keep) \<Rightarrow> updating (if keep then id else removeFile path) (returning response)) Q"
      for result :: "response \<times> bool"
      by (auto simp: triple_def cleanUp_def split: prod.split)
  qed
  have create: "triple (\<lambda>s. evolves s0 s \<and> unchanged s0 s) (createTemp E)
      (\<lambda>created s. (case created of Inl _ \<Rightarrow> evolves s0 s | Inr path \<Rightarrow> scratch s0 path [] s) \<and> unchanged s0 s)"
    by (rule triple_conj [OF triple_createTemp keeps_unchanged(2) [unfolded keeps_def]])
  show ?thesis
    unfolding handlePut_def
    apply (rule triple_if, rule drop, simp add: refusedStatus_def)
    apply (rule triple_if, rule drop, simp add: refusedStatus_def)
    apply (rule triple_reading)
    subgoal for maxBlobSize
      apply (rule triple_pre [where P' = "\<lambda>s. (evolves s0 s \<and> unchanged s0 s) \<and> maxBlobSize = cfgMaxBlobSize (cfg s0)"],
          rule triple_assume)
       apply (rule triple_if, rule drop, simp add: refusedStatus_def)
       apply (rule triple_andThen [OF create], rule triple_sum)
        apply (rule triple_ret, simp add: refused httpError_def httpErrorWith_def respond_def refusedStatus_def)
       apply (rule triple_pre, rule receive, auto simp: evolves_def)
      done
    done
qed

lemma keeps_handlePut:
  assumes "keyOk s0 key kind digest" and "evolves s0 s" and "unchanged s0 s"
    and "handlePut E r key kind digest s = (response, s')"
  shows "evolves s0 s'"
proof -
  have "triple (\<lambda>s. evolves s0 s \<and> unchanged s0 s) (handlePut E r key kind digest) (\<lambda>_. evolves s0)"
  proof (rule triple_handlePut [OF assms(1)])
    fix path and result :: "object \<times> bool"
    have "0 \<le> cfgMaxBlobSize (cfg s0)" using assms(1) by (simp add: keyOk_def)
    from uploaded_finish [OF this]
    show "triple (entered s0 r key kind digest path result)
      (finishUpload E key kind digest (fst result) path (reqContentLength r))
      (\<lambda>response s. evolves s0 (cleanUp path (snd result) s))"
      unfolding keeps_def by (rule triple_weaken) (auto simp: entered_def intro: evolves_cleanUp)
  qed
  from tripleD [OF this _ assms(4)] assms(2,3) show ?thesis by simp
qed

section \<open>Routing\<close>

lemma digestPattern_facts:
  assumes "digestPattern digest"
  shows "length digest = 64" "CHR ''/'' \<notin> set digest"
proof -
  have "\<not> lowerHexChar (CHR ''/'')" by (simp add: lowerHexChar_def)
  then show "length digest = 64" "CHR ''/'' \<notin> set digest"
    using assms by (auto simp: digestPattern_def list_all_iff)
qed

lemma single_slashes:
  assumes "CHR ''/'' \<notin> set digest" and "digest \<noteq> []" and "kind = ''cas'' \<or> kind = ''ac''"
    and "path = ''/'' @ kind @ ''/'' @ digest \<or> path = kind @ ''/'' @ digest"
  shows "\<not> sublist ''//'' path \<and> \<not> suffix ''/'' path \<and>
    splitAt (CHR ''/'') (if prefix ''/'' path then tl path else path) = [kind, digest]"
proof -
  have last: "last digest \<noteq> CHR ''/''" using assms(1,2) last_in_set by metis
  have "suffix ''/'' path \<Longrightarrow> last path = CHR ''/''" by (elim suffixE) simp
  moreover have "last path = last digest" using assms(2,4) by (elim disjE) simp_all
  ultimately have trailing: "\<not> suffix ''/'' path" using last by metis
  obtain d ds where digest: "digest = d # ds" "d \<noteq> CHR ''/''" using assms(1,2) by (cases digest) auto
  have inner: "\<not> sublist ''//'' digest" using set_mono_sublist [of "''//''" digest] assms(1) by auto
  have doubled: "\<not> sublist ''//'' path"
    using assms(3,4) inner unfolding digest(1) by (elim disjE) (simp_all add: sublist_Cons_right digest(2) [symmetric])
  have "splitAt (CHR ''/'') (kind @ ''/'' @ digest) = [kind, digest]"
    using assms(1,3) by (elim disjE) (simp_all add: splitAt_none)
  moreover have "(if prefix ''/'' path then tl path else path) = kind @ ''/'' @ digest"
    using assms(3,4) by (elim disjE) simp_all
  ultimately show ?thesis using trailing doubled by simp
qed

lemma parseObjectPath_parts:
  "parseObjectPath path = Some (kind, digest) \<longleftrightarrow>
     \<not> (sublist ''//'' path \<or> suffix ''/'' path) \<and>
     splitAt (CHR ''/'') (if prefix ''/'' path then tl path else path) = [kind, digest] \<and>
     \<not> (kind \<noteq> ''cas'' \<and> kind \<noteq> ''ac'') \<and> digestPattern digest"
proof -
  have parts: "(case parts of [k, d] \<Rightarrow> if P k then None else if \<not> R d then None else Some (k, d) | _ \<Rightarrow> None)
      = Some (kind, digest) \<longleftrightarrow> parts = [kind, digest] \<and> \<not> P kind \<and> R digest"
    for parts :: "string list" and P R
    by (cases parts; cases "tl parts"; cases "tl (tl parts)") auto
  show ?thesis unfolding parseObjectPath_def by (simp only: parts if_eq_iff) blast
qed

lemma path_object:
  assumes "parseObjectPath path = Some (kind, digest)"
  shows "(kind = ''cas'' \<or> kind = ''ac'') \<and> digestPattern digest \<and>
    (path = ''/'' @ kind @ ''/'' @ digest \<or> path = kind @ ''/'' @ digest)"
proof -
  let ?rest = "if prefix ''/'' path then tl path else path"
  have parts: "splitAt (CHR ''/'') ?rest = [kind, digest]" "\<not> (kind \<noteq> ''cas'' \<and> kind \<noteq> ''ac'')" "digestPattern digest"
    using assms unfolding parseObjectPath_parts by blast+
  have "path = ''/'' @ kind @ ''/'' @ digest \<or> path = kind @ ''/'' @ digest"
    using parts(1) by (cases path) (auto simp: splitAt_two split: if_splits)
  with parts(2,3) show ?thesis by blast
qed

lemma object_path:
  assumes "kind = ''cas'' \<or> kind = ''ac''" and "digestPattern digest"
    and "path = ''/'' @ kind @ ''/'' @ digest \<or> path = kind @ ''/'' @ digest"
  shows "parseObjectPath path = Some (kind, digest)"
proof -
  have "CHR ''/'' \<notin> set digest" "digest \<noteq> []" using digestPattern_facts [OF assms(2)] by auto
  from single_slashes [OF this assms(1,3)] assms(1,2) show ?thesis by (simp only: parseObjectPath_parts) blast
qed

text \<open>
  Which paths name an object (\<open>parseObjectPath\<close>): exactly \<open>/cas/<digest>\<close> and \<open>/ac/<digest>\<close>, with or
  without the leading slash, where the digest is 64 lower-case hexadecimal digits; every other path,
  with doubled or trailing slashes, more components or another kind, is refused.
\<close>

lemma parseObjectPath_correct:
  "parseObjectPath path = Some (kind, digest) \<longleftrightarrow>
     (kind = ''cas'' \<or> kind = ''ac'') \<and> digestPattern digest \<and>
     (path = ''/'' @ kind @ ''/'' @ digest \<or> path = kind @ ''/'' @ digest)"
  using path_object object_path by blast

text \<open>
  One cache key, one object: two paths that name different objects never share a cache key, so an upload
  under one path is never read under another one, and no action result is ever read as a CAS object.
\<close>

lemma routing_injective:
  assumes "parseObjectPath path = Some (kind, digest)" and "parseObjectPath path' = Some (kind', digest')"
    and "objectKey keyPrefix kind digest = objectKey keyPrefix kind' digest'"
  shows "kind = kind' \<and> digest = digest'"
proof -
  have "kind = ''cas'' \<or> kind = ''ac''" "kind' = ''cas'' \<or> kind' = ''ac''"
    "length digest = 64" "length digest' = 64"
    using path_object [OF assms(1)] path_object [OF assms(2)] digestPattern_facts(1) by blast+
  moreover have "kind @ ''-'' @ digest = kind' @ ''-'' @ digest'"
    using assms(3) by (simp add: objectKey_def)
  moreover from this have "length kind = length kind'"
    using arg_cong [of _ _ length] calculation(3,4) by fastforce
  ultimately show ?thesis by auto
qed

lemma parseObjectPath_cas: "parseObjectPath (''/cas/'' @ digest) = Some object \<Longrightarrow> object = (''cas'', digest)"
proof (cases object)
  case (Pair kind d)
  assume "parseObjectPath (''/cas/'' @ digest) = Some object"
  then have "(kind = ''cas'' \<or> kind = ''ac'') \<and> (''/cas/'' @ digest = ''/'' @ kind @ ''/'' @ d \<or> ''/cas/'' @ digest = kind @ ''/'' @ d)"
    using path_object [of "''/cas/'' @ digest" kind d] Pair by blast
  then show ?thesis using Pair by (elim conjE disjE) simp_all
qed

text \<open>A request for an object, after its path has been parsed.\<close>

lemma serveHTTP_object:
  assumes "parseObjectPath (reqPath r) = Some (kind, digest)"
  shows "serveHTTP E r s =
    (let key = objectKey (cfgKeyPrefix (cfg s)) kind digest; s1 = count Requests s in
     if kind = ''cas'' \<and> digest = emptySHA256Digest \<and> readMethod r then handleImplicitEmptyCASRead s1
     else if readMethod r then handleRead E r key kind digest s1
     else if reqMethod r = ''PUT'' then handlePut E r key kind digest s1
     else rejectWith (methodNotAllowed ''GET, HEAD, PUT'') s1)"
proof -
  have no: "parseObjectPath ''/ready'' = None" "parseObjectPath ''/stats'' = None" "parseObjectPath ''/shutdown'' = None"
    by code_simp+
  then have "reqPath r \<noteq> ''/ready''" "reqPath r \<noteq> ''/stats''" "reqPath r \<noteq> ''/shutdown''"
    using assms by force+
  then show ?thesis
    by (simp only: serveHTTP_def if_False updating_run assms option.case prod.case Let_def) (simp add: count_def)
qed

lemma serveHTTP_no_object:
  assumes "parseObjectPath (reqPath r) = None"
  shows "\<exists>c. snd (serveHTTP E r s) = s\<lparr>stats := c\<rparr>"
proof -
  have "\<exists>c. s = s\<lparr>stats := c\<rparr>" by (rule exI [of _ "stats s"]) simp
  then show ?thesis
    by (auto simp: serveHTTP_def assms handleShutdown_def reject_def rejectWith_def count_def Let_def)
qed

lemma keyOk_path:
  assumes "parseObjectPath path = Some (kind, digest)" and "0 \<le> cfgMaxBlobSize (cfg s)"
  shows "keyOk s (objectKey (cfgKeyPrefix (cfg s)) kind digest) kind digest"
  using assms(2) path_object [OF assms(1)] by (intro keyOk_objectKey) auto

lemma serveHTTP_evolves:
  assumes "serverInv s" and "0 \<le> cfgMaxBlobSize (cfg s)" and "serveHTTP E r s = (response, s')"
  shows "evolves s s'"
proof (cases "parseObjectPath (reqPath r)")
  case None
  then obtain c where "s' = s\<lparr>stats := c\<rparr>" using serveHTTP_no_object assms(3) by (metis snd_conv)
  then show ?thesis using assms(1) by (simp add: evolves_refl)
next
  case (Some object)
  obtain kind digest where path: "parseObjectPath (reqPath r) = Some (kind, digest)" using Some by (cases object) auto
  let ?key = "objectKey (cfgKeyPrefix (cfg s)) kind digest"
  note key = keyOk_path [OF path assms(2)]
  have start: "evolves s (count Requests s)" "unchanged s (count Requests s)"
    using assms(1) by (simp_all add: evolves_refl)
  have run: "serveHTTP E r s = (response, s')" by (rule assms(3))
  consider "handleImplicitEmptyCASRead (count Requests s) = (response, s')"
    | "handleRead E r ?key kind digest (count Requests s) = (response, s')"
    | "handlePut E r ?key kind digest (count Requests s) = (response, s')"
    | "rejectWith (methodNotAllowed ''GET, HEAD, PUT'') (count Requests s) = (response, s')"
    using run unfolding serveHTTP_object [OF path] Let_def by (auto split: if_splits)
  then show ?thesis
  proof cases
    case 1
    then show ?thesis using start by (auto simp: handleImplicitEmptyCASRead_def)
  next
    case 2
    with keepsD [OF keeps_handleRead [OF key] start(1)] show ?thesis .
  next
    case 3
    with keeps_handlePut [OF key start] show ?thesis .
  next
    case 4
    then show ?thesis using start by (auto simp: rejectWith_def)
  qed
qed

section \<open>Histories of requests\<close>

fun serveAll :: "('w, 'c) env \<Rightarrow> request list \<Rightarrow> ('w server, response list) comp" where
  "serveAll E [] = returning []"
| "serveAll E (r # rs) = andThen (serveHTTP E r) (\<lambda>response.
     andThen (serveAll E rs) (\<lambda>responses. returning (response # responses)))"

lemma serveAll_evolves:
  "serverInv s \<Longrightarrow> 0 \<le> cfgMaxBlobSize (cfg s) \<Longrightarrow> serveAll E rs s = (responses, s') \<Longrightarrow> evolves s s'"
proof (induction rs arbitrary: s responses)
  case (Cons r rs)
  then obtain response s1 rest where run: "serveHTTP E r s = (response, s1)" "serveAll E rs s1 = (rest, s')"
    by (auto simp: andThen_iff)
  have ev: "evolves s s1" using serveHTTP_evolves [OF Cons.prems(1,2) run(1)] .
  then have "evolves s1 s'" using Cons.IH [OF _ _ run(2)] Cons.prems(2) by (simp add: evolves_def)
  with ev show ?case by (rule evolves_trans)
qed (simp add: evolves_refl)

text \<open>
  C19. Objects are immutable for the life of the server: whatever sequence of requests it serves, whatever
  the backend and the disk do, the invariant of the server holds afterwards, and every object that was
  there is still there, with the same content: a second upload for a key does not replace the first.
\<close>

theorem serveAll_keeps_objects:
  assumes "serverInv s" and "0 \<le> cfgMaxBlobSize (cfg s)" and "serveAll E rs s = (responses, s')"
  shows "serverInv s' \<and> cfg s' = cfg s \<and> (\<forall>key ob. objects s key = Some ob \<longrightarrow>
    objects s' key = Some ob \<and> fileContent s' (objPath ob) = fileContent s (objPath ob))"
proof -
  have ev: "evolves s s'" using assms by (rule serveAll_evolves)
  then show ?thesis
    using evolves_object [OF ev] owned_object [of s] by (simp add: evolves_def fileContent_def)
qed

section \<open>What is served\<close>

lemma readFile_run: "readFile E path s = (Inr data, s') \<Longrightarrow> files s path = Some data \<and> (\<exists>w. s' = s\<lparr>world := w\<rparr>)"
  by (auto simp: readFile_def run_iffs fault_def split: prod.splits option.splits)

lemma failedLoad_status: "failedLoad message status s = (response, s') \<Longrightarrow> rsStatus response \<in> {404, status}"
  by (auto simp: failedLoad_def notFound_def httpError_def httpErrorWith_def respond_def split: if_splits)

text \<open>A response with status 200 to a \<open>GET\<close> has the content of the file, up to where the connection broke.\<close>

lemma serveObject_200:
  assumes "serveObject E r ob s = (response, s')" and "rsStatus response = 200" and "reqMethod r = ''GET''"
  shows "rsHeaders response = objectHeaders (objSize ob) \<and>
    (\<not> rsBroken response \<longrightarrow> files s (objPath ob) = Some (rsBody response))"
proof -
  let ?head = "respond 200 (objectHeaders (objSize ob)) []"
  obtain opened s1 where opened: "openFile E (objPath ob) s = (opened, s1)" by (metis surj_pair)
  show ?thesis
  proof (cases opened)
    case (Inl e)
    then have "failedLoad ''local cache unavailable'' 500 s1 = (response, s')"
      using assms(1) opened by (simp add: serveObject_def andThen_def)
    with failedLoad_status assms(2) show ?thesis by fastforce
  next
    case (Inr u)
    then obtain w where "s1 = s\<lparr>world := w\<rparr>" using openFile_run opened by blast
    then have files: "files (count Hits s1) = files s" by (simp add: count_def)
    obtain content s2 where content: "readFile E (objPath ob) (count Hits s1) = (content, s2)" by (metis surj_pair)
    show ?thesis
    proof (cases content)
      case (Inl e)
      then have "response = ?head\<lparr>rsBroken := True\<rparr>"
        using assms(1,3) opened \<open>opened = Inr u\<close> content Inl by (simp add: serveObject_def andThen_def Let_def)
      then show ?thesis by (simp add: respond_def)
    next
      case data: (Inr data)
      let ?n = "case reqTakes r of None \<Rightarrow> length data | Some k \<Rightarrow> min k (length data)"
      have "response = ?head\<lparr>rsBody := take ?n data, rsBroken := ?n < length data\<rparr>"
        using assms(1,3) opened Inr content data by (simp add: serveObject_def andThen_def Let_def)
      moreover have "files s (objPath ob) = Some data"
        using readFile_run content data files by fastforce
      ultimately show ?thesis by (simp add: respond_def)
    qed
  qed
qed

text \<open>
  C20. End-to-end integrity of reads: when a \<open>GET\<close> of \<open>/cas/<digest>\<close> is answered with 200 and the connection
  does not break, the body has exactly that SHA-256 and the length that \<open>Content-Length\<close> announces, in both
  storage modes, whatever the backend returned; this includes the implicit empty object.
\<close>

theorem get_cas_integrity:
  assumes "serverInv s" and "0 \<le> cfgMaxBlobSize (cfg s)" and "serveHTTP E r s = (response, s')"
    and "reqMethod r = ''GET''" and "reqPath r = ''/cas/'' @ digest"
    and "rsStatus response = 200" and "\<not> rsBroken response"
  shows "sha256_hex (rsBody response) = digest \<and>
    (''Content-Length'', decimal (length (rsBody response))) \<in> set (rsHeaders response)"
proof (cases "parseObjectPath (reqPath r)")
  case None
  have "reqPath r \<noteq> ''/ready''" "reqPath r \<noteq> ''/stats''" "reqPath r \<noteq> ''/shutdown''" using assms(5) by auto
  with None assms(3) have "rsStatus response = 400"
    by (auto simp: serveHTTP_def reject_def rejectWith_def httpError_def httpErrorWith_def respond_def)
  with assms(6) show ?thesis by simp
next
  case (Some object)
  then have path: "parseObjectPath (reqPath r) = Some (''cas'', digest)"
    using assms(5) parseObjectPath_cas [of digest] by auto
  let ?s = "count Requests s"
  let ?key = "objectKey (cfgKeyPrefix (cfg s)) ''cas'' digest"
  have read: "readMethod r" using assms(4) by (simp add: readMethod_def)
  show ?thesis
  proof (cases "digest = emptySHA256Digest")
    case True
    with assms(3) read show ?thesis
      by (auto simp: serveHTTP_object [OF path] handleImplicitEmptyCASRead_def respond_def objectHeaders_def
          sha256_hex_empty)
  next
    case False
    then have "handleRead E r ?key ''cas'' digest ?s = (response, s')"
      using assms(3) read by (simp add: serveHTTP_object [OF path] Let_def)
    moreover obtain result s1 where resolve: "server_resolve E ?key ''cas'' digest ?s = (result, s1)" by (metis surj_pair)
    ultimately have rest: "(case result of Inl _ \<Rightarrow> failedLoad ''cache backend unavailable'' 502
        | Inr None \<Rightarrow> updating (count Misses) (returning notFound)
        | Inr (Some ob) \<Rightarrow> serveObject E r ob) s1 = (response, s')"
      by (simp add: handleRead_def andThen_def)
    have "\<exists>ob. result = Inr (Some ob)"
      using rest assms(6) failedLoad_status [of _ 502 s1 response s']
      by (cases result) (auto simp: notFound_def httpError_def httpErrorWith_def respond_def split: option.splits)
    then obtain ob where ob: "result = Inr (Some ob)" by blast
    with rest have serve: "serveObject E r ob s1 = (response, s')" by simp
    have inv: "serverInv ?s" "0 \<le> cfgMaxBlobSize (cfg ?s)" "?key = casKey (cfgKeyPrefix (cfg ?s)) digest"
      using assms(1,2) by (simp_all add: casKey_objectKey)
    from stored.found_content [OF inv(1) keyOk_cas [OF inv(2)] resolve [unfolded ob inv(3)]]
    obtain data where data: "files s1 (objPath ob) = Some data" "objSize ob = int (length data)"
      "sha256_hex data = digest" by (auto simp: dueTo_def)
    from serveObject_200 [OF serve assms(6,4)] assms(7) data show ?thesis
      by (simp add: objectHeaders_def)
  qed
qed

end
