(* ===== verification/Quiet.thy ===== *)
theory Quiet
  imports Serving
begin

text \<open>
  Assertions about the server that its bookkeeping does not touch, as an interface: \<open>resolves\<close> and \<open>reads\<close> say
  what an assertion must allow to survive resolving, validating and answering a read, \<open>serves\<close> what it must
  allow to survive every request. Each assertion of the development is shown to be one by an interpretation, and
  is then kept by the whole handlers.
\<close>

section \<open>Handling an upload\<close>

text \<open>\<open>handlePut\<close> for an assertion \<open>I\<close> that everything before \<open>finishUpload\<close> keeps, and \<open>J\<close> after it.\<close>

lemma quiet_handlePut:
  assumes fault: "\<And>operation. keeps I (fault E operation)" and create: "keeps I createFile"
    and update: "\<And>s c. I s \<Longrightarrow> I (count c s)" "\<And>s c n. I s \<Longrightarrow> I (countBytes c n s)"
      "\<And>s path data. I s \<Longrightarrow> I (appendFile path data s)" "\<And>s os. I s \<Longrightarrow> I (s\<lparr>objects := os\<rparr>)"
    and finish: "\<And>stored path n. triple I (finishUpload E key kind digest stored path n) (\<lambda>_. J)"
    and IJ: "\<And>s. I s \<Longrightarrow> J s" and clean: "\<And>s path. J s \<Longrightarrow> J (removeFile path s)"
  shows "triple I (handlePut E r key kind digest) (\<lambda>_. J)"
proof -
  have quiet: "triple I m (\<lambda>_. J)" if "keeps I m" for m :: "('a server, 'x) comp"
    using that unfolding keeps_def by (rule triple_weaken) (simp_all add: IJ)
  have temp: "keeps I (createTemp E)" unfolding createTemp_def by (intro keeps_rules fault create)
  have copy: "keeps I (writeFile E path data)" for path data
    unfolding writeFile_def by (intro keeps_rules fault) (rule update)
  have drop: "keeps I (reject message status)" for message status
    unfolding reject_def rejectWith_def by (intro keeps_rules) (rule update)
  have enter: "keeps I (enterObject key ob)" for ob
    unfolding enterObject_def by (intro keeps_rules) (rule update)
  have finish': "triple I (andThen (finishUpload E key kind digest stored path n)
      (\<lambda>response. returning (response, keep))) (\<lambda>_. J)" for stored path n keep
    by (rule triple_andThen [OF finish]) (simp add: triple_def returning_def)
  have receive: "triple I (receiveUpload E r key kind digest path) (\<lambda>_. J)" for path
    unfolding receiveUpload_def Let_def
    apply (rule triple_andThen_keeps [OF keeps_copyBody [OF copy]])
    apply (rule triple_prod, rule triple_update [where P' = I], erule update)
    apply (rule triple_if, rule quiet, intro keeps_rules drop)
    apply (rule triple_if, rule quiet, intro keeps_rules drop)
    apply (rule triple_reading, rule triple_pre [where P' = I])
     apply (rule triple_if, rule quiet, intro keeps_rules drop)
     apply (rule triple_andThen_keeps [OF fault], rule triple_sum)
      apply (rule quiet, rule keeps_returning)
     apply (rule triple_andThen_keeps [OF enter], rule triple_prod, rule finish')
    apply simp
    done
  have clean': "triple J (case result of (response, keep) \<Rightarrow>
      updating (if keep then id else removeFile path) (returning response)) (\<lambda>_. J)"
    for result :: "response \<times> bool" and path
    using clean by (auto simp: triple_def split: prod.split)
  show ?thesis
    unfolding handlePut_def
    apply (rule triple_if, rule quiet, rule drop)
    apply (rule triple_if, rule quiet, rule drop)
    apply (rule triple_reading, rule triple_pre [where P' = I])
     apply (rule triple_if, rule quiet, rule drop)
     apply (rule triple_andThen_keeps [OF temp], rule triple_sum)
      apply (rule quiet, rule keeps_returning)
     apply (rule triple_andThen [OF receive clean'])
    apply simp
    done
qed

lemma updatePacks_None: "packs s = None \<Longrightarrow> updatePacks f s = s"
  by (simp add: updatePacks_def)

section \<open>Assertions that resolving keeps\<close>

text \<open>
  Validating and answering a read resolve objects, and otherwise only read files, ask the cache for keys and
  count: what resolving keeps, reading keeps.
\<close>

locale resolves =
  fixes E :: "('w, 'c) env" and I :: "'w server \<Rightarrow> bool"
  assumes faulting: "keeps I (fault E operation)"
    and asking: "I s \<Longrightarrow> envExists E key (world s) = (found, w) \<Longrightarrow> I (s\<lparr>world := w\<rparr>)"
    and counting: "I s \<Longrightarrow> I (s\<lparr>stats := st\<rparr>)"
    and packs_resolving: "keeps I (packs_resolve E key kind digest)"
    and resolving: "keeps I (server_resolve E key kind digest)"
begin

lemma counts: "I s \<Longrightarrow> I (count c s)" "I s \<Longrightarrow> I (countBytes c k s)"
  by (simp_all add: count_def countBytes_def counting)

lemma kept_readings: "keeps I (acquire E)" "keeps I (readFile E path)" "keeps I (openFile E path)"
  "keeps I (statSize E path)" "keeps I (hashFile E path)"
  unfolding primitive_defs by (intro keeps_rules faulting)+

lemma kept_backendExists: "keeps I (backendExists E key)"
proof -
  have call: "keeps I (\<lambda>s. case envExists E key (world s) of (r, w) \<Rightarrow> (library r, s\<lparr>world := w\<rparr>))"
    by (rule keepsI) (auto dest: asking split: prod.splits)
  show ?thesis
    unfolding backendExists_def by (intro keeps_rules kept_readings counts call; assumption)
qed

lemma kept_exists: "keeps I (server_exists E key)"
  unfolding server_exists_def packs_exists_def
  by (intro keeps_rules packs_resolving kept_backendExists)

lemma kept_validate: "keeps I (validateActionResultClosure E ob persisted collectClosure)"
proof -
  have loadCAS: "keeps I (loadCAS E ref v)" for ref v
    unfolding loadCAS_def by (intro keeps_rules kept_readings kept_backendExists resolving)
  have blob: "keeps I (validateBlob E ref v)" for ref v
    unfolding validateBlob_def casExists_def Let_def by (intro keeps_rules kept_backendExists kept_exists)
  show ?thesis
    by (rule keeps_validateClosure; (unfold validateTree_def validateDirectory_def)?;
        intro keeps_rules kept_readings blob loadCAS)
qed

lemma kept_validations:
  "keeps I (validateActionResult E ob)" "keeps I (validateActionResultForPublication E ob)"
  "keeps I (collectActionResultClosure E ob)"
  unfolding validateActionResult_def validateActionResultForPublication_def collectActionResultClosure_def
  by (intro keeps_rules kept_validate)+

lemma kept_failures:
  "keeps I (failedLoad message status)" "keeps I handleSaveError" "keeps I (handlePackedActionValidationError e)"
  unfolding failedLoad_def handleSaveError_def handlePackedActionValidationError_def
  by (intro keeps_rules keeps_go_error counts; assumption)+

lemma kept_handleRead: "keeps I (handleRead E r key kind digest)"
  unfolding handleRead_def serveObject_def Let_def
  by (intro keeps_rules keeps_go_error resolving kept_failures kept_validations kept_readings counts;
      assumption)

end

section \<open>Assertions that reading keeps\<close>

locale reads =
  fixes E :: "('w, 'c) env" and I :: "'w server \<Rightarrow> bool"
  assumes fault: "keeps I (fault E operation)"
    and load: "I s \<Longrightarrow> envLoad E key (world s) = (loaded, w) \<Longrightarrow> I (s\<lparr>world := w\<rparr>)"
    and exists: "I s \<Longrightarrow> envExists E key (world s) = (found, w) \<Longrightarrow> I (s\<lparr>world := w\<rparr>)"
    and stats: "I s \<Longrightarrow> I (s\<lparr>stats := st\<rparr>)"
    and objects: "I s \<Longrightarrow> I (s\<lparr>objects := os\<rparr>)"
    and files: "I s \<Longrightarrow> I (s\<lparr>files := fs\<rparr>)"
    and nextFile: "I s \<Longrightarrow> I (s\<lparr>nextFile := n\<rparr>)"
    and loadedPacks: "I s \<Longrightarrow> I (updatePacks (\<lambda>p. p\<lparr>psLoadedPacks := g p\<rparr>) s)"
begin

lemma updates: "I s \<Longrightarrow> I (count c s)" "I s \<Longrightarrow> I (countBytes c k s)" "I s \<Longrightarrow> I (appendFile path data s)"
  "I s \<Longrightarrow> I (removeFile path s)"
  by (simp_all add: count_def countBytes_def appendFile_def removeFile_def stats files)

lemma kept_createFile: "keeps I createFile"
proof (rule keepsI)
  fix s r s'
  assume "I s" and "createFile s = (r, s')"
  moreover from \<open>I s\<close> have "I (s\<lparr>files := (files s)(nextFile s \<mapsto> []), nextFile := Suc (nextFile s)\<rparr>)"
    by (intro nextFile files)
  ultimately show "I s'" by (auto simp: createFile_def)
qed

lemma kept_primitives: "keeps I (acquire E)" "keeps I (createTemp E)" "keeps I (writeFile E path data)"
  "keeps I (readFile E path)" "keeps I (openFile E path)" "keeps I (statSize E path)" "keeps I (hashFile E path)"
  unfolding primitive_defs by (intro keeps_rules fault kept_createFile updates; assumption)+

lemma kept_backendLoadInto: "keeps I (backendLoadInto E key path bound)"
proof (rule keepsI)
  fix s r s'
  assume pre: "I s" and run: "backendLoadInto E key path bound s = (r, s')"
  obtain chunks result w where call: "envLoad E key (world s) = ((chunks, result), w)" by (metis surj_pair)
  have "keeps I (attempt (forEach (maxWriter_Write E path) chunks bound)
      (\<lambda>_. case result of Inl m \<Rightarrow> fail (Failure m) | Inr found \<Rightarrow> ok found))"
    unfolding maxWriter_Write_def by (intro keeps_rules kept_primitives)
  from keepsD [OF this load [OF pre call]] run call show "I s'" by (simp add: backendLoadInto_def)
qed

lemma kept_packs_resolve: "keeps I (packs_resolve E key kind digest)"
  unfolding packs_resolve_def lookupEntry_def loadPack_def downloadPack_def checkPack_def readCARBlock_def
    materialize_def enterObject_def
  by (intro keeps_rules fault kept_primitives kept_backendLoadInto updates loadedPacks objects; assumption)

lemma kept_resolve: "keeps I (server_resolve E key kind digest)"
proof -
  have remove: "keeps I m \<Longrightarrow> keeps I (removeUnlessKept path m)" for path m
    unfolding removeUnlessKept_def by (rule keeps_andThen, assumption, intro keeps_rules) (auto intro: updates)
  show ?thesis
    unfolding server_resolve_def downloadObject_def enterObject_def
    by (intro keeps_rules fault kept_primitives kept_backendLoadInto kept_packs_resolve updates objects remove; assumption)
qed

lemma reading: "resolves E I"
  by unfold_locales (rule fault kept_packs_resolve kept_resolve | erule stats | erule exists, assumption)+

lemma unpacked: "reads E (\<lambda>s. I s \<and> packs s = None)"
proof
  show "keeps (\<lambda>s. I s \<and> packs s = None) (fault E operation)" for operation
  proof (rule keepsI)
    fix s r s'
    assume "I s \<and> packs s = None" and "fault E operation s = (r, s')"
    then show "I s' \<and> packs s' = None" using keepsD [OF fault] fault_world by fastforce
  qed
qed (auto intro: load exists stats objects files nextFile loadedPacks simp: updatePacks_None)

end

sublocale reads \<subseteq> resolves E I
  by (rule reading)

section \<open>Assertions that requests keep\<close>

text \<open>
  A packed store only stages what is uploaded; without one, an upload may be published.
\<close>

locale serves = reads E I for E :: "('w, 'c) env" and I :: "'w server \<Rightarrow> bool" +
  assumes stageCAS: "I s \<Longrightarrow> I (updatePacks (stageCASLocked n digest ob) s)"
    and stageAction: "I s \<Longrightarrow> I (updatePacks (stageActionLocked n digest ob closure c) s)"
    and publish: "triple (\<lambda>s. I s \<and> packs s = None) (publishOnce E key path n) (\<lambda>_. I)"
begin

lemma kept_publishUpload: "triple (\<lambda>s. I s \<and> packs s = None) (publishUpload E key path n) (\<lambda>_. I)"
  unfolding publishUpload_def
  by (rule triple_andThen [OF publish], fold keeps_def)
    (intro keeps_rules kept_failures updates; assumption)

lemma kept_stageUpload: "keeps I (stageUpload E kind digest ob)"
  unfolding stageUpload_def stageAction_def PackStage.stageCAS_def
  by (intro keeps_rules kept_primitives kept_validations kept_failures updates stageAction stageCAS; assumption)

lemma kept_finishUpload: "triple I (finishUpload E key kind digest ob path n) (\<lambda>_. I)"
proof -
  let ?J = "\<lambda>s. I s \<and> packs s = None"
  have discard: "keeps I (updating (count DiscardedUploads) (returning noContent))"
    by (intro keeps_rules updates; assumption)
  have validated: "triple ?J (case v of Inl e \<Rightarrow> handlePackedActionValidationError e
      | Inr _ \<Rightarrow> updating (count ValidatedActionResults) (publishUpload E key path n)) (\<lambda>_. I)"
    for v :: "go_error + unit"
    apply (rule triple_sum)
     apply (rule triple_pre [OF kept_failures(3) [unfolded keeps_def]], simp)
    apply (rule triple_update [OF _ kept_publishUpload], simp add: updates)
    done
  have publishing: "triple ?J (if kind = ''ac''
      then andThen (validateActionResultForPublication E \<lparr>objPath = path, objSize = n\<rparr>) (\<lambda>validated.
        case validated of Inl e \<Rightarrow> handlePackedActionValidationError e
        | Inr _ \<Rightarrow> updating (count ValidatedActionResults) (publishUpload E key path n))
      else publishUpload E key path n) (\<lambda>_. I)"
    by (rule triple_if, rule triple_andThen_keeps [OF resolves.kept_validations(2) [OF reads.reading [OF unpacked]] validated],
        rule kept_publishUpload)
  have packed: "triple (\<lambda>s. I s \<and> packs s = p) (if p \<noteq> None then stageUpload E kind digest ob else m) (\<lambda>_. I)"
    if "triple ?J m (\<lambda>_. I)" for p and m :: "('w server, response) comp"
    using triple_pre [OF that, of "\<lambda>s. I s \<and> packs s = p"] triple_pre [OF kept_stageUpload [unfolded keeps_def], of "\<lambda>s. I s \<and> packs s = p"]
    by (cases p) simp_all
  show ?thesis
    unfolding finishUpload_def
    apply (rule triple_reading, rule triple_if)
     apply (rule triple_pre [OF discard [unfolded keeps_def]], simp)
    apply (rule triple_reading, rule triple_pre [OF packed [OF publishing]], blast)
    done
qed

lemma kept_handlePut: "keeps I (handlePut E r key kind digest)"
  unfolding keeps_def
  by (rule quiet_handlePut [OF fault kept_createFile updates(1-3) objects kept_finishUpload _ updates(4)])

lemma kept_serveHTTP: "keeps I (serveHTTP E r)"
proof -
  have shutdown: "keeps I (handleShutdown r)" unfolding handleShutdown_def by (intro keeps_rules)
  have empty: "keeps I handleImplicitEmptyCASRead"
    unfolding handleImplicitEmptyCASRead_def by (intro keeps_rules updates; assumption)
  have reject: "keeps I (rejectWith response)" "keeps I (reject message status)" for response message status
    unfolding reject_def rejectWith_def by (intro keeps_rules updates; assumption)+
  show ?thesis
    unfolding serveHTTP_def
    by (intro keeps_rules shutdown empty reject kept_handleRead kept_handlePut updates; assumption)
qed

lemma kept_serveAll: "keeps I (serveAll E rs)"
proof (induction rs)
  case (Cons r rs)
  then show ?case unfolding serveAll.simps by (intro keeps_rules kept_serveHTTP)
qed (simp only: serveAll.simps keeps_returning)

end

end
