(* ===== verification/Guarantees.thy ===== *)
theory Guarantees
  imports Quiet
begin

text \<open>
  The guarantees of uploads and of action results: what is refused, what is accepted, what a read-only and
  a fail-open server do, and that action results are served and published only when they are complete.
\<close>

section \<open>Uploads\<close>

lemma serveHTTP_put:
  assumes "parseObjectPath (reqPath r) = Some (kind, digest)" and "reqMethod r = ''PUT''"
    and "serveHTTP E r s = (response, s')"
  shows "handlePut E r (objectKey (cfgKeyPrefix (cfg s)) kind digest) kind digest (count Requests s) = (response, s')"
  using assms by (simp add: serveHTTP_object readMethod_def Let_def)

lemma triple_put:
  assumes "serverInv s" and "0 \<le> cfgMaxBlobSize (cfg s)" and "serveHTTP E r s = (response, s')"
    and "reqMethod r = ''PUT''" and path: "parseObjectPath (reqPath r) = Some (kind, digest)"
    and refused: "\<And>response s'. rsStatus response \<in> refusedStatus \<Longrightarrow> evolves s s' \<Longrightarrow> unchanged s s' \<Longrightarrow> Q response s'"
    and accepted: "\<And>path result. reqContentLength r \<le> cfgMaxBlobSize (cfg s) \<Longrightarrow>
      triple (entered s r (objectKey (cfgKeyPrefix (cfg s)) kind digest) kind digest path result)
      (finishUpload E (objectKey (cfgKeyPrefix (cfg s)) kind digest) kind digest (fst result) path (reqContentLength r))
      (\<lambda>response s. Q response (cleanUp path (snd result) s))"
  shows "Q response s'"
proof -
  have "triple (\<lambda>s'. evolves s s' \<and> unchanged s s')
      (handlePut E r (objectKey (cfgKeyPrefix (cfg s)) kind digest) kind digest) Q"
    by (rule triple_handlePut [OF keyOk_path [OF path assms(2)] refused accepted])
  moreover have "evolves s (count Requests s) \<and> unchanged s (count Requests s)"
    using assms(1) by (simp add: evolves_refl)
  ultimately show ?thesis
    using serveHTTP_put [OF path assms(4,3)] by (blast dest: tripleD)
qed

text \<open>
  An assertion that every request keeps, when it knows of an accepted upload what the handler has checked: reading,
  a refused upload and an accepted one are the cases.
\<close>

locale accepts =
  fixes E :: "('w, 'c) env" and I :: "'w server \<Rightarrow> bool"
  assumes counted: "I s \<Longrightarrow> I (s\<lparr>stats := st\<rparr>)"
    and valid: "I s \<Longrightarrow> serverInv s \<and> 0 \<le> cfgMaxBlobSize (cfg s)"
    and refused: "I s \<Longrightarrow> evolves s t \<Longrightarrow> unchanged s t \<Longrightarrow> I t"
    and reads: "I s \<Longrightarrow> parseObjectPath (reqPath r) = Some (kind, digest) \<Longrightarrow>
      handleRead E r (objectKey (cfgKeyPrefix (cfg s)) kind digest) kind digest s = (response, t) \<Longrightarrow> I t"
    and accepted: "I s \<Longrightarrow> parseObjectPath (reqPath r) = Some (kind, digest) \<Longrightarrow> reqContentLength r \<le> cfgMaxBlobSize (cfg s) \<Longrightarrow>
      entered s r (objectKey (cfgKeyPrefix (cfg s)) kind digest) kind digest path result t \<Longrightarrow>
      finishUpload E (objectKey (cfgKeyPrefix (cfg s)) kind digest) kind digest (fst result) path (reqContentLength r) t
        = (response, t') \<Longrightarrow> I (cleanUp path (snd result) t')"
begin

lemma kept_serveHTTP: "keeps I (serveHTTP E r)"
proof (rule keepsI)
  fix s response s'
  assume pre: "I s" and run: "serveHTTP E r s = (response, s')"
  show "I s'"
  proof (cases "parseObjectPath (reqPath r)")
    case None
    then obtain st where "s' = s\<lparr>stats := st\<rparr>" using serveHTTP_no_object run by (metis snd_conv)
    then show ?thesis using counted [OF pre] by simp
  next
    case (Some object)
    obtain kind digest where path: "parseObjectPath (reqPath r) = Some (kind, digest)" using Some by (cases object) auto
    let ?key = "objectKey (cfgKeyPrefix (cfg s)) kind digest" and ?s = "count Requests s"
    have s: "serverInv s" "0 \<le> cfgMaxBlobSize (cfg s)" using valid [OF pre] by simp_all
    have counts: "I t \<Longrightarrow> I (count c t)" for t c by (simp add: count_def counted)
    consider "handleImplicitEmptyCASRead ?s = (response, s')" | "handleRead E r ?key kind digest ?s = (response, s')"
      | "reqMethod r = ''PUT''" | "rejectWith (methodNotAllowed ''GET, HEAD, PUT'') ?s = (response, s')"
      using run unfolding serveHTTP_object [OF path] Let_def by (auto split: if_splits)
    then show ?thesis
    proof cases
      case 1
      then show ?thesis using counts [OF counts [OF pre]] by (auto simp: handleImplicitEmptyCASRead_def)
    next
      case 2
      then show ?thesis using reads [OF counts [OF pre] path] by simp
    next
      case 3
      show ?thesis
      proof (rule triple_put [OF s run 3 path, where Q = "\<lambda>_. I"])
        show "I t" if "evolves s t" "unchanged s t" for t by (rule refused [OF pre that])
        show "triple (entered s r ?key kind digest p result) (finishUpload E ?key kind digest (fst result) p (reqContentLength r))
          (\<lambda>_ t. I (cleanUp p (snd result) t))" if "reqContentLength r \<le> cfgMaxBlobSize (cfg s)" for p and result :: "object \<times> bool"
          by (rule tripleI) (rule accepted [OF pre path that])
      qed
    next
      case 4
      then show ?thesis using counts [OF counts [OF pre]] by (auto simp: rejectWith_def)
    qed
  qed
qed

lemma kept_serveAll: "keeps I (serveAll E rs)"
proof (induction rs)
  case (Cons r rs)
  then show ?case unfolding serveAll.simps by (intro keeps_rules kept_serveHTTP)
qed (simp only: serveAll.simps keeps_returning)

end

text \<open>
  C21. An upload that is not what it claims to be leaves no trace (\<open>handlePut\<close>): when the body is shorter or
  longer than \<open>Content-Length\<close>, larger than the limit, or does not have the SHA-256 of its CAS path, the
  answer is an error, and the objects, the set of published keys and the packed store stay as they were.
\<close>

theorem put_mismatch_refused:
  assumes "serverInv s" and "0 \<le> cfgMaxBlobSize (cfg s)" and "serveHTTP E r s = (response, s')"
    and "reqMethod r = ''PUT''" and "parseObjectPath (reqPath r) = Some (kind, digest)"
    and "int (length (concat (reqBody r))) \<noteq> reqContentLength r \<or> reqContentLength r > cfgMaxBlobSize (cfg s) \<or>
      kind = ''cas'' \<and> sha256_hex (concat (reqBody r)) \<noteq> digest"
  shows "rsStatus response \<in> {400, 411, 413, 415, 422, 500} \<and> objects s' = objects s \<and>
    published s' = published s \<and> packs s' = packs s"
proof -
  have "rsStatus response \<in> refusedStatus \<and> unchanged s s'"
  proof (rule triple_put [OF assms(1-5), where Q = "\<lambda>response s'. rsStatus response \<in> refusedStatus \<and> unchanged s s'"])
    fix path and result :: "object \<times> bool"
    assume size: "reqContentLength r \<le> cfgMaxBlobSize (cfg s)"
    have "\<not> uploaded s r (objectKey (cfgKeyPrefix (cfg s)) kind digest) kind digest path result t" for t
      using assms(6) size by (auto simp: uploaded_def)
    then have "\<not> entered s r (objectKey (cfgKeyPrefix (cfg s)) kind digest) kind digest path result t" for t
      by (simp add: entered_def)
    then show "triple (entered s r (objectKey (cfgKeyPrefix (cfg s)) kind digest) kind digest path result)
      (finishUpload E (objectKey (cfgKeyPrefix (cfg s)) kind digest) kind digest (fst result) path (reqContentLength r))
      (\<lambda>response s'. rsStatus response \<in> refusedStatus \<and> unchanged s (cleanUp path (snd result) s'))"
      by (simp add: triple_def)
  qed simp
  then show ?thesis by (simp add: refusedStatus_def unchanged_def)
qed

text \<open>
  C22. An upload that is answered with 204 is stored (\<open>handlePut\<close>): its body has the announced length, within
  the limit, and under a CAS path the digest of the path; afterwards the key has an object whose file
  has, under a CAS path, that digest, and whose file is the body itself when the key had none before.
\<close>

theorem put_accepted_stored:
  assumes "serverInv s" and "0 \<le> cfgMaxBlobSize (cfg s)" and "serveHTTP E r s = (response, s')"
    and "reqMethod r = ''PUT''" and "parseObjectPath (reqPath r) = Some (kind, digest)"
    and "rsStatus response = 204"
  shows "int (length (concat (reqBody r))) = reqContentLength r \<and> reqContentLength r \<le> cfgMaxBlobSize (cfg s) \<and>
    (kind = ''cas'' \<longrightarrow> sha256_hex (concat (reqBody r)) = digest) \<and>
    (\<exists>ob. objects s' (objectKey (cfgKeyPrefix (cfg s)) kind digest) = Some ob \<and>
      (kind = ''cas'' \<longrightarrow> sha256_hex (fileContent s' (objPath ob)) = digest) \<and>
      (objects s (objectKey (cfgKeyPrefix (cfg s)) kind digest) = None \<longrightarrow>
         fileContent s' (objPath ob) = concat (reqBody r)))"
    (is "?stored s'")
proof -
  let ?key = "objectKey (cfgKeyPrefix (cfg s)) kind digest"
  have "rsStatus response = 204 \<longrightarrow> ?stored s'"
  proof (rule triple_put [OF assms(1-5), where Q = "\<lambda>response s'. rsStatus response = 204 \<longrightarrow> ?stored s'"])
    fix path and result :: "object \<times> bool"
    assume size: "reqContentLength r \<le> cfgMaxBlobSize (cfg s)"
    have "?stored (cleanUp path (snd result) t)" if up: "uploaded s r ?key kind digest path result t" for t
    proof -
      let ?t = "cleanUp path (snd result) t"
      have inv: "serverInv ?t" "cfg ?t = cfg s"
        using evolves_cleanUp [OF up] by (simp_all add: evolves_def)
      have ob: "objects ?t ?key = Some (fst result)" using up by (simp add: uploaded_def)
      then have "storedOk ?t ?key (fst result)" using inv(1) by (simp add: serverInv_def)
      then have "kind = ''cas'' \<longrightarrow> sha256_hex (fileContent ?t (objPath (fst result))) = digest"
        using inv(2) by (auto simp: storedOk_def fileContent_def casKey_objectKey)
      moreover have "fileContent ?t (objPath (fst result)) = concat (reqBody r)" if "objects s ?key = None"
        using up that by (simp add: uploaded_def cleanUp_def fileContent_def)
      ultimately show ?thesis using up size ob by (auto simp: uploaded_def)
    qed
    then show "triple (entered s r ?key kind digest path result)
      (finishUpload E ?key kind digest (fst result) path (reqContentLength r))
      (\<lambda>response s'. rsStatus response = 204 \<longrightarrow> ?stored (cleanUp path (snd result) s'))"
      by (intro triple_weaken [OF uploaded_finish [OF assms(2), unfolded keeps_def]]) (unfold entered_def, blast+)
  qed (auto simp: refusedStatus_def)
  then show ?thesis using assms(6) by blast
qed

section \<open>Read-only servers\<close>

definition quietly :: "('w \<Rightarrow> bool) \<Rightarrow> config \<Rightarrow> bool \<Rightarrow> 'w server \<Rightarrow> bool" where
  "quietly P c packed s \<longleftrightarrow> inWorld P s \<and> cfg s = c \<and> (packs s \<noteq> None \<longleftrightarrow> packed)"

lemma quietly_fields [simp]:
  "quietly P c b (s\<lparr>stats := st\<rparr>) = quietly P c b s" "quietly P c b (s\<lparr>objects := os\<rparr>) = quietly P c b s"
  "quietly P c b (count n s) = quietly P c b s" "quietly P c b (countBytes n k s) = quietly P c b s"
  "quietly P c b (removeFile path s) = quietly P c b s" "quietly P c b (updatePacks f s) = quietly P c b s"
  "quietly P c b (s\<lparr>nextFile := k\<rparr>) = quietly P c b s" "quietly P c b (s\<lparr>files := fs\<rparr>) = quietly P c b s"
  "quietly P c b (appendFile path data s) = quietly P c b s" "quietly P c b (stageCAS d ob s) = quietly P c b s"
  by (simp_all add: quietly_def removeFile_def updatePacks_def appendFile_def stageCAS_def countBytes_def inWorld_def
      count_def)

lemma quietly_fault:
  assumes "closedReads E P"
  shows "keeps (quietly P c b) (fault E operation)"
proof (rule keepsI)
  fix s r s'
  assume pre: "quietly P c b s" and run: "fault E operation s = (r, s')"
  obtain q w where call: "envFault E operation (world s) = (q, w)" by (metis surj_pair)
  have "P w" using closedReadsD(1) [OF assms _ call] pre by (simp add: quietly_def inWorld_def)
  moreover have "s' = s\<lparr>world := w\<rparr>" using run call by (cases q) (simp_all add: fault_def)
  ultimately show "quietly P c b s'" using pre by (simp add: quietly_def)
qed

text \<open>\<open>finishUpload\<close> on a read-only server, or one with a packed store, does not save.\<close>

lemma world_handleRead: "closedReads E P \<Longrightarrow> keeps (inWorld P) (handleRead E r key kind digest)"
  unfolding handleRead_def serveObject_def failedLoad_def validateActionResult_def Let_def
  by (intro keeps_rules keeps_go_error world_rules; simp)

lemma world_stageUpload: "closedReads E P \<Longrightarrow> keeps (inWorld P) (stageUpload E kind digest ob)"
  unfolding stageUpload_def collectActionResultClosure_def stageAction_def handleSaveError_def
    handlePackedActionValidationError_def
  by (intro keeps_rules keeps_go_error world_rules; simp add: stageCAS_def)

lemma world_finishUpload:
  assumes "closedReads E P" and "\<not> cfgWriteEnabled c \<or> packed"
  shows "triple (quietly P c packed) (finishUpload E key kind digest ob path n) (\<lambda>_. inWorld P)"
  unfolding finishUpload_def
  apply (rule triple_reading)
  subgoal for writeEnabled
    apply (rule triple_if, simp add: triple_def quietly_def)
    apply (rule triple_reading)
    subgoal for p
      apply (rule triple_pre [where P' = "\<lambda>s. inWorld P s \<and> p \<noteq> None"], rule triple_assume)
       apply (simp add: world_stageUpload [OF assms(1), unfolded keeps_def])
      using assms(2) apply (auto simp: quietly_def)
      done
    done
  done

lemma world_handlePut:
  assumes "closedReads E P" and "\<not> cfgWriteEnabled c \<or> packed"
  shows "triple (quietly P c packed) (handlePut E r key kind digest) (\<lambda>_. inWorld P)"
proof (rule quiet_handlePut)
  show "keeps (quietly P c packed) createFile" by (auto intro!: keepsI simp: createFile_def)
qed (simp_all add: quietly_fault assms(1) world_finishUpload [OF assms], simp add: quietly_def)

text \<open>
  C23. Only a \<open>PUT\<close> to a write-enabled server without a packed store writes to the cache while a request is
  served: in every other case, reads, uploads to a read-only server, and uploads that are only staged,
  every property of the cache that its read operations keep holds after the request if it held before.
\<close>

theorem readonly_never_saves:
  assumes "closedReads E P" and "P (world s)" and "serveHTTP E r s = (response, s')"
    and "reqMethod r \<noteq> ''PUT'' \<or> \<not> cfgWriteEnabled (cfg s) \<or> packs s \<noteq> None"
  shows "P (world s')"
proof (cases "parseObjectPath (reqPath r)")
  case None
  then obtain c where "s' = s\<lparr>stats := c\<rparr>" using serveHTTP_no_object assms(3) by (metis snd_conv)
  with assms(2) show ?thesis by simp
next
  case (Some object)
  obtain kind digest where path: "parseObjectPath (reqPath r) = Some (kind, digest)" using Some by (cases object) auto
  let ?s = "count Requests s"
  let ?key = "objectKey (cfgKeyPrefix (cfg s)) kind digest"
  consider "handleImplicitEmptyCASRead ?s = (response, s')" | "handleRead E r ?key kind digest ?s = (response, s')"
    | "reqMethod r = ''PUT''" "handlePut E r ?key kind digest ?s = (response, s')"
    | "rejectWith (methodNotAllowed ''GET, HEAD, PUT'') ?s = (response, s')"
    using assms(3) unfolding serveHTTP_object [OF path] Let_def by (auto split: if_splits)
  then show ?thesis
  proof cases
    case 1
    then show ?thesis using assms(2) by (auto simp: handleImplicitEmptyCASRead_def)
  next
    case 2
    from keepsD [OF world_handleRead [OF assms(1)] _ 2] assms(2) show ?thesis by (simp add: inWorld_def)
  next
    case 3
    have "quietly P (cfg s) (packs s \<noteq> None) ?s" using assms(2) by (simp add: quietly_def inWorld_def)
    from tripleD [OF world_handlePut [OF assms(1)] this 3(2)] assms(4) 3(1) show ?thesis by (simp add: inWorld_def)
  next
    case 4
    then show ?thesis using assms(2) by (auto simp: rejectWith_def)
  qed
qed

section \<open>Fail-open servers\<close>

text \<open>A computation that answers with a status of \<open>S\<close>, while the server evolves from \<open>s0\<close>.\<close>

definition answers :: "'w server \<Rightarrow> nat set \<Rightarrow> ('w server, response) comp \<Rightarrow> bool" where
  "answers s0 S m \<longleftrightarrow> triple (evolves s0) m (\<lambda>response s. rsStatus response \<in> S)"

lemma answers_after: "keeps (evolves s0) m \<Longrightarrow> (\<And>x. answers s0 S (k x)) \<Longrightarrow> answers s0 S (andThen m k)"
  unfolding answers_def by (rule triple_andThen_keeps)

lemma answers_update:
  "(\<And>s. evolves s0 s \<Longrightarrow> evolves s0 (f s)) \<Longrightarrow> answers s0 S k \<Longrightarrow> answers s0 S (updating f k)"
  unfolding answers_def by (rule triple_update)

lemma answers_returning: "rsStatus response \<in> S \<Longrightarrow> answers s0 S (returning response)"
  by (simp add: answers_def triple_def)

lemma answers_sum:
  "(\<And>e. x = Inl e \<Longrightarrow> answers s0 S (f e)) \<Longrightarrow> (\<And>a. x = Inr a \<Longrightarrow> answers s0 S (g a)) \<Longrightarrow>
     answers s0 S (case x of Inl e \<Rightarrow> f e | Inr a \<Rightarrow> g a)"
  by (cases x) auto

lemma answers_option:
  "(x = None \<Longrightarrow> answers s0 S m) \<Longrightarrow> (\<And>a. x = Some a \<Longrightarrow> answers s0 S (k a)) \<Longrightarrow>
     answers s0 S (case x of None \<Rightarrow> m | Some a \<Rightarrow> k a)"
  by (cases x) auto

lemma answers_if: "(b \<Longrightarrow> answers s0 S m) \<Longrightarrow> (\<not> b \<Longrightarrow> answers s0 S n) \<Longrightarrow> answers s0 S (if b then m else n)"
  by simp

lemma answers_reading: "(\<And>x. answers s0 S (k x)) \<Longrightarrow> answers s0 S (reading f k)"
  by (auto simp: answers_def triple_def)

lemma answers_failOpen:
  assumes "cfgFailOpen (cfg s0)" and "answers s0 S m"
  shows "answers s0 S (reading (\<lambda>s. cfgFailOpen (cfg s)) (\<lambda>failOpen. if failOpen then m else n))"
  using assms by (auto simp: answers_def triple_def evolves_def)

lemma answers_go_error:
  assumes "\<And>m. answers s0 S (f m)" "\<And>m. answers s0 S (g m)" "\<And>m. answers s0 S (h m)" "\<And>m. answers s0 S (k m)"
    "answers s0 S d"
  shows "answers s0 S (case e of Failure m \<Rightarrow> f m | IncompleteActionResult m \<Rightarrow> g m
    | InvalidActionResult m \<Rightarrow> h m | Panic m \<Rightarrow> k m | Diverges \<Rightarrow> d)"
  using assms by (cases e) simp_all

lemmas answers_rules = answers_update answers_returning answers_sum answers_option answers_if answers_go_error

lemma evolves_update_simps:
  "evolves s0 s \<Longrightarrow> evolves s0 (count c s)" "evolves s0 s \<Longrightarrow> evolves s0 (countBytes c n s)"
  "evolves s0 s \<Longrightarrow> evolves s0 (stageCAS digest ob s)"
  by simp_all

lemma status_simps [simp]:
  "rsStatus notFound = 404" "rsStatus noContent = 204" "rsStatus (respond status headers body) = status"
  "rsStatus (httpError message status) = status"
  by (simp_all add: notFound_def noContent_def respond_def httpError_def httpErrorWith_def)

lemma answers_failures:
  assumes "cfgFailOpen (cfg s0)"
  shows "answers s0 {200, 404} (failedLoad message status)" "answers s0 {204} handleSaveError"
    "answers s0 {204} (handlePackedActionValidationError e)"
  unfolding failedLoad_def handleSaveError_def handlePackedActionValidationError_def
  by (intro answers_rules answers_failOpen assms evolves_update_simps; simp)+

lemma answers_serveObject:
  assumes "cfgFailOpen (cfg s0)"
  shows "answers s0 {200, 404} (serveObject E r ob)"
  unfolding serveObject_def Let_def
  by (intro answers_rules answers_after keeps_openFile keeps_readFile answers_failures assms evolves_update_simps;
      simp add: respond_def)

lemma answers_handleRead:
  assumes "cfgFailOpen (cfg s0)" and key: "keyOk s0 key kind digest"
  shows "answers s0 {200, 404} (handleRead E r key kind digest)"
proof -
  have size: "0 \<le> cfgMaxBlobSize (cfg s0)" using key by (simp add: keyOk_def)
  have resolve: "keeps (evolves s0) (server_resolve E key kind digest)"
    using triple_server_resolve [OF key] by (rule keeps_resolved)
  show ?thesis
    unfolding handleRead_def
    by (intro answers_rules answers_after resolve keeps_validations size answers_failures answers_serveObject assms
        evolves_update_simps; simp)
qed

lemma answers_finishUpload:
  assumes "cfgFailOpen (cfg s0)" and "0 \<le> cfgMaxBlobSize (cfg s0)"
  shows "answers s0 {204} (finishUpload E key kind digest ob path n)"
  unfolding finishUpload_def stageUpload_def publishUpload_def
  by (intro answers_rules answers_reading answers_after keeps_validations assms answers_failures keeps_stageAction
      evolves_publishOnce evolves_update_simps; simp)

text \<open>
  C24. A fail-open server never fails a build (\<open>FailOpen\<close>): whatever the backend, the disk and the clock do,
  a read is answered with 200 or 404, and an upload with 204, or with an error that says what is wrong with
  the upload or its spool file; no error of the cache backend becomes an error status.
\<close>

theorem fail_open_never_fails:
  assumes "serverInv s" and "0 \<le> cfgMaxBlobSize (cfg s)" and "serveHTTP E r s = (response, s')"
    and "cfgFailOpen (cfg s)" and "parseObjectPath (reqPath r) = Some (kind, digest)"
  shows "(reqMethod r \<in> {''GET'', ''HEAD''} \<longrightarrow> rsStatus response \<in> {200, 404}) \<and>
    (reqMethod r = ''PUT'' \<longrightarrow> rsStatus response \<in> {204, 400, 411, 413, 415, 422, 500})"
proof (intro conjI impI)
  assume "reqMethod r \<in> {''GET'', ''HEAD''}"
  then have read: "readMethod r" by (auto simp: readMethod_def)
  let ?key = "objectKey (cfgKeyPrefix (cfg s)) kind digest"
  show "rsStatus response \<in> {200, 404}"
  proof (cases "kind = ''cas'' \<and> digest = emptySHA256Digest")
    case True
    with assms(3) read show ?thesis
      by (auto simp: serveHTTP_object [OF assms(5)] handleImplicitEmptyCASRead_def)
  next
    case False
    then have "handleRead E r ?key kind digest (count Requests s) = (response, s')"
      using assms(3) read unfolding serveHTTP_object [OF assms(5)] Let_def by (metis (full_types))
    from tripleD [OF answers_handleRead [OF assms(4) keyOk_path [OF assms(5,2)], unfolded answers_def] _ this] assms(1)
    show ?thesis by (simp add: evolves_refl)
  qed
next
  assume put: "reqMethod r = ''PUT''"
  have "rsStatus response \<in> insert 204 refusedStatus"
  proof (rule triple_put [OF assms(1-3) put assms(5), where Q = "\<lambda>response _. rsStatus response \<in> insert 204 refusedStatus"])
    fix path and result :: "object \<times> bool"
    show "triple (entered s r (objectKey (cfgKeyPrefix (cfg s)) kind digest) kind digest path result)
      (finishUpload E (objectKey (cfgKeyPrefix (cfg s)) kind digest) kind digest (fst result) path (reqContentLength r))
      (\<lambda>response _. rsStatus response \<in> insert 204 refusedStatus)"
      by (rule triple_weaken [OF answers_finishUpload [OF assms(4,2), unfolded answers_def]])
        (auto simp: entered_def uploaded_def)
  qed simp
  then show "rsStatus response \<in> {204, 400, 411, 413, 415, 422, 500}" by (simp add: refusedStatus_def)
qed

section \<open>Action results\<close>

lemma handleRead_action:
  assumes "handleRead E r key ''ac'' digest s = (response, s')" and "rsStatus response = 200"
  obtains ob s1 s2 where "server_resolve E key ''ac'' digest s = (Inr (Some ob), s1)"
    "validateActionResult E ob s1 = (Inr (), s2)"
    "serveObject E r ob (count ValidatedActionResults s2) = (response, s')"
proof -
  have no: "rsStatus q \<noteq> 200" if "failedLoad message 502 t = (q, t')" for message t and q :: response and t' :: "'a server"
    using failedLoad_status [OF that] by auto
  obtain result s1 where resolve: "server_resolve E key ''ac'' digest s = (result, s1)" by (metis surj_pair)
  have "\<exists>ob. result = Inr (Some ob)"
    using assms resolve no by (cases result) (auto simp: handleRead_def andThen_def split: option.splits)
  then obtain ob where ob: "result = Inr (Some ob)" by blast
  obtain v s2 where validate: "validateActionResult E ob s1 = (v, s2)" by (metis surj_pair)
  have "\<exists>u. v = Inr u"
  proof (rule ccontr)
    assume "\<not> (\<exists>u. v = Inr u)"
    then obtain e where "v = Inl e" by (cases v) auto
    with assms resolve ob validate no show False
      by (cases e) (auto simp: handleRead_def andThen_def)
  qed
  then show thesis
    using that resolve ob validate assms(1) by (auto simp: handleRead_def andThen_def)
qed

lemma grows_world:
  assumes "honestBackend E has" and "keeps (inWorld (has key)) m" and "m s = (r, s')"
  shows "has key (world s) \<Longrightarrow> has key (world s')"
  using keepsD [OF assms(2) _ assms(3)] by (simp add: inWorld_def)

lemma grows_reads:
  assumes "honestBackend E has" and "good s" and "m s = (r, s')"
    and "keeps (evolves s) m" and "\<And>P. closedReads E P \<Longrightarrow> keeps (inWorld P) m"
  shows "grows has s s'"
  using assms keepsD [OF assms(4) evolves_refl assms(3)] grows_world [OF assms(1) assms(5) assms(3)]
  by (simp add: grows_def good_def honestBackend_def)

text \<open>
  C25. An action result is only ever served complete (\<open>handleRead\<close>): with a backend that tells the truth, when
  a \<open>GET\<close> of \<open>/ac/<digest>\<close> is answered with 200 and the whole body is sent, the body is an action result all of
  whose outputs, with the files of its trees and of every directory below its roots, are available.
\<close>

theorem get_action_complete:
  assumes "honestBackend E has" and "serverInv s" and "0 \<le> cfgMaxBlobSize (cfg s)"
    and "serveHTTP E r s = (response, s')" and "reqMethod r = ''GET''"
    and "parseObjectPath (reqPath r) = Some (''ac'', digest)" and "rsStatus response = 200" and "\<not> rsBroken response"
  shows "closureComplete (envWire E) has False s' (rsBody response)"
proof -
  let ?s = "count Requests s" and ?key = "objectKey (cfgKeyPrefix (cfg s)) ''ac'' digest"
  note key = keyOk_path [OF assms(6,3)]
  have good: "good ?s" using assms(2,3) by (simp add: good_def)
  have "handleRead E r ?key ''ac'' digest ?s = (response, s')"
    using assms(4,5) by (simp add: serveHTTP_object [OF assms(6)] readMethod_def Let_def)
  then obtain ob s1 s2 where resolve: "server_resolve E ?key ''ac'' digest ?s = (Inr (Some ob), s1)"
    and validate: "validateActionResult E ob s1 = (Inr (), s2)"
    and serve: "serveObject E r ob (count ValidatedActionResults s2) = (response, s')"
    using handleRead_action assms(7) by metis
  have "keeps (evolves ?s) (server_resolve E ?key ''ac'' digest)"
    using triple_server_resolve [of ?s ?key "''ac''" digest E] key by (intro keeps_resolved) (simp add: keyOk_def)
  from grows_reads [OF assms(1) good resolve this world_server_resolve] have s1: "good s1"
    using grows_good good by blast
  obtain closure where run: "validateActionResultClosure E ob False False s1 = (Inr closure, s2)"
    using validate by (auto simp: validateActionResult_def attempt_Inr_iff)
  obtain data where data: "files s1 (objPath ob) = Some data" and complete: "closureComplete (envWire E) has False s2 data"
    using validation_complete [OF assms(1) s1 run] by blast
  have size: "0 \<le> cfgMaxBlobSize (cfg s1)" using s1 by (simp add: good_def)
  have g12: "grows has s1 s2"
    using grows_reads [OF assms(1) s1 run keeps_validateActionResultClosure [OF size] world_validateActionResultClosure] .
  then have s2: "good (count ValidatedActionResults s2)" using grows_good s1 by (simp add: good_def) blast
  have bound: "objPath ob < nextFile s1" using s1 data by (simp add: good_def serverInv_def)
  then have "files (count ValidatedActionResults s2) (objPath ob) = Some data"
    using g12 data by (simp add: grows_def evolves_def frame_def)
  with serveObject_200 [OF serve assms(7,5)] assms(8) have "rsBody response = data" by simp
  moreover have "grows has (count ValidatedActionResults s2) s'"
  proof (rule grows_reads [OF assms(1) s2 serve keeps_serveObject])
    fix P :: "'a \<Rightarrow> bool"
    assume "closedReads E P"
    then show "keeps (inWorld P) (serveObject E r ob)"
      unfolding serveObject_def failedLoad_def Let_def by (intro keeps_rules world_rules; simp)
  qed
  moreover have "grows has s2 (count ValidatedActionResults s2)" using s2 by (simp add: grows_def good_def evolves_refl)
  ultimately show ?thesis using complete closureComplete_grows by blast
qed

text \<open>Resolving and validating publish nothing.\<close>

definition publishedIs :: "string set \<Rightarrow> 'w server \<Rightarrow> bool" where
  "publishedIs X s \<longleftrightarrow> published s = X"

lemma publishedIs_fields [simp]:
  "publishedIs X (s\<lparr>world := w\<rparr>) = publishedIs X s" "publishedIs X (s\<lparr>objects := os\<rparr>) = publishedIs X s"
  "publishedIs X (s\<lparr>files := fs\<rparr>) = publishedIs X s" "publishedIs X (s\<lparr>nextFile := n\<rparr>) = publishedIs X s"
  "publishedIs X (count c s) = publishedIs X s" "publishedIs X (updatePacks f s) = publishedIs X s"
  "publishedIs X (appendFile path data s) = publishedIs X s" "publishedIs X (removeFile path s) = publishedIs X s"
  by (simp_all add: publishedIs_def updatePacks_def appendFile_def removeFile_def)

interpretation published: reads E "publishedIs X" for E X
proof
  show "keeps (publishedIs X) (fault E operation)" for operation by (rule keeps_fault) simp
qed (simp_all add: publishedIs_def updatePacks_def)

text \<open>A backend whose saves do not remove entries.\<close>

definition savesKeep :: "('w, 'c) env \<Rightarrow> (string \<Rightarrow> 'w \<Rightarrow> bool) \<Rightarrow> bool" where
  "savesKeep E has \<longleftrightarrow> (\<forall>k key data w. has k w \<longrightarrow> has k (snd (envSave E key data w)))"

lemma has_publishOnce:
  assumes "closedReads E (has k)" and "savesKeep E has"
  shows "keeps (inWorld (has k)) (publishOnce E key path n)"
proof -
  have "keeps (inWorld (has k)) (backendSave E key data)" for data
    using assms(2) by (auto intro!: keepsI simp: backendSave_def inWorld_def savesKeep_def
        split: prod.splits option.splits) (metis snd_conv)+
  moreover have "keeps (inWorld (has k)) (limiter_wait E)"
    unfolding limiter_wait_def by (intro keeps_rules world_rules assms(1)) simp
  ultimately show ?thesis
    unfolding publishOnce_def publish_def
    by (intro keeps_rules world_rules assms(1)) simp_all
qed

lemma packedError_published: "keeps (publishedIs X) (handlePackedActionValidationError e)"
  unfolding handlePackedActionValidationError_def by (intro keeps_rules keeps_go_error; simp)

lemma publishUpload_grows:
  assumes "honestBackend E has" and "savesKeep E has" and "good s" and "publishUpload E key path n s = (response, s')"
  shows "grows has s s'"
proof -
  have "keeps (inWorld (has k)) (publishUpload E key path n)" for k
    unfolding publishUpload_def handleSaveError_def
    by (intro keeps_rules has_publishOnce assms(2)) (use assms(1) in \<open>simp_all add: honestBackend_def\<close>)
  then have "has k (world s) \<longrightarrow> has k (world s')" for k
    using keepsD [of "inWorld (has k)" _ s response s'] assms(4) by (auto simp: inWorld_def)
  then show ?thesis
    using keepsD [OF keeps_publishUpload evolves_refl assms(4)] assms(3)
    by (simp add: grows_def good_def)
qed

lemma finishUpload_published:
  assumes "honestBackend E has" and "savesKeep E has" and "good t" and "packs t = None" and "files t path = Some data"
    and run: "finishUpload E key ''ac'' digest ob path n t = (response, t')"
    and "key \<notin> published t" and "key \<in> published t'"
  shows "closureComplete (envWire E) has True t' data"
proof -
  have enabled: "cfgWriteEnabled (cfg t)"
    using run assms(7,8) by (auto simp: finishUpload_def count_def split: if_splits)
  obtain v t1 where validate: "validateActionResultForPublication E \<lparr>objPath = path, objSize = n\<rparr> t = (v, t1)"
    by (metis surj_pair)
  have same: "published t1 = published t"
  proof -
    have "keeps (publishedIs (published t)) (validateActionResultForPublication E \<lparr>objPath = path, objSize = n\<rparr>)"
      unfolding validateActionResultForPublication_def by (intro keeps_rules published.kept_validate)
    from keepsD [OF this _ validate] show ?thesis by (simp add: publishedIs_def)
  qed
  have rest: "(case v of Inl e \<Rightarrow> handlePackedActionValidationError e
      | Inr _ \<Rightarrow> updating (count ValidatedActionResults) (publishUpload E key path n)) t1 = (response, t')"
    using run enabled assms(4) validate by (simp add: finishUpload_def andThen_def)
  show ?thesis
  proof (cases v)
    case (Inl e)
    with rest keepsD [OF packedError_published [of "published t" e], of t1 response t'] same assms(7,8)
    show ?thesis by (simp add: publishedIs_def)
  next
    case (Inr u)
    with validate obtain closure where
      closure: "validateActionResultClosure E \<lparr>objPath = path, objSize = n\<rparr> True False t = (Inr closure, t1)"
      by (auto simp: validateActionResultForPublication_def attempt_Inr_iff)
    have complete: "closureComplete (envWire E) has True t1 data"
      using validation_complete [OF assms(1,3) closure] assms(5) by simp
    have size: "0 \<le> cfgMaxBlobSize (cfg t)" using assms(3) by (simp add: good_def)
    have "grows has t t1"
      using grows_reads [OF assms(1,3) closure keeps_validateActionResultClosure [OF size] world_validateActionResultClosure] .
    then have "good (count ValidatedActionResults t1)" using grows_good assms(3) by (simp add: good_def) blast
    moreover from this have "grows has t1 (count ValidatedActionResults t1)"
      by (simp add: grows_def good_def evolves_refl)
    moreover have "publishUpload E key path n (count ValidatedActionResults t1) = (response, t')"
      using rest Inr by simp
    ultimately show ?thesis
      using complete closureComplete_grows publishUpload_grows [OF assms(1,2)] by blast
  qed
qed

text \<open>
  C26. An action result is only ever published complete (\<open>handlePut\<close>, objects mode): with a backend that tells
  the truth and whose saves keep what is there, when an upload to \<open>/ac/<digest>\<close> makes its key published, the
  uploaded body is an action result, and the backend has every output that it refers to, at any depth.
\<close>

theorem put_action_published_complete:
  assumes "honestBackend E has" and "savesKeep E has" and "serverInv s" and "0 \<le> cfgMaxBlobSize (cfg s)"
    and "serveHTTP E r s = (response, s')" and "reqMethod r = ''PUT''"
    and "parseObjectPath (reqPath r) = Some (''ac'', digest)" and "packs s = None"
    and "objectKey (cfgKeyPrefix (cfg s)) ''ac'' digest \<notin> published s"
    and "objectKey (cfgKeyPrefix (cfg s)) ''ac'' digest \<in> published s'"
  shows "closureComplete (envWire E) has True s' (concat (reqBody r))"
proof -
  let ?key = "objectKey (cfgKeyPrefix (cfg s)) ''ac'' digest"
  let ?Q = "\<lambda>s'. ?key \<in> published s' \<longrightarrow> closureComplete (envWire E) has True s' (concat (reqBody r))"
  have "?Q s'"
  proof (rule triple_put [OF assms(3-7), where Q = "\<lambda>_. ?Q"])
    fix response :: response and t
    assume "unchanged s t"
    then show "?Q t" using assms(9) by (simp add: unchanged_def)
  next
    fix path and result :: "object \<times> bool"
    show "triple (entered s r ?key ''ac'' digest path result)
      (finishUpload E ?key ''ac'' digest (fst result) path (reqContentLength r))
      (\<lambda>_ t. ?Q (cleanUp path (snd result) t))"
    proof (rule tripleI)
      fix t response t'
      assume up: "entered s r ?key ''ac'' digest path result t"
        and run: "finishUpload E ?key ''ac'' digest (fst result) path (reqContentLength r) t = (response, t')"
      then have t: "good t" "cfg t = cfg s" "packs t = None" "files t path = Some (concat (reqBody r))"
        "?key \<notin> published t"
        using assms(4,8,9) by (auto simp: entered_def uploaded_def evolves_def good_def)
      have size: "0 \<le> cfgMaxBlobSize (cfg s)" by (rule assms(4))
      have up': "uploaded s r ?key ''ac'' digest path result t'"
        using keepsD [OF uploaded_finish [OF size] _ run] up by (simp add: entered_def)
      show "?Q (cleanUp path (snd result) t')"
      proof (cases "?key \<in> published t'")
        case True
        have "closureComplete (envWire E) has True t' (concat (reqBody r))"
          by (rule finishUpload_published [OF assms(1,2) t(1,3,4) run t(5) True])
        then show ?thesis
          using up' closureComplete_removeFile [of path t']
          by (auto simp: cleanUp_def uploaded_def scratch_def)
      qed simp
    qed
 qed
  with assms(10) show ?thesis by blast
qed

section \<open>Shutdown\<close>

text \<open>Every result of a computation, from any state, satisfies \<open>P\<close>.\<close>

definition yields :: "('r \<Rightarrow> bool) \<Rightarrow> ('s, 'r) comp \<Rightarrow> bool" where
  "yields P m \<longleftrightarrow> (\<forall>s. P (fst (m s)))"

named_theorems yields_rules "rules for the results of computations"

lemma yields_returning [yields_rules]: "P r \<Longrightarrow> yields P (returning r)"
  by (simp add: yields_def)

lemma yields_updating [yields_rules]: "yields P k \<Longrightarrow> yields P (updating f k)"
  by (simp add: yields_def)

lemma yields_reading [yields_rules]: "(\<And>x. yields P (k x)) \<Longrightarrow> yields P (reading f k)"
  by (simp add: yields_def)

lemma yields_andThen [yields_rules]: "(\<And>x. yields P (k x)) \<Longrightarrow> yields P (andThen m k)"
  by (simp add: yields_def andThen_def split: prod.split)

lemma yields_result: "yields Q m \<Longrightarrow> (\<And>x. Q x \<Longrightarrow> yields P (k x)) \<Longrightarrow> yields P (andThen m k)"
  by (simp add: yields_def andThen_def split: prod.split) (metis fst_conv)

lemma yields_if [yields_rules]: "yields P m \<Longrightarrow> yields P n \<Longrightarrow> yields P (if b then m else n)"
  by simp

lemma yields_sum [yields_rules]:
  "(\<And>e. yields P (f e)) \<Longrightarrow> (\<And>a. yields P (g a)) \<Longrightarrow> yields P (case x of Inl e \<Rightarrow> f e | Inr a \<Rightarrow> g a)"
  by (cases x) auto

lemma yields_option [yields_rules]:
  "yields P m \<Longrightarrow> (\<And>a. yields P (k a)) \<Longrightarrow> yields P (case x of None \<Rightarrow> m | Some a \<Rightarrow> k a)"
  by (cases x) auto

lemma yields_prod [yields_rules]: "(\<And>a b. yields P (k a b)) \<Longrightarrow> yields P (case x of (a, b) \<Rightarrow> k a b)"
  by (cases x) auto

lemma yields_go_error [yields_rules]:
  assumes "\<And>m. yields P (f m)" "\<And>m. yields P (g m)" "\<And>m. yields P (h m)" "\<And>m. yields P (k m)" "yields P d"
  shows "yields P (case e of Failure m \<Rightarrow> f m | IncompleteActionResult m \<Rightarrow> g m
    | InvalidActionResult m \<Rightarrow> h m | Panic m \<Rightarrow> k m | Diverges \<Rightarrow> d)"
  using assms by (cases e) simp_all

definition running :: "response \<Rightarrow> bool" where
  "running response \<longleftrightarrow> \<not> rsShutdown response"

lemma running_simps [simp]:
  "running notFound" "running noContent" "running (respond status headers body)" "running (httpError message status)"
  "running (httpErrorWith headers message status)" "running (methodNotAllowed allow)"
  "running (r\<lparr>rsBody := body\<rparr>) = running r" "running (r\<lparr>rsBroken := b\<rparr>) = running r"
  by (simp_all add: running_def notFound_def noContent_def respond_def httpError_def httpErrorWith_def
      methodNotAllowed_def)

lemma yields_running:
  "yields running (handleRead E r key kind digest)" "yields running (finishUpload E key kind digest ob path n)"
  unfolding handleRead_def serveObject_def failedLoad_def finishUpload_def stageUpload_def publishUpload_def
    handleSaveError_def handlePackedActionValidationError_def Let_def
  by (intro yields_rules; simp)+

lemma yields_running_put: "yields running (handlePut E r key kind digest)"
proof -
  have finish: "yields (\<lambda>p. running (fst p)) (andThen (finishUpload E key kind digest ob path n)
      (\<lambda>response. returning (response, keep)))" for ob path n keep
    by (rule yields_result [OF yields_running(2)]) (simp add: yields_def)
  have drop: "yields (\<lambda>p. running (fst p)) (andThen (reject message status) (\<lambda>response. returning (response, False)))"
    for message status
    by (simp add: yields_def andThen_def reject_def rejectWith_def)
  have "yields (\<lambda>p. running (fst p)) (receiveUpload E r key kind digest path)" for path
    unfolding receiveUpload_def Let_def
    by (rule yields_andThen, rule yields_prod, rule yields_updating, rule yields_if, rule drop, rule yields_if,
        rule drop, rule yields_reading, rule yields_if, rule drop, rule yields_andThen, rule yields_sum,
        rule yields_returning, simp, rule yields_andThen, rule yields_prod, rule finish)
  then have receive: "yields running (andThen (receiveUpload E r key kind digest path)
      (\<lambda>(response, keep). updating (if keep then id else removeFile path) (returning response)))" for path
    by (rule yields_result) (auto simp: yields_def split: prod.split)
  show ?thesis
    unfolding handlePut_def reject_def rejectWith_def by (intro yields_rules receive; simp)
qed

text \<open>
  C27. Only the owner stops the server (\<open>handleShutdown\<close>): the shutdown callback is started by a \<open>POST\<close> to
  \<open>/shutdown\<close> that carries the configured token, which must not be empty, and by no other request.
\<close>

theorem shutdown_authorised:
  assumes "serveHTTP E r s = (response, s')"
  shows "rsShutdown response \<longleftrightarrow> reqPath r = ''/shutdown'' \<and> reqMethod r = ''POST'' \<and>
    cfgShutdownToken (cfg s) \<noteq> [] \<and> reqShutdownToken r = cfgShutdownToken (cfg s) \<and> cfgShutdown (cfg s)"
proof (cases "reqPath r = ''/shutdown''")
  case True
  with assms show ?thesis
    by (auto simp: serveHTTP_def handleShutdown_def methodNotAllowed_def httpErrorWith_def httpError_def respond_def
        split: if_splits)
next
  case False
  have "yields running (serveHTTP E r)"
    unfolding serveHTTP_def if_not_P [OF False] handleImplicitEmptyCASRead_def reject_def rejectWith_def
    by (intro yields_rules yields_running yields_running_put; simp)
  then have "running response" using assms by (auto simp: yields_def) (metis fst_conv)
  with False show ?thesis by (simp add: running_def)
qed

end
