(* ===== verification/System.thy ===== *)
theory System
  imports Guarantees Commit
begin

text \<open>
  The server as a whole: \<open>New\<close> of \<open>server.go\<close>, the steps that a running server takes, requests, rounds of the
  flush worker and \<open>Close\<close>, in any order, and what holds in every state that it can reach.
\<close>

section \<open>Starting\<close>

text \<open>\<open>prefixPattern\<close>: \<open>^[A-Za-z0-9][A-Za-z0-9._-]{0,79}$\<close>.\<close>

definition alphanumeric :: "char \<Rightarrow> bool" where
  "alphanumeric c = (let n = (of_char c :: nat) in (65 \<le> n \<and> n \<le> 90) \<or> (97 \<le> n \<and> n \<le> 122) \<or> (48 \<le> n \<and> n \<le> 57))"

definition prefixPattern :: "string \<Rightarrow> bool" where
  "prefixPattern s = (case s of [] \<Rightarrow> False
     | c # cs \<Rightarrow> alphanumeric c \<and> length cs \<le> 79 \<and>
         list_all (\<lambda>c. alphanumeric c \<or> c = CHR ''.'' \<or> c = CHR ''_'' \<or> c = CHR ''-'') cs)"

text \<open>The checks of \<open>New\<close>, with the default of the storage mode.\<close>

definition checkPackConfig :: "config \<Rightarrow> go_error + config" where
  "checkPackConfig c =
     (if cfgStorageMode c \<noteq> ''packs'' then Inr c
      else if \<not> cfgCatalog c then Inl (Failure ''packed storage mode requires a manifest catalog'')
      else if cfgPackSize c \<le> 0 \<or> cfgPackSize c > 32 * 1024 * 1024
      then Inl (Failure ''pack size must be between 1 byte and 32 MiB'')
      else if cfgPackFlushInterval c \<le> 0 then Inl (Failure ''pack flush interval must be positive'')
      else if cfgMaxManifests c \<le> 0 then Inl (Failure ''maximum manifests must be positive'')
      else Inr c)"

definition checkConfig :: "config \<Rightarrow> go_error + config" where
  "checkConfig c =
     (if \<not> cfgBackend c then Inl (Failure ''backend is required'')
      else if cfgCacheDir c = [] then Inl (Failure ''cache directory is required'')
      else if \<not> prefixPattern (cfgKeyPrefix c)
      then Inl (Failure ''key prefix must match [A-Za-z0-9][A-Za-z0-9._-]{0,79}'')
      else if cfgMaxBlobSize c \<le> 0 then Inl (Failure ''max blob size must be positive'')
      else if cfgMaxConcurrent c \<le> 0 then Inl (Failure ''max concurrent operations must be positive'')
      else if cfgUploadsPerMinute c \<le> 0 \<or> cfgUploadsPerMinute c > 199
      then Inl (Failure ''uploads per minute must be between 1 and 199'')
      else if cfgBackendTimeout c \<le> 0 then Inl (Failure ''backend timeout must be positive'')
      else let c = (if cfgStorageMode c = [] then c\<lparr>cfgStorageMode := ''objects''\<rparr> else c) in
        if cfgStorageMode c \<noteq> ''objects'' \<and> cfgStorageMode c \<noteq> ''packs''
        then Inl (Failure ''storage mode must be objects or packs'')
        else checkPackConfig c)"

definition initialServer :: "config \<Rightarrow> 'w \<Rightarrow> 'w server" where
  "initialServer c w = \<lparr>cfg = c, stats = counters0, objects = Map.empty, published = {},
     limiter = newIntervalLimiter (cfgUploadsPerMinute c), packs = None, files = Map.empty, nextFile = 0, world = w\<rparr>"

definition New :: "('w, 'c) env \<Rightarrow> config \<Rightarrow> 'w \<Rightarrow> go_error + 'w server" where
  "New E c w =
     (case checkConfig c of Inl e \<Rightarrow> Inl e
      | Inr c \<Rightarrow>
        (case fault E MkdirAll (initialServer c w) of (Inl e, s) \<Rightarrow> Inl e
         | (Inr _, s) \<Rightarrow>
             if cfgStorageMode c = ''packs''
             then (case newPackStore E s of (Inl e, s) \<Rightarrow> Inl e | (Inr _, s) \<Rightarrow> Inr s)
             else Inr s))"

definition defaultMode :: "config \<Rightarrow> config" where
  "defaultMode c = (if cfgStorageMode c = [] then c\<lparr>cfgStorageMode := ''objects''\<rparr> else c)"

text \<open>The limits of a configuration that a server runs with.\<close>

definition validConfig :: "config \<Rightarrow> bool" where
  "validConfig c \<longleftrightarrow> cfgBackend c \<and> cfgCacheDir c \<noteq> [] \<and> prefixPattern (cfgKeyPrefix c) \<and>
     0 < cfgMaxBlobSize c \<and> 0 < cfgMaxConcurrent c \<and> cfgUploadsPerMinute c \<in> {1..199} \<and> 0 < cfgBackendTimeout c \<and>
     (cfgStorageMode c = ''objects'' \<or>
      cfgStorageMode c = ''packs'' \<and> cfgCatalog c \<and> cfgPackSize c \<in> {1..33554432} \<and>
        0 < cfgPackFlushInterval c \<and> 0 < cfgMaxManifests c)"

definition commonLimits :: "config \<Rightarrow> bool" where
  "commonLimits c \<longleftrightarrow> cfgBackend c \<and> cfgCacheDir c \<noteq> [] \<and> prefixPattern (cfgKeyPrefix c) \<and>
     0 < cfgMaxBlobSize c \<and> 0 < cfgMaxConcurrent c \<and> cfgUploadsPerMinute c \<in> {1..199} \<and> 0 < cfgBackendTimeout c"

lemma checkPackConfig_Inr:
  "checkPackConfig c = Inr c' \<longleftrightarrow> c' = c \<and> (cfgStorageMode c = ''packs'' \<longrightarrow> cfgCatalog c \<and>
     cfgPackSize c \<in> {1..33554432} \<and> 0 < cfgPackFlushInterval c \<and> 0 < cfgMaxManifests c)"
  by (auto simp: checkPackConfig_def)

lemma checkConfig_Inr:
  "checkConfig c = Inr c' \<longleftrightarrow> validConfig c' \<and>
     c' = (if cfgStorageMode c = [] then c\<lparr>cfgStorageMode := ''objects''\<rparr> else c)"
proof -
  let ?c = "if cfgStorageMode c = [] then c\<lparr>cfgStorageMode := ''objects''\<rparr> else c"
  have same: "commonLimits ?c = commonLimits c" by (simp add: commonLimits_def)
  have valid: "validConfig d \<longleftrightarrow> commonLimits d \<and> (cfgStorageMode d = ''objects'' \<or> cfgStorageMode d = ''packs'') \<and>
      checkPackConfig d = Inr d" for d
    unfolding validConfig_def commonLimits_def checkPackConfig_Inr by auto
  show ?thesis
  proof (cases "commonLimits c")
    case False
    then have "\<exists>e. checkConfig c = Inl e"
      by (simp add: checkConfig_def commonLimits_def not_less not_le) auto
    moreover have "\<not> validConfig ?c" using False valid same by blast
    ultimately show ?thesis by auto
  next
    case True
    then have "checkConfig c = (if cfgStorageMode ?c \<noteq> ''objects'' \<and> cfgStorageMode ?c \<noteq> ''packs''
      then Inl (Failure ''storage mode must be objects or packs'') else checkPackConfig ?c)"
      by (simp add: checkConfig_def commonLimits_def Let_def)
    then have "checkConfig c = Inr c' \<longleftrightarrow>
        (cfgStorageMode ?c = ''objects'' \<or> cfgStorageMode ?c = ''packs'') \<and> checkPackConfig ?c = Inr c'"
      by (simp only: if_eq_iff sum.distinct) blast
    also have "\<dots> \<longleftrightarrow> validConfig c' \<and> c' = ?c"
      unfolding valid using True same checkPackConfig_Inr [of ?c c'] by blast
    finally show ?thesis .
  qed
qed

section \<open>What starting establishes\<close>

text \<open>The state of a packed store that has pending work in order, and the limits of the configuration.\<close>

definition systemInv :: "'w server \<Rightarrow> bool" where
  "systemInv s \<longleftrightarrow> serverInv s \<and> validConfig (cfg s) \<and>
     (case packs s of None \<Rightarrow> cfgStorageMode (cfg s) = ''objects''
      | Some p \<Rightarrow> cfgStorageMode (cfg s) = ''packs'' \<and> stageInv p)"

lemma initialServer_inv: "serverInv (initialServer c w)"
  by (simp add: serverInv_def initialServer_def thePacks_def emptyPackStore_def)

lemma applyPacks_ids:
  "(\<And>packID d. psPacks p packID = Some d \<Longrightarrow> pkID d = packID) \<Longrightarrow>
     psPacks (fold applyPack ds p) packID = Some d \<Longrightarrow> pkID d = packID"
proof (induction ds arbitrary: p)
  case (Cons x ds)
  have "\<And>packID d. psPacks (applyPack x p) packID = Some d \<Longrightarrow> pkID d = packID"
    using Cons.prems(1) by (auto simp: applyPack_def split: option.splits if_splits)
  from Cons.IH [OF this] Cons.prems(2) show ?case by simp
qed simp

lemma applyManifest_ids:
  assumes "\<And>packID d. psPacks p packID = Some d \<Longrightarrow> pkID d = packID"
    and "psPacks (applyManifestLocked i m p) packID = Some d"
  shows "pkID d = packID"
  using applyPacks_ids [OF assms(1)] assms(2) by (simp add: applyManifest_fields)

lemma applyDiscovered_facts:
  "psLoadedPacks (fold (applyDiscovered parents) ms p) = psLoadedPacks p"
  "stageInv p \<Longrightarrow> psPendingCAS p = Map.empty \<Longrightarrow> stageInv (fold (applyDiscovered parents) ms p)"
  "(\<And>packID d. psPacks p packID = Some d \<Longrightarrow> pkID d = packID) \<Longrightarrow>
     psPacks (fold (applyDiscovered parents) ms p) packID = Some d \<Longrightarrow> pkID d = packID"
proof -
  have loaded: "psLoadedPacks (applyDiscovered parents m p) = psLoadedPacks p" for m p
    by (simp add: applyDiscovered_def Let_def applyManifest_fields)
  have pending: "psPendingCAS (applyDiscovered parents m p) = psPendingCAS p" for m p
    by (simp add: applyDiscovered_def Let_def applyManifest_fields)
  have stage: "stageInv (applyDiscovered parents m p)" if "stageInv p" "psPendingCAS p = Map.empty" for m p
    using that by (auto simp: stageInv_def applyDiscovered_def Let_def applyManifest_fields)
  have ids: "pkID d = packID" if "\<And>packID d. psPacks p packID = Some d \<Longrightarrow> pkID d = packID"
    and "psPacks (applyDiscovered parents m p) packID = Some d" for m p packID d
    using applyManifest_ids [of p "fst m" "snd m" packID d] that
    by (auto simp: applyDiscovered_def Let_def split: if_splits)
  show "psLoadedPacks (fold (applyDiscovered parents) ms p) = psLoadedPacks p"
    by (induction ms arbitrary: p) (simp_all add: loaded)
  show "stageInv p \<Longrightarrow> psPendingCAS p = Map.empty \<Longrightarrow> stageInv (fold (applyDiscovered parents) ms p)"
    by (induction ms arbitrary: p) (simp_all add: stage pending)
  show "(\<And>packID d. psPacks p packID = Some d \<Longrightarrow> pkID d = packID) \<Longrightarrow>
     psPacks (fold (applyDiscovered parents) ms p) packID = Some d \<Longrightarrow> pkID d = packID"
  proof (induction ms arbitrary: p)
    case (Cons m ms)
    show ?case by (rule Cons.IH [of "applyDiscovered parents m p"]) (use ids [OF Cons.prems(1)] Cons.prems(2) in auto)
  qed simp
qed

text \<open>Loading a manifest changes only the world and the statistics.\<close>

lemma keeps_loadManifests:
  assumes "\<And>s w. I s \<Longrightarrow> I (s\<lparr>world := w\<rparr>)" and "\<And>s c. I s \<Longrightarrow> I (count c s)"
  shows "keeps I (loadManifests E keys manifests parents)"
proof (induction keys arbitrary: manifests parents)
  case (Cons key keys)
  have buffer: "keeps I (backendLoadBuffer E key)" for key
    by (auto intro!: keepsI assms simp: backendLoadBuffer_def split: prod.splits)
  have "keeps I (loadManifest E key manifestID)" for key manifestID
    unfolding loadManifest_def acquire_def by (intro keeps_rules buffer assms)
  then show ?case
    unfolding loadManifests.simps by (intro keeps_rules Cons.IH assms)
qed (simp only: loadManifests.simps keeps_returning)

lemma world_loadManifests:
  assumes "closedReads E P"
  shows "keeps (inWorld P) (loadManifests E keys manifests parents)"
proof (induction keys arbitrary: manifests parents)
  case (Cons key keys)
  have "keeps (inWorld P) (loadManifest E key manifestID)" for manifestID
    unfolding loadManifest_def by (intro keeps_rules world_rules assms) simp
  then show ?case unfolding loadManifests.simps by (intro keeps_rules Cons.IH) simp_all
qed (simp only: loadManifests.simps keeps_returning)

definition nothingPending :: "packStore \<Rightarrow> bool" where
  "nothingPending p \<longleftrightarrow> psPendingCAS p = Map.empty \<and> psPendingActions p = Map.empty \<and> psPendingACOrder p = []"

definition justStarted :: "config \<Rightarrow> 'w server \<Rightarrow> bool" where
  "justStarted c s \<longleftrightarrow> serverInv s \<and> cfg s = c \<and> published s = {} \<and> objects s = Map.empty \<and>
     (\<exists>p. packs s = Some p \<and> stageInv p \<and> nothingPending p)"

lemma justStarted_fields [simp]:
  "justStarted c (s\<lparr>world := w\<rparr>) = justStarted c s" "justStarted c (count n s) = justStarted c s"
  "justStarted c (countBytes n k s) = justStarted c s"
  by (simp_all add: justStarted_def countBytes_def)

lemma applyDiscovered_justStarted:
  assumes "justStarted c s"
  shows "justStarted c (updatePacks (fold (applyDiscovered parents) ms) s)"
proof -
  obtain p where p: "packs s = Some p" "stageInv p" "psPendingCAS p = Map.empty" "nothingPending p"
    using assms by (auto simp: justStarted_def nothingPending_def)
  have inv: "serverInv s" using assms by (simp add: justStarted_def)
  have "evolves s (updatePacks (fold (applyDiscovered parents) ms) s)"
    by (rule evolves_updatePacks [OF evolves_refl [OF inv] applyDiscovered_facts(1)]) (rule applyDiscovered_facts(3))
  moreover have "nothingPending (fold (applyDiscovered parents) ms p)"
    using p(4) by (induction ms arbitrary: p) (simp_all add: applyDiscovered_def Let_def applyManifest_fields nothingPending_def)
  ultimately show ?thesis
    using assms p applyDiscovered_facts(2) [OF p(2,3)]
    by (simp add: justStarted_def evolves_def updatePacks_def)
qed

lemma newPackStore_justStarted:
  assumes "serverInv s" and "cfg s = c" and "published s = {}" and "objects s = Map.empty"
    and "newPackStore E s = (Inr u, s')"
  shows "justStarted c s'"
proof -
  have list: "keeps (justStarted c) (backendList E keyPrefix limit)" for keyPrefix limit
    by (auto intro!: keepsI simp: backendList_def split: prod.splits)
  have "keeps (justStarted c) (discover E)"
    unfolding discover_def
    by (intro keeps_rules list keeps_loadManifests applyDiscovered_justStarted) simp_all
  then have run: "keeps (justStarted c) (andThen (discover E) (\<lambda>r. case r of Inr _ \<Rightarrow> ok ()
      | Inl e \<Rightarrow> updating (count ManifestDiscoveryErrors) (if \<not> cfgFailOpen c then fail e else ok ())))"
    by (intro keeps_rules) simp_all
  have "justStarted c (s\<lparr>packs := Some emptyPackStore\<rparr>)"
    using assms(1-4) stageInv_empty
    by (auto simp: justStarted_def nothingPending_def serverInv_def thePacks_def storedOk_def loadedOk_def emptyPackStore_def)
  then show ?thesis
    using keepsD [OF run, of "s\<lparr>packs := Some emptyPackStore\<rparr>" "Inr u" s'] assms(2,5)
    by (simp add: newPackStore_def split: if_splits)
qed

text \<open>
  A server is only returned for a configuration within its limits, the given one with the default storage
  mode filled in; it satisfies the invariant, has published nothing, has nothing pending, and has a packed store exactly in the
  packs mode, whatever manifests were discovered and whatever failed on the way.
\<close>

lemma New_start:
  assumes "New E c w = Inr s"
  shows "systemInv s \<and> cfg s = (if cfgStorageMode c = [] then c\<lparr>cfgStorageMode := ''objects''\<rparr> else c) \<and>
    objects s = Map.empty \<and> published s = {} \<and> (\<forall>p. packs s = Some p \<longrightarrow> nothingPending p)"
proof -
  from assms obtain c' s1 where check: "checkConfig c = Inr c'"
    and s1: "fault E MkdirAll (initialServer c' w) = (Inr (), s1)"
    and rest: "(if cfgStorageMode c' = ''packs''
      then (case newPackStore E s1 of (Inl e, s) \<Rightarrow> Inl e | (Inr _, s) \<Rightarrow> Inr s) else Inr s1) = Inr s"
    by (auto simp: New_def split: sum.splits prod.splits)
  have c': "validConfig c'" "c' = (if cfgStorageMode c = [] then c\<lparr>cfgStorageMode := ''objects''\<rparr> else c)"
    using check unfolding checkConfig_Inr by blast+
  obtain w' where "s1 = (initialServer c' w)\<lparr>world := w'\<rparr>" using fault_world [OF s1] by blast
  then have start: "serverInv s1" "cfg s1 = c'" "published s1 = {}" "objects s1 = Map.empty" "packs s1 = None"
    using initialServer_inv [of c' w'] by (simp_all add: initialServer_def)
  show ?thesis
  proof (cases "cfgStorageMode c' = ''packs''")
    case True
    with rest obtain u where "newPackStore E s1 = (Inr u, s)" by (auto split: prod.splits sum.splits)
    then have "justStarted c' s" by (rule newPackStore_justStarted [OF start(1-4)])
    with True c' show ?thesis by (auto simp: justStarted_def systemInv_def)
  next
    case False
    with rest start c' show ?thesis by (auto simp: systemInv_def validConfig_def)
  qed
qed

lemma New_world:
  assumes "closedReads E P" and "New E c w = Inr s" and "P w"
  shows "P (world s)"
proof -
  from assms(2) obtain c' s1 where s1: "fault E MkdirAll (initialServer c' w) = (Inr (), s1)"
    and rest: "(if cfgStorageMode c' = ''packs''
      then (case newPackStore E s1 of (Inl e, s) \<Rightarrow> Inl e | (Inr _, s) \<Rightarrow> Inr s) else Inr s1) = Inr s"
    by (auto simp: New_def split: sum.splits prod.splits)
  have "inWorld P s1"
    using keepsD [OF world_fault [OF assms(1)] _ s1] assms(3) by (simp add: inWorld_def initialServer_def)
  moreover have "keeps (inWorld P) (backendList E keyPrefix limit)" for keyPrefix limit
    by (rule keepsI) (auto simp: backendList_def inWorld_def split: prod.splits dest: closedReadsD(5) [OF assms(1)])
  note list = this
  have loads: "keeps (inWorld P) (loadManifests E keys manifests parents)" for keys manifests parents
    by (rule world_loadManifests [OF assms(1)])
  have "keeps (inWorld P) (newPackStore E)"
    unfolding newPackStore_def discover_def by (intro keeps_rules list loads; simp)
  ultimately show ?thesis
    using rest keepsD [of "inWorld P" "newPackStore E" s1] by (auto simp: inWorld_def split: if_splits prod.splits sum.splits)
qed

text \<open>Only the listing of the manifests can make the discovery fail.\<close>

definition listed :: "('w, 'c) env \<Rightarrow> config \<Rightarrow> 'w \<Rightarrow> bool" where
  "listed E c w \<longleftrightarrow> (\<exists>keys w'. envList E (manifestKeyFor (cfgKeyPrefix c) []) (cfgMaxManifests c) w = (Inr keys, w'))"

lemma discover_result: "(\<exists>s'. discover E s = (Inr (), s')) \<longleftrightarrow> listed E (cfg s) (world s)"
  by (cases "envList E (manifestKeyFor (cfgKeyPrefix (cfg s)) []) (cfgMaxManifests (cfg s)) (world s)")
    (auto simp: discover_def listed_def backendList_def attempt_def andThen_def library_def
      split: sum.splits prod.splits)

lemma newPackStore_result:
  assumes "cfgCatalog (cfg s)"
  shows "(\<exists>s'. newPackStore E s = (Inr (), s')) \<longleftrightarrow> listed E (cfg s) (world s) \<or> cfgFailOpen (cfg s)"
proof -
  let ?s = "s\<lparr>packs := Some emptyPackStore\<rparr>"
  obtain r s1 where run: "discover E ?s = (r, s1)" by (metis surj_pair)
  then have r: "listed E (cfg s) (world s) \<longleftrightarrow> r = Inr ()"
    using discover_result [of E ?s] by (cases r) simp_all
  show ?thesis
    unfolding r by (cases r) (simp_all add: newPackStore_def assms andThen_def run)
qed

text \<open>
  C28. When a server starts (\<open>New\<close>): exactly when the configuration, with the default storage mode filled in,
  is within its limits, the cache directory can be made, and, in the packs mode, the manifests could be
  listed or the server fails open. A manifest that is missing, damaged or malformed never stops it.
\<close>

theorem New_result:
  "(\<exists>s. New E c w = Inr s) \<longleftrightarrow> validConfig (defaultMode c) \<and> fst (envFault E MkdirAll w) = None \<and>
     (cfgStorageMode (defaultMode c) = ''objects'' \<or> cfgFailOpen c \<or> listed E c (snd (envFault E MkdirAll w)))"
proof (cases "validConfig (defaultMode c)")
  case False
  then have "\<nexists>c'. checkConfig c = Inr c'" by (auto simp: checkConfig_Inr defaultMode_def)
  then obtain e where "checkConfig c = Inl e" by (cases "checkConfig c") auto
  then show ?thesis using False by (simp add: New_def)
next
  case True
  let ?c = "defaultMode c"
  have check: "checkConfig c = Inr ?c" using True by (simp add: checkConfig_Inr defaultMode_def)
  obtain q w1 where dir: "envFault E MkdirAll w = (q, w1)" by (metis surj_pair)
  have start: "fault E MkdirAll (initialServer ?c w) = (case q of None \<Rightarrow> (Inr (), initialServer ?c w1)
      | Some m \<Rightarrow> (Inl (Failure m), initialServer ?c w1))"
    using dir by (cases q) (simp_all add: fault_def initialServer_def)
  show ?thesis
  proof (cases "q = None \<and> cfgStorageMode ?c = ''packs''")
    case False
    then show ?thesis
      using True check dir start by (cases q) (auto simp: New_def validConfig_def)
  next
    case packed: True
    have catalog: "cfgCatalog ?c" "cfgStorageMode ?c \<noteq> ''objects''" "?c = c"
      using True packed by (auto simp: validConfig_def defaultMode_def)
    have "(\<exists>s. newPackStore E (initialServer ?c w1) = (Inr (), s)) \<longleftrightarrow> listed E c w1 \<or> cfgFailOpen c"
      using newPackStore_result [of "initialServer ?c w1" E] catalog by (simp add: initialServer_def)
    then show ?thesis
      using True check dir start packed catalog
      by (auto simp: New_def split: sum.splits prod.splits)
  qed
qed

section \<open>A flush keeps the invariant\<close>

lemma triple_writePrivateTemp:
  "triple (evolves s0) (writePrivateTemp E data)
     (\<lambda>r s. case r of Inl _ \<Rightarrow> evolves s0 s | Inr path \<Rightarrow> scratch s0 path data s)"
proof -
  have content: "triple (scratch s0 path []) (if data \<noteq> [] then writeFile E path data else ok ())
      (\<lambda>r s. case r of Inl _ \<Rightarrow> evolves s0 s | Inr _ \<Rightarrow> scratch s0 path data s)" for path
  proof (cases "data = []")
    case False
    have "triple (scratch s0 path []) (writeFile E path data)
      (\<lambda>r s. case r of Inl _ \<Rightarrow> evolves s0 s | Inr _ \<Rightarrow> scratch s0 path data s)"
      by (rule triple_weaken [OF triple_writeFile]) (auto simp: scratch_evolves split: sum.splits)
    with False show ?thesis by simp
  qed (simp add: triple_def ok_def)
  show ?thesis
    unfolding writePrivateTemp_def
    apply (rule triple_attempt [OF triple_createTemp], simp, simp split del: if_split)
    apply (rule triple_attempt_keeps [OF keeps_fault_evolves(2)], simp add: scratch_evolves)
    apply (rule triple_attempt [OF content], simp, simp)
    apply (rule triple_attempt_keeps [OF keeps_fault_evolves(2)], simp add: scratch_evolves)
    apply (rule triple_attempt_keeps [OF keeps_fault_evolves(2)], simp add: scratch_evolves)
    apply (simp add: triple_def ok_def)
    done
qed

lemma keeps_writePrivateTemp: "keeps (evolves s0) (writePrivateTemp E data)"
  unfolding keeps_def
  by (rule triple_weaken [OF triple_writePrivateTemp]) (auto intro: scratch_evolves split: sum.splits)

lemma keeps_buildPackLocked: "keeps (evolves s0) (buildPackLocked E ds as)"
proof -
  have blocks: "keeps (evolves s0) (addCASBlock E digest d)" "keeps (evolves s0) (addActionBlock E digest a)"
    for digest d and a :: "'b packDraft"
    unfolding addCASBlock_def addActionBlock_def by (intro keeps_rules keeps_readFile)+
  have written: "triple (scratch s0 path []) (writeFile E path archive)
      (\<lambda>r s. case r of Inl _ \<Rightarrow> evolves s0 s | Inr _ \<Rightarrow> scratch s0 path archive s)" for path archive
    by (rule triple_weaken [OF triple_writeFile]) (auto simp: scratch_evolves split: sum.splits)
  have hash: "keeps (evolves s0) (hashFile E path)" "keeps (evolves s0) (statSize E path)" for path
    unfolding hashFile_def statSize_def by (intro keeps_rules)+
  have finish: "triple (scratch s0 path []) (attempt (writeFile E path archive) (\<lambda>_.
         attempt (statSize E path) (\<lambda>packSize.
         attempt (openFile E path) (\<lambda>_.
         attempt (hashFile E path) (\<lambda>packID.
         attempt (fault E CloseFile) (\<lambda>_.
         ok (path, entries, packSize, packID))))))) (\<lambda>_. evolves s0)" for path archive and entries :: packedEntries
    by (rule triple_attempt [OF written], simp, rule triple_pre [where P' = "evolves s0"], fold keeps_def,
        intro keeps_rules hash keeps_openFile, simp add: scratch_evolves)
  have archive: "triple (evolves s0) (attempt (writePrivateTemp E []) (\<lambda>path.
       case library (carWrite (envIpld E) roots bs) of Inl e \<Rightarrow> fail e
       | Inr archive \<Rightarrow>
         attempt (writeFile E path archive) (\<lambda>_.
         attempt (statSize E path) (\<lambda>packSize.
         attempt (openFile E path) (\<lambda>_.
         attempt (hashFile E path) (\<lambda>packID.
         attempt (fault E CloseFile) (\<lambda>_.
         ok (path, entries, packSize, packID)))))))) (\<lambda>_. evolves s0)" for roots bs and entries :: packedEntries
    by (rule triple_attempt [OF triple_writePrivateTemp], simp, simp, rule triple_sum, rule triple_failI,
        simp add: scratch_evolves, rule finish)
  show ?thesis
    unfolding buildPackLocked_def
    by (rule keeps_attempt, intro keeps_forEach blocks, rule keeps_attempt, intro keeps_forEach blocks,
        rule keeps_if, rule keeps_fail, unfold keeps_def, rule archive)
qed

lemma commit_store:
  "psLoadedPacks (removePendingLocked ds as (applyManifestLocked i m p)) = psLoadedPacks p"
  "(\<And>packID d. psPacks p packID = Some d \<Longrightarrow> pkID d = packID) \<Longrightarrow>
     psPacks (removePendingLocked ds as (applyManifestLocked i m p)) packID = Some d \<Longrightarrow> pkID d = packID"
  using applyManifest_ids [of p i m packID d] by (simp_all add: removePending_fields applyManifest_fields)

lemma keeps_commitPack: "keeps (evolves s0) (commitPack E ds as built)"
proof -
  have publish: "keeps (evolves s0) (publishFile E key path n)" for key path n
    unfolding publishFile_def by (intro keeps_rules keeps_openFile evolves_publishOnce) simp_all
  have store: "evolves s0 (updatePacks (\<lambda>p. removePendingLocked ds as (applyManifestLocked i m p)) s)"
    if "evolves s0 s" for i m s
    by (rule evolves_updatePacks [OF that commit_store(1)]) (rule commit_store(2))
  show ?thesis
    unfolding commitPack_def Let_def
    by (intro keeps_rules publish keeps_writePrivateTemp store; simp)
qed

lemma keeps_flush_evolves: "keeps (evolves s0) (flush E all)"
  by (rule keeps_flush) (unfold flushOneLocked_def, intro keeps_rules keeps_buildPackLocked keeps_commitPack)

section \<open>The steps of a server\<close>

text \<open>
  Between two steps other processes may change the cache, as \<open>rely\<close> allows. A tick of the worker comes only
  with a packed store; \<open>Close\<close> may be called at any time, and again.
\<close>

inductive step :: "('w, 'c) env \<Rightarrow> ('w \<Rightarrow> 'w \<Rightarrow> bool) \<Rightarrow> 'w server \<Rightarrow> 'w server \<Rightarrow> bool" for E rely where
  request: "serveHTTP E r s = (response, s') \<Longrightarrow> step E rely s s'"
| tick: "packs s \<noteq> None \<Longrightarrow> flushTick E s = (u, s') \<Longrightarrow> step E rely s s'"
| close: "server_Close E s = (result, s') \<Longrightarrow> step E rely s s'"
| others: "rely (world s) w \<Longrightarrow> step E rely s (s\<lparr>world := w\<rparr>)"

inductive reachable :: "('w, 'c) env \<Rightarrow> ('w \<Rightarrow> 'w \<Rightarrow> bool) \<Rightarrow> config \<Rightarrow> 'w \<Rightarrow> 'w server \<Rightarrow> bool"
  for E rely c w where
  started: "New E c w = Inr s \<Longrightarrow> reachable E rely c w s"
| stepped: "reachable E rely c w s \<Longrightarrow> step E rely s s' \<Longrightarrow> reachable E rely c w s'"

text \<open>An assertion that every request and every flush keeps, and that the others respect, is kept by a step.\<close>

lemma step_keeps:
  assumes "step E rely s s'" and "I s"
    and "\<And>r. keeps I (serveHTTP E r)" and "\<And>all. keeps I (flush E all)"
    and "\<And>s c. I s \<Longrightarrow> I (count c s)"
    and "\<And>s. I s \<Longrightarrow> I (updatePacks (\<lambda>p. p\<lparr>psFlushRequested := False\<rparr>) s)"
    and "\<And>w. I s \<Longrightarrow> rely (world s) w \<Longrightarrow> I (s\<lparr>world := w\<rparr>)"
  shows "I s'"
  using assms(1)
proof (cases rule: step.cases)
  case (request r response)
  then show ?thesis using keepsD [OF assms(3,2)] by blast
next
  case (tick u)
  have "keeps I (flushTick E)"
    unfolding flushTick_def by (intro keeps_rules assms(4-6); assumption)
  from keepsD [OF this assms(2) tick(2)] show ?thesis .
next
  case (close result)
  then have "s' = s \<or> flush E True s = (result, s')"
    by (cases "packs s") (auto simp: server_Close_def packs_close_def)
  with keepsD [OF assms(4) assms(2)] assms(2) show ?thesis by blast
next
  case (others w)
  with assms(2,7) show ?thesis by blast
qed

section \<open>The invariant of the system\<close>

text \<open>The order of the pending work, for a server with or without a packed store.\<close>

definition staged :: "'w server \<Rightarrow> bool" where
  "staged s \<longleftrightarrow> (\<forall>p. packs s = Some p \<longrightarrow> stageInv p)"

lemma staged_update: "staged s \<Longrightarrow> (\<And>p. stageInv p \<Longrightarrow> stageInv (f p)) \<Longrightarrow> staged (updatePacks f s)"
  by (auto simp: staged_def updatePacks_def)

lemma stageInv_loaded: "stageInv p \<Longrightarrow> stageInv (p\<lparr>psLoadedPacks := m\<rparr>)"
  by (simp add: stageInv_def)

interpretation staging: serves E staged for E
proof
  have "keeps staged (publishOnce E key path n)" for key path n
    by (rule keeps_publishOnce) (simp_all add: staged_def count_def)
  then show "triple (\<lambda>s. staged s \<and> packs s = None) (publishOnce E key path n) (\<lambda>_. staged)" for key path n
    unfolding keeps_def by (rule triple_pre) simp
  show "keeps staged (fault E operation)" for operation by (rule keeps_fault) (simp add: staged_def)
qed (assumption | simp add: staged_update stageInv_loaded stageInv_stageCAS stageInv_stageAction | simp add: staged_def)+

lemma keeps_staged_flush: "keeps staged (flush E all)"
proof (rule keeps_flush, rule keepsI)
  fix s r s'
  assume pre: "staged s" and run: "flushOneLocked E s = (r, s')"
  show "staged s'"
  proof (cases "packs s")
    case None
    with flushOneLocked_packs [OF run refl refl] have "packs s' = None"
      by (auto split: sum.splits bool.splits)
    then show ?thesis by (simp add: staged_def)
  next
    case (Some p)
    with pre have "packedInv s" by (simp add: packedInv_def staged_def)
    from keepsD [OF flushOneLocked_packedInv this run] show ?thesis by (auto simp: packedInv_def staged_def)
  qed
qed

lemma step_evolves:
  assumes "step E rely s s'" and "serverInv s" and "0 \<le> cfgMaxBlobSize (cfg s)"
  shows "evolves s s'"
proof (rule step_keeps [OF assms(1)])
  show "evolves s s" using assms(2) by (rule evolves_refl)
  show "keeps (evolves s) (serveHTTP E r)" for r
  proof (rule keepsI)
    fix t response t'
    assume ev: "evolves s t" and run: "serveHTTP E r t = (response, t')"
    then have "serverInv t" "0 \<le> cfgMaxBlobSize (cfg t)" using assms(3) by (simp_all add: evolves_def)
    from evolves_trans [OF ev serveHTTP_evolves [OF this run]] show "evolves s t'" .
  qed
  show "evolves s t \<Longrightarrow> evolves s (updatePacks (\<lambda>p. p\<lparr>psFlushRequested := False\<rparr>) t)" for t
    by (rule evolves_updatePacks) simp_all
qed (simp_all add: keeps_flush_evolves)

lemma step_systemInv:
  assumes "step E rely s s'" and "systemInv s"
  shows "systemInv s' \<and> cfg s' = cfg s"
proof -
  have valid: "serverInv s" "0 \<le> cfgMaxBlobSize (cfg s)" "staged s"
    using assms(2) by (auto simp: systemInv_def validConfig_def staged_def)
  have ev: "evolves s s'" using step_evolves [OF assms(1) valid(1,2)] .
  have "staged s'"
    by (rule step_keeps [OF assms(1) valid(3) staging.kept_serveHTTP keeps_staged_flush staging.updates(1)])
      (simp_all add: staged_update, simp add: staged_def)
  with ev assms(2) show ?thesis
    by (auto simp: systemInv_def evolves_def staged_def split: option.splits)
qed

lemma reachable_systemInv: "reachable E rely c w s \<Longrightarrow> systemInv s \<and> cfg s = defaultMode c"
proof (induction rule: reachable.induct)
  case (started s)
  then show ?case using New_start [OF started] by (simp add: defaultMode_def)
next
  case (stepped s s')
  then show ?case using step_systemInv [OF stepped.hyps(2)] by simp
qed

text \<open>
  C29. What holds in every state that a server can reach, through any sequence of requests, rounds of the
  flush worker and calls of \<open>Close\<close>, with any backend, disk and clock, and whatever other processes do to the
  cache: the configuration is within its limits; every object has its file, with its size and, under a CAS
  key, its digest; every restored pack has the digest that is its ID; and the pending work of the packed
  store is in order. From there on, no step changes an object or its content.
\<close>

theorem reachable_inv:
  assumes "reachable E rely c w s" and "step E rely s s'"
  shows "systemInv s \<and> systemInv s' \<and> cfg s = defaultMode c \<and> (\<forall>key ob. objects s key = Some ob \<longrightarrow>
    objects s' key = Some ob \<and> fileContent s' (objPath ob) = fileContent s (objPath ob))"
proof -
  have inv: "systemInv s" "cfg s = defaultMode c" using reachable_systemInv [OF assms(1)] by auto
  then have "serverInv s" "0 \<le> cfgMaxBlobSize (cfg s)" by (auto simp: systemInv_def validConfig_def)
  from step_evolves [OF assms(2) this] have ev: "evolves s s'" .
  show ?thesis
    using inv step_systemInv [OF assms(2) inv(1)] evolves_object [OF ev] owned_object [of s] ev
    by (simp add: evolves_def fileContent_def)
qed

section \<open>What a packed server leaves in the cache\<close>

definition committed :: "('w, 'c) env \<Rightarrow> ('w \<Rightarrow> (string \<times> bytes) set) \<Rightarrow> config \<Rightarrow> 'w server \<Rightarrow> bool" where
  "committed E contents c s \<longleftrightarrow> commitInv E contents s \<and> packs s \<noteq> None \<and> cfg s = c"

text \<open>
  GitHub may evict any entry at any time, so nothing is promised about what the cache still holds. What is kept
  track of is \<open>saved\<close>, the entries that have ever been saved to it: evictions leave it alone, and other processes
  add to it following the same protocol.
\<close>

definition cooperates :: "'c ipld \<Rightarrow> ('w \<Rightarrow> (string \<times> bytes) set) \<Rightarrow> string \<Rightarrow> ('w \<Rightarrow> 'w \<Rightarrow> bool) \<Rightarrow> bool" where
  "cooperates L saved keyPrefix rely \<longleftrightarrow> (\<forall>w w'. rely w w' \<longrightarrow> saved w \<subseteq> saved w' \<and>
     (restorable L keyPrefix (saved w) \<and> addressedPacks keyPrefix (saved w) \<longrightarrow>
        restorable L keyPrefix (saved w') \<and> addressedPacks keyPrefix (saved w')))"

lemma committed_cong:
  "stored contents s' = stored contents s \<Longrightarrow> published s' = published s \<Longrightarrow> cfg s' = cfg s \<Longrightarrow>
     (packs s' = None \<longleftrightarrow> packs s = None) \<Longrightarrow> committed E contents c s' = committed E contents c s"
  by (simp add: committed_def commitInv_def)

lemma committed_fields [simp]:
  "committed E contents c (s\<lparr>stats := st\<rparr>) = committed E contents c s"
  "committed E contents c (s\<lparr>objects := os\<rparr>) = committed E contents c s"
  "committed E contents c (s\<lparr>files := fs\<rparr>) = committed E contents c s"
  "committed E contents c (s\<lparr>nextFile := k\<rparr>) = committed E contents c s"
  "committed E contents c (updatePacks f s) = committed E contents c s"
  "committed E contents c (count n s) = committed E contents c s"
  by (rule committed_cong; simp add: stored_def updatePacks_def)+

text \<open>Requests to a packed server keep what only depends on the cache, the published keys and the configuration.\<close>

lemma serves_stored:
  assumes "storingBackend E contents" and packed: "\<And>s. I s \<Longrightarrow> packs s \<noteq> None"
    and cong: "\<And>s s'. stored contents s' = stored contents s \<Longrightarrow> published s' = published s \<Longrightarrow> cfg s' = cfg s \<Longrightarrow>
      (packs s' = None \<longleftrightarrow> packs s = None) \<Longrightarrow> I s' = I s"
  shows "serves E I"
proof -
  have reads: "closedReads E (\<lambda>w. contents w = H)" for H using assms(1) by (simp add: storingBackend_def)
  have world: "I (s\<lparr>world := w\<rparr>) = I s" if "contents w = contents (world s)" for s w
    by (rule cong) (simp_all add: stored_def that)
  have same: "I (s\<lparr>stats := st\<rparr>) = I s" "I (s\<lparr>objects := os\<rparr>) = I s" "I (s\<lparr>files := fs\<rparr>) = I s"
    "I (s\<lparr>nextFile := k\<rparr>) = I s" "I (updatePacks f s) = I s" for s st os fs k f
    by (rule cong; simp add: stored_def updatePacks_def)+
  show ?thesis
  proof
    show "keeps I (fault E operation)" for operation
    proof (rule keepsI)
      fix s r s'
      assume pre: "I s" and run: "fault E operation s = (r, s')"
      obtain w where s': "s' = s\<lparr>world := w\<rparr>" using fault_world [OF run] by blast
      from keepsD [OF world_fault [OF reads] _ run, of "contents (world s)"] s' have "contents w = contents (world s)"
        by (simp add: inWorld_def)
      with pre world s' show "I s'" by simp
    qed
    show "I (s\<lparr>world := w\<rparr>)" if "I s" "envLoad E key (world s) = (loaded, w)" for s key loaded w
      using world closedReadsD(4) [OF reads refl that(2)] that(1) by simp
    show "I (s\<lparr>world := w\<rparr>)" if "I s" "envExists E key (world s) = (found, w)" for s key found w
      using world closedReadsD(3) [OF reads refl that(2)] that(1) by simp
    show "triple (\<lambda>s. I s \<and> packs s = None) (publishOnce E key path n) (\<lambda>_. I)" for key path n
      unfolding triple_def using packed by blast
  qed (simp_all add: same)
qed

lemma committed_serves: "storingBackend E contents \<Longrightarrow> serves E (committed E contents c)"
  by (rule serves_stored, assumption, simp add: committed_def, rule committed_cong)

lemma keeps_committed_flush:
  assumes "storingBackend E contents" and "dagcbor_laws (envIpld E)"
  shows "keeps (committed E contents c) (flush E all)"
proof (rule keepsI)
  fix s r s'
  assume pre: "committed E contents c s" and run: "flush E all s = (r, s')"
  then have "commitInv E contents s'"
    using keepsD [OF keeps_flush [OF flushOneLocked_commitInv [OF assms]] _ run] by (simp add: committed_def)
  moreover have "cfg s' = c" using keepsD [OF keeps_flush_cfg _ run] pre by (simp add: committed_def)
  moreover have "packs s' \<noteq> None"
  proof (rule keepsD [OF keeps_flush _ run, of "\<lambda>t. packs t \<noteq> None"], rule keepsI)
    fix s r s'
    assume some: "packs s \<noteq> None" and one: "flushOneLocked E s = (r, s')"
    show "packs s' \<noteq> None"
      using flushOneLocked_packs [OF one refl refl] some by (auto split: sum.splits bool.splits)
  qed (use pre in \<open>simp add: committed_def\<close>)
  ultimately show "committed E contents c s'" by (simp add: committed_def)
qed

lemma step_committed:
  assumes "storingBackend E contents" and "dagcbor_laws (envIpld E)"
    and "cooperates (envIpld E) contents (cfgKeyPrefix c) rely"
    and "step E rely s s'" and "committed E contents c s"
  shows "committed E contents c s'"
proof (rule step_keeps [OF assms(4), where I = "committed E contents c"])
  show "committed E contents c (s\<lparr>world := w\<rparr>)" if "committed E contents c s" "rely (world s) w" for w
    using that assms(3) publishedPacks_mono [of "cfgKeyPrefix c" "published s" "stored contents s" "contents w"]
    by (auto simp: committed_def commitInv_def stored_def cooperates_def)
qed (simp_all add: assms(5) serves.kept_serveHTTP [OF committed_serves [OF assms(1)]] keeps_committed_flush [OF assms(1,2)])

lemma New_committed:
  assumes "storingBackend E contents" and "New E c w = Inr s" and "cfgStorageMode (cfg s) = ''packs''"
    and "restorable (envIpld E) (cfgKeyPrefix (cfg s)) (contents w)" and "addressedPacks (cfgKeyPrefix (cfg s)) (contents w)"
  shows "committed E contents (cfg s) s"
proof -
  have reads: "closedReads E (\<lambda>w'. contents w' = contents w)" using assms(1) by (simp add: storingBackend_def)
  have start: "systemInv s" "published s = {}" using New_start [OF assms(2)] by simp_all
  have "contents (world s) = contents w" using New_world [OF reads assms(2)] by simp
  with start assms(3-5) show ?thesis
    by (auto simp: committed_def commitInv_def stored_def publishedPacks_def systemInv_def split: option.splits)
qed

lemma reachable_committed:
  assumes "storingBackend E contents" and "dagcbor_laws (envIpld E)"
    and "cooperates (envIpld E) contents (cfgKeyPrefix c) rely" and "cfgStorageMode c = ''packs''"
    and "restorable (envIpld E) (cfgKeyPrefix c) (contents w)" and "addressedPacks (cfgKeyPrefix c) (contents w)"
    and "reachable E rely c w s"
  shows "committed E contents c s"
proof -
  have c: "defaultMode c = c" using assms(4) by (simp add: defaultMode_def)
  from assms(7) show ?thesis
  proof (induction rule: reachable.induct)
    case (started s)
    then have "cfg s = c" using New_start [OF started] c by (simp add: defaultMode_def)
    then show ?case using New_committed [OF assms(1) started] assms(4-6) by simp
  next
    case (stepped s s')
    show ?case by (rule step_committed [OF assms(1-3) stepped.hyps(2) stepped.IH])
  qed
qed

text \<open>
  C30. However long a packed server runs, and in whatever order requests, flushes and \<open>Close\<close> come, failing or
  not, while other processes following the same protocol write to the cache and entries are evicted: if every
  manifest that had been saved at the start names only packs that had been saved with the SHA-256 that is their
  ID, then in every state that the server reaches, every manifest that the cache still holds and that decodes
  names only packs that have been saved under their key, at some time, with the SHA-256 that is their ID. And what
  the cache holds under the key of a pack has the SHA-256 of the key. So a pack that a manifest names is there
  or has been evicted; it has not been forgotten by a flush, and it is not another one.
\<close>

theorem reachable_restorable:
  assumes "storingBackend E saved" and "dagcbor_laws (envIpld E)"
    and "cooperates (envIpld E) saved (cfgKeyPrefix c) rely" and "cfgStorageMode c = ''packs''"
    and "restorable (envIpld E) (cfgKeyPrefix c) (saved w)" and "addressedPacks (cfgKeyPrefix c) (saved w)"
    and "reachable E rely c w s" and "held \<subseteq> saved (world s)"
  shows "(\<forall>manifestID data m pack. (manifestKeyFor (cfgKeyPrefix c) manifestID, data) \<in> held \<and>
      decodeManifest (envIpld E) data manifestID = Inr m \<and> pack \<in> set (mfPacks m) \<longrightarrow>
      (\<exists>archive. (pkKey pack, archive) \<in> saved (world s) \<and> sha256_hex archive = pkID pack)) \<and>
    (\<forall>packID archive. (packKeyFor (cfgKeyPrefix c) packID, archive) \<in> held \<longrightarrow> sha256_hex archive = packID)"
proof -
  have "commitInv E saved s" "cfg s = c"
    using reachable_committed [OF assms(1-7)] by (simp_all add: committed_def)
  then have "restorable (envIpld E) (cfgKeyPrefix c) (saved (world s))" "addressedPacks (cfgKeyPrefix c) (saved (world s))"
    by (auto simp: commitInv_def stored_def)
  with assms(8) show ?thesis unfolding restorable_def addressedPacks_def by blast
qed

end
