(* ===== verification/ServerExamples.thy ===== *)
theory ServerExamples
  imports PackExamples System
begin

text \<open>
  Concrete instances for the HTTP server and for the server as a whole: requests that are answered by the
  example servers, and a packed server that is started.
\<close>

section \<open>Requests\<close>

definition getRequest :: "string \<Rightarrow> request" where
  "getRequest path = \<lparr>reqMethod = ''GET'', reqPath = path, reqContentEncoding = [], reqContentLength = 0,
     reqShutdownToken = [], reqBody = [], reqBodyError = None, reqTakes = None\<rparr>"

definition putRequest :: "string \<Rightarrow> bytes \<Rightarrow> request" where
  "putRequest path body = \<lparr>reqMethod = ''PUT'', reqPath = path, reqContentEncoding = [],
     reqContentLength = int (length body), reqShutdownToken = [], reqBody = [body], reqBodyError = None,
     reqTakes = None\<rparr>"

lemma request_fields [simp]:
  "reqMethod (getRequest path) = ''GET''" "reqPath (getRequest path) = path"
  "reqMethod (putRequest path body) = ''PUT''" "reqPath (putRequest path body) = path"
  "reqContentLength (putRequest path body) = int (length body)" "reqBody (putRequest path body) = [body]"
  "reqContentEncoding (putRequest path body) = []" "reqBodyError (putRequest path body) = None"
  "readMethod (getRequest path)" "\<not> readMethod (putRequest path body)"
  by (simp_all add: getRequest_def putRequest_def readMethod_def)

lemma example_paths:
  "parseObjectPath (''/cas/'' @ exampleHash) = Some (''cas'', exampleHash)"
  "parseObjectPath (''/ac/'' @ exampleHash) = Some (''ac'', exampleHash)"
  "parseObjectPath (''/cas/'' @ exampleDigest) = Some (''cas'', exampleDigest)"
  using object_path [of "''cas''" exampleHash] object_path [of "''ac''" exampleHash]
    object_path [of "''cas''" exampleDigest] example_digests
  by (simp_all add: exampleDigest_def)

lemma example_requests:
  "parseObjectPath (reqPath (getRequest (''/cas/'' @ exampleDigest))) = Some (''cas'', exampleDigest)"
  "parseObjectPath (reqPath (getRequest (''/ac/'' @ exampleHash))) = Some (''ac'', exampleHash)"
  "parseObjectPath (reqPath (putRequest (''/cas/'' @ exampleDigest) body)) = Some (''cas'', exampleDigest)"
  "parseObjectPath (reqPath (putRequest (''/cas/'' @ exampleHash) body)) = Some (''cas'', exampleHash)"
  "parseObjectPath (reqPath (putRequest (''/ac/'' @ exampleHash) body)) = Some (''ac'', exampleHash)"
  by (simp_all only: request_fields example_paths)

lemma routing_injective_witness:
  "objectKey ''repo'' ''cas'' exampleHash \<noteq> objectKey ''repo'' ''ac'' exampleHash"
  using routing_injective [OF example_paths(1,2), of "''repo''"] by auto

lemma emptyServer_inv: "serverInv (exampleServer Map.empty 0)"
  by (rule exampleServer_inv) simp

theorem serveAll_keeps_objects_witness:
  "objects (snd (serveAll oneObject [getRequest (''/cas/'' @ exampleDigest), putRequest (''/ac/'' @ exampleHash) [9]]
     withAction)) (objectKey ''repo'' ''ac'' exampleHash)
   = Some \<lparr>objPath = 0, objSize = int (length exampleActionResult)\<rparr>"
proof -
  let ?rs = "[getRequest (''/cas/'' @ exampleDigest), putRequest (''/ac/'' @ exampleHash) [9]]"
  obtain responses s' where run: "serveAll oneObject ?rs withAction = (responses, s')" by (metis surj_pair)
  have "0 \<le> cfgMaxBlobSize (cfg withAction)" by (simp add: withAction_def exampleServer_def exampleConfig_def)
  moreover have "objects withAction (objectKey ''repo'' ''ac'' exampleHash)
      = Some \<lparr>objPath = 0, objSize = int (length exampleActionResult)\<rparr>"
    by (simp add: withAction_def)
  ultimately show ?thesis using serveAll_keeps_objects [OF withAction_inv _ run] run by simp
qed

section \<open>Reading\<close>

text \<open>An environment without faults, whatever its backend holds.\<close>

lemma faultless: "fault (exampleEnv entries nodes) operation s = (Inr (), s)"
  by (simp add: fault_def exampleEnv_def)

lemma serves_local:
  assumes "files s (objPath ob) = Some data"
  shows "serveObject (exampleEnv entries nodes) (getRequest path) ob s
    = ((respond 200 (objectHeaders (objSize ob)) [])\<lparr>rsBody := data\<rparr>, countBytes BytesServed (length data) (count Hits s))"
  using assms
  by (simp add: serveObject_def openFile_def readFile_def attempt_def andThen_def faultless Let_def getRequest_def)
    (simp add: respond_def)

lemma oneObject_serves:
  "\<exists>response s'. serveHTTP oneObject (getRequest (''/cas/'' @ exampleDigest)) (exampleServer Map.empty 0)
     = (response, s') \<and> rsStatus response = 200 \<and> \<not> rsBroken response"
proof -
  let ?s = "count Requests (exampleServer Map.empty 0)"
  show ?thesis
  proof (cases "exampleDigest = emptySHA256Digest")
    case True
    then show ?thesis
      unfolding serveHTTP_object [OF example_requests(1)]
      by (simp add: handleImplicitEmptyCASRead_def respond_def)
  next
    case False
    obtain s' where "server_resolve oneObject (objectKey ''repo'' ''cas'' exampleDigest) ''cas'' exampleDigest ?s
        = (Inr (Some \<lparr>objPath = 0, objSize = 3\<rparr>), s')" "files s' 0 = Some [1, 2, 3]"
      by (simp add: example_defs server_resolve_def acquire_def fault_def attempt_def andThen_def createTemp_def
          createFile_def removeUnlessKept_def downloadObject_def backendLoadInto_def maxWriter_Write_def
          writeFile_def appendFile_def fileContent_def count_def statSize_def hashFile_def enterObject_def
          exampleDigest_def casKey_objectKey)
    with False show ?thesis
      unfolding serveHTTP_object [OF example_requests(1)]
      using serves_local [of s' "\<lparr>objPath = 0, objSize = 3\<rparr>"]
      by (simp add: handleRead_def andThen_def Let_def exampleServer_def exampleConfig_def oneObject_def respond_def)
  qed
qed

theorem get_cas_integrity_witness:
  "\<exists>response s'. serveHTTP oneObject (getRequest (''/cas/'' @ exampleDigest)) (exampleServer Map.empty 0)
     = (response, s') \<and> rsStatus response = 200 \<and> sha256_hex (rsBody response) = exampleDigest"
proof -
  obtain response s' where run: "serveHTTP oneObject (getRequest (''/cas/'' @ exampleDigest)) (exampleServer Map.empty 0)
     = (response, s')" "rsStatus response = 200" "\<not> rsBroken response" using oneObject_serves by blast
  from get_cas_integrity [OF emptyServer_inv exampleServer_size run(1) _ _ run(2,3)] run(1,2) show ?thesis by simp
qed

theorem readonly_never_saves_witness:
  "world (snd (serveHTTP (storeEnv []) (getRequest (''/cas/'' @ exampleDigest)) (packedServer emptyPackStore Map.empty 0 {}))) = {}"
proof -
  let ?s = "packedServer emptyPackStore Map.empty 0 {}"
  obtain response s' where run: "serveHTTP (storeEnv []) (getRequest (''/cas/'' @ exampleDigest)) ?s = (response, s')"
    by (metis surj_pair)
  have "closedReads (storeEnv []) (\<lambda>w. w = {})" by (simp add: closedReads_def storeEnv_def)
  from readonly_never_saves [OF this _ run] run show ?thesis by (simp add: packedServer_def)
qed

theorem fail_open_never_fails_witness:
  "rsStatus (fst (serveHTTP oneObject (getRequest (''/cas/'' @ exampleDigest)) (exampleServer Map.empty 0))) \<in> {200, 404}"
proof -
  obtain response s' where run: "serveHTTP oneObject (getRequest (''/cas/'' @ exampleDigest)) (exampleServer Map.empty 0)
     = (response, s')" by (metis surj_pair)
  have "cfgFailOpen (cfg (exampleServer Map.empty 0))" by (simp add: exampleServer_def exampleConfig_def)
  from fail_open_never_fails [OF emptyServer_inv exampleServer_size run this example_requests(1)] run show ?thesis by simp
qed

theorem shutdown_authorised_witness:
  "rsShutdown (fst (serveHTTP oneObject ((getRequest ''/shutdown'')\<lparr>reqMethod := ''POST'', reqShutdownToken := ''t''\<rparr>)
     ((exampleServer Map.empty 0)\<lparr>cfg := exampleConfig\<lparr>cfgShutdownToken := ''t'', cfgShutdown := True\<rparr>\<rparr>)))"
proof -
  let ?r = "(getRequest ''/shutdown'')\<lparr>reqMethod := ''POST'', reqShutdownToken := ''t''\<rparr>"
  let ?s = "(exampleServer Map.empty 0)\<lparr>cfg := exampleConfig\<lparr>cfgShutdownToken := ''t'', cfgShutdown := True\<rparr>\<rparr>"
  obtain response s' where run: "serveHTTP oneObject ?r ?s = (response, s')" by (metis surj_pair)
  from shutdown_authorised [OF run] run show ?thesis by (simp add: getRequest_def)
qed

section \<open>Uploading\<close>

theorem put_mismatch_refused_witness:
  "objects (snd (serveHTTP oneObject ((putRequest (''/cas/'' @ exampleHash) [1, 2, 3])\<lparr>reqContentLength := 5\<rparr>)
     (exampleServer Map.empty 0))) = Map.empty"
proof -
  let ?r = "(putRequest (''/cas/'' @ exampleHash) [1, 2, 3])\<lparr>reqContentLength := 5\<rparr>"
  obtain response s' where run: "serveHTTP oneObject ?r (exampleServer Map.empty 0) = (response, s')" by (metis surj_pair)
  have path: "parseObjectPath (reqPath ?r) = Some (''cas'', exampleHash)"
    using example_requests(4) [of "[1, 2, 3]"] by (simp add: putRequest_def)
  have "reqMethod ?r = ''PUT''" "int (length (concat (reqBody ?r))) \<noteq> reqContentLength ?r"
    by (simp_all add: putRequest_def)
  from put_mismatch_refused [OF emptyServer_inv exampleServer_size run this(1) path] this(2) run
  show ?thesis by (simp add: exampleServer_def)
qed

text \<open>The upload of a body of at most 1000 bytes to a server without local objects, up to \<open>finishUpload\<close>.\<close>

lemma example_put:
  assumes "parseObjectPath (reqPath (putRequest path body)) = Some (kind, digest)" and "length body \<le> 1000"
    and "kind = ''cas'' \<longrightarrow> sha256_hex body = digest" and "s = (exampleServer Map.empty 0)\<lparr>cfg := exampleConfig\<lparr>cfgWriteEnabled := b\<rparr>\<rparr>"
  shows "\<exists>st. serveHTTP (exampleEnv entries nodes) (putRequest path body) s =
    finishUpload (exampleEnv entries nodes) (objectKey ''repo'' kind digest) kind digest
      \<lparr>objPath = 0, objSize = int (length body)\<rparr> 0 (int (length body))
      (s\<lparr>stats := st, objects := [objectKey ''repo'' kind digest \<mapsto> \<lparr>objPath = 0, objSize = int (length body)\<rparr>],
         files := [0 \<mapsto> body], nextFile := 1\<rparr>)"
proof -
  let ?E = "exampleEnv entries nodes"
  have limit: "uploadLimit (int (length body)) = Suc (length body)" using assms(2) by (simp add: uploadLimit_def maxInt64_def)
  have temp: "createTemp ?E t = (Inr (nextFile t), t\<lparr>files := (files t)(nextFile t \<mapsto> []), nextFile := Suc (nextFile t)\<rparr>)" for t
    by (simp add: createTemp_def createFile_def attempt_def andThen_def faultless)
  have written: "writeFile ?E p d t = (Inr (), appendFile p d t)" for p d t
    by (simp add: writeFile_def attempt_def andThen_def faultless)
  have facts: "\<not> (kind = ''cas'' \<and> sha256_hex body \<noteq> digest)" "\<not> int (length body) > 1000" "sha256_hex body = digest \<or> kind \<noteq> ''cas''"
    using assms(2,3) by auto
  have config: "cfg s = exampleConfig\<lparr>cfgWriteEnabled := b\<rparr>" "objects s = Map.empty" "files s = Map.empty" "nextFile s = 0"
    by (simp_all add: assms(4) exampleServer_def)
  have pair: "andThen m (\<lambda>response. returning (response, True)) t = (case m t of (x, t') \<Rightarrow> ((x, True), t'))"
    for m :: "(unit server, response) comp" and t by (simp add: andThen_def split: prod.split)
  let ?t = "\<lambda>st. s\<lparr>stats := st, objects := [objectKey ''repo'' kind digest \<mapsto> \<lparr>objPath = 0, objSize = int (length body)\<rparr>],
         files := [0 \<mapsto> body], nextFile := 1\<rparr>"
  let ?finish = "finishUpload ?E (objectKey ''repo'' kind digest) kind digest
      \<lparr>objPath = 0, objSize = int (length body)\<rparr> 0 (int (length body))"
  have "\<exists>st. receiveUpload ?E (putRequest path body) (objectKey ''repo'' kind digest) kind digest 0
      ((count Requests s)\<lparr>files := [0 \<mapsto> []], nextFile := 1\<rparr>)
    = (case ?finish (?t st) of (x, t') \<Rightarrow> ((x, True), t'))"
    unfolding receiveUpload_def Let_def
    apply (simp add: andThen_def written limit facts fileContent_def appendFile_def enterObject_def faultless
        countBytes_def count_def config)
    apply (rule exI [of _ "counter_Add BytesReceived (length body) (counter_Add Requests (Suc 0) (stats s))"])
    apply (cases s, simp)
    done
  then obtain st where received: "receiveUpload ?E (putRequest path body) (objectKey ''repo'' kind digest) kind digest 0
      ((count Requests s)\<lparr>files := [0 \<mapsto> []], nextFile := 1\<rparr>) = (case ?finish (?t st) of (x, t') \<Rightarrow> ((x, True), t'))"
    by blast
  show ?thesis
    unfolding serveHTTP_object [OF assms(1)]
    using assms(2) received
    by (intro exI [of _ st]) (simp add: Let_def handlePut_def config temp andThen_def exampleConfig_def split: prod.split)
qed

text \<open>A body that is a CAS object, to a server that does not write.\<close>

definition readOnly :: "unit server" where
  "readOnly = (exampleServer Map.empty 0)\<lparr>cfg := exampleConfig\<lparr>cfgWriteEnabled := False\<rparr>\<rparr>"

lemma readOnly_inv: "serverInv readOnly" "0 \<le> cfgMaxBlobSize (cfg readOnly)"
  by (simp_all add: readOnly_def serverInv_def exampleServer_def thePacks_def emptyPackStore_def exampleConfig_def)

theorem put_accepted_stored_witness:
  "\<exists>ob s'. objects s' (objectKey ''repo'' ''cas'' exampleDigest) = Some ob \<and>
     snd (serveHTTP oneObject (putRequest (''/cas/'' @ exampleDigest) [1, 2, 3]) readOnly) = s' \<and>
     fileContent s' (objPath ob) = [1, 2, 3]"
proof -
  let ?r = "putRequest (''/cas/'' @ exampleDigest) [1, 2, 3]"
  obtain response s' where run: "serveHTTP oneObject ?r readOnly = (response, s')" by (metis surj_pair)
  obtain st where "serveHTTP oneObject ?r readOnly = finishUpload oneObject (objectKey ''repo'' ''cas'' exampleDigest)
      ''cas'' exampleDigest \<lparr>objPath = 0, objSize = 3\<rparr> 0 3
      (readOnly\<lparr>stats := st, objects := [objectKey ''repo'' ''cas'' exampleDigest \<mapsto> \<lparr>objPath = 0, objSize = 3\<rparr>],
         files := [0 \<mapsto> [1, 2, 3]], nextFile := 1\<rparr>)"
    using example_put [OF example_requests(3), of "[1, 2, 3]" readOnly False] unfolding oneObject_def
    by (auto simp: exampleDigest_def readOnly_def)
  then have "rsStatus response = 204"
    using run by (auto simp: readOnly_def finishUpload_def noContent_def respond_def)
  from put_accepted_stored [OF readOnly_inv run _ example_requests(3) this] run
  show ?thesis by (auto simp: readOnly_def exampleServer_def exampleConfig_def)
qed

text \<open>An action result whose one output is in the backend.\<close>

lemma output_validates:
  assumes "files t (objPath ob) = Some exampleActionResult" and "cfgKeyPrefix (cfg t) = ''repo''" and "packs t = None"
    and "objects t (casKey ''repo'' exampleHash) = None"
  shows "\<exists>closure st. validateActionResultClosure hasOutput ob persisted collectClosure t = (Inr closure, t\<lparr>stats := st\<rparr>)"
proof -
  obtain refs where refs: "parseActionResult exampleWire exampleActionResult = Inr refs"
    and sets: "dcValues (arBlobs refs) = [exampleReference]" "dcValues (arTrees refs) = []"
      "dcValues (arDirectories refs) = []"
    using exampleActionResult_parses by (cases "parseActionResult exampleWire exampleActionResult") auto
  have wire: "envWire hasOutput = exampleWire" by (simp add: hasOutput_def exampleEnv_def)
  have fault: "fault hasOutput operation s = (Inr (), s)" for operation s
    unfolding hasOutput_def by (rule faultless)
  have exists: "backendExists hasOutput (casKey ''repo'' exampleHash) s = (Inr True, count BackendExistenceChecks s)" for s
    by (simp add: backendExists_def attempt_def andThen_def fault acquire_def) (simp add: hasOutput_def exampleEnv_def)
  show ?thesis
    by (cases persisted)
      (use exampleReference_not_empty assms in \<open>auto simp: validateActionResultClosure_def readFile_def fault wire refs sets
        attempt_def andThen_def validateBlob_def rememberDigest_def newValidator_def reserveObject_def
        maxActionResultObjects_def casExists_def collect_def exists server_exists_def Let_def count_def
        validateDirectoryClosure_def sortDigestReferences_def uniqueReference_def exampleReference_def\<close>)
qed

theorem get_action_complete_witness:
  "\<exists>response s'. serveHTTP hasOutput (getRequest (''/ac/'' @ exampleHash)) withAction = (response, s') \<and>
     rsStatus response = 200 \<and> closureComplete exampleWire (\<lambda>key _. key = casKey ''repo'' exampleHash) False s' (rsBody response)"
proof -
  let ?ob = "\<lparr>objPath = 0, objSize = int (length exampleActionResult)\<rparr>"
  let ?s = "count Requests withAction"
  have fields: "files ?s 0 = Some exampleActionResult" "cfgKeyPrefix (cfg ?s) = ''repo''" "packs ?s = None"
    "objects ?s (casKey ''repo'' exampleHash) = None" "objects ?s (objectKey ''repo'' ''ac'' exampleHash) = Some ?ob"
    by (simp_all add: withAction_def exampleServer_def exampleConfig_def) (simp add: objectKey_def casKey_def)
  obtain closure st where valid: "validateActionResultClosure hasOutput ?ob False False ?s = (Inr closure, ?s\<lparr>stats := st\<rparr>)"
    using output_validates [of ?s ?ob False False] fields by auto
  have serve: "serveObject hasOutput (getRequest path) ?ob t = ((respond 200 (objectHeaders (objSize ?ob)) [])\<lparr>rsBody := exampleActionResult\<rparr>,
      countBytes BytesServed (length exampleActionResult) (count Hits t))" if "files t 0 = Some exampleActionResult" for path t
    unfolding hasOutput_def by (rule serves_local) (simp add: that)
  obtain response s' where run: "serveHTTP hasOutput (getRequest (''/ac/'' @ exampleHash)) withAction = (response, s')"
    by (metis surj_pair)
  have "rsStatus response = 200 \<and> \<not> rsBroken response"
    using run fields valid unfolding serveHTTP_object [OF example_requests(2)]
    by (auto simp: Let_def handleRead_def server_resolve_def andThen_def attempt_def validateActionResult_def serve respond_def)
  moreover have "0 \<le> cfgMaxBlobSize (cfg withAction)" by (simp add: withAction_def exampleServer_def exampleConfig_def)
  ultimately show ?thesis
    using get_action_complete [OF hasOutput_honest withAction_inv _ run _ example_requests(2)] run
    by (simp add: hasOutput_def exampleEnv_def)
qed

theorem put_action_published_complete_witness:
  "\<exists>s' :: unit server. closureComplete exampleWire (\<lambda>key _. key = casKey ''repo'' exampleHash) True s' exampleActionResult \<and>
     objectKey ''repo'' ''ac'' exampleHash \<in> published s'"
proof -
  let ?r = "putRequest (''/ac/'' @ exampleHash) exampleActionResult"
  let ?key = "objectKey ''repo'' ''ac'' exampleHash" and ?n = "int (length exampleActionResult)"
  let ?s = "(exampleServer Map.empty 0)\<lparr>cfg := exampleConfig\<lparr>cfgWriteEnabled := True\<rparr>\<rparr>"
  have size: "length exampleActionResult \<le> 1000" by code_simp
  obtain st where put: "serveHTTP hasOutput ?r ?s = finishUpload hasOutput ?key ''ac'' exampleHash
      \<lparr>objPath = 0, objSize = ?n\<rparr> 0 ?n
      (?s\<lparr>stats := st, objects := [?key \<mapsto> \<lparr>objPath = 0, objSize = ?n\<rparr>], files := [0 \<mapsto> exampleActionResult], nextFile := 1\<rparr>)"
    using example_put [OF example_requests(5) size, of ?s True] unfolding hasOutput_def by auto
  let ?t = "?s\<lparr>stats := st, objects := [?key \<mapsto> \<lparr>objPath = 0, objSize = ?n\<rparr>], files := [0 \<mapsto> exampleActionResult], nextFile := 1\<rparr>"
  have fields: "files ?t 0 = Some exampleActionResult" "cfgKeyPrefix (cfg ?t) = ''repo''" "packs ?t = None"
    "objects ?t (casKey ''repo'' exampleHash) = None" "cfgWriteEnabled (cfg ?t)" "published ?t = {}"
    by (simp_all add: exampleServer_def exampleConfig_def) (simp add: objectKey_def casKey_def)
  obtain closure st' where valid: "validateActionResultClosure hasOutput \<lparr>objPath = 0, objSize = ?n\<rparr> True False ?t
      = (Inr closure, ?t\<lparr>stats := st'\<rparr>)"
    using output_validates [of ?t "\<lparr>objPath = 0, objSize = ?n\<rparr>" True False] fields by auto
  have quiet: "fault hasOutput operation t = (Inr (), t)" "clockNow hasOutput t = (0, t)" for operation t
    unfolding hasOutput_def by (rule faultless) (simp add: clockNow_def exampleEnv_def)
  have saved: "backendSave hasOutput k d t = (Inr (), t)" for k d t
    by (simp add: backendSave_def hasOutput_def exampleEnv_def)
  obtain b l where wait: "limiter_wait hasOutput (count ValidatedActionResults (?t\<lparr>stats := st'\<rparr>))
      = (Inr b, (count ValidatedActionResults (?t\<lparr>stats := st'\<rparr>))\<lparr>limiter := l\<rparr>)"
    using waits_quietly [OF quiet] by blast
  obtain response s' where run: "serveHTTP hasOutput ?r ?s = (response, s')" by (metis surj_pair)
  have published: "?key \<in> published s'"
    using run fields valid wait unfolding put
    by (auto simp: finishUpload_def andThen_def attempt_def validateActionResultForPublication_def publishUpload_def
        publishOnce_def publish_def acquire_def quiet saved)
  have "serverInv ?s" "0 \<le> cfgMaxBlobSize (cfg ?s)"
    by (simp_all add: serverInv_def exampleServer_def thePacks_def emptyPackStore_def exampleConfig_def)
  moreover have "savesKeep hasOutput (\<lambda>key _. key = casKey ''repo'' exampleHash)" by (simp add: savesKeep_def)
  ultimately have "closureComplete (envWire hasOutput) (\<lambda>key _. key = casKey ''repo'' exampleHash) True s' (concat (reqBody ?r))"
    using put_action_published_complete [OF hasOutput_honest _ _ _ run _ example_requests(5)] published
    by (simp add: exampleServer_def exampleConfig_def)
  then have "closureComplete exampleWire (\<lambda>key _. key = casKey ''repo'' exampleHash) True s' exampleActionResult"
    by (simp add: hasOutput_def exampleEnv_def)
  with published show ?thesis by blast
qed

section \<open>A packed server\<close>

definition packsConfig :: config where
  "packsConfig = exampleConfig\<lparr>cfgCatalog := True, cfgStorageMode := ''packs'', cfgPackSize := 100,
     cfgPackFlushInterval := 1, cfgMaxManifests := 10\<rparr>"

lemma packsConfig_valid: "validConfig packsConfig" "defaultMode packsConfig = packsConfig"
proof -
  have "prefixPattern ''repo''" by code_simp
  then show "validConfig packsConfig" by (simp add: validConfig_def packsConfig_def exampleConfig_def)
  show "defaultMode packsConfig = packsConfig" by (simp add: defaultMode_def packsConfig_def)
qed

lemma packsConfig_starts: "\<exists>s. New (storeEnv []) packsConfig {} = Inr s"
proof -
  have check: "checkConfig packsConfig = Inr packsConfig"
    using packsConfig_valid by (simp add: checkConfig_Inr defaultMode_def)
  have quiet: "fault (storeEnv []) operation t = (Inr (), t)" "backendList (storeEnv []) keyPrefix limit t = (Inr [], t)"
    for operation keyPrefix limit and t :: "(string \<times> bytes) set server"
    by (simp_all add: fault_def backendList_def library_def storeEnv_def)
  have "cfgStorageMode packsConfig = ''packs''" "cfgCatalog packsConfig" by (simp_all add: packsConfig_def)
  then show ?thesis
    by (simp add: New_def check quiet newPackStore_def discover_def andThen_def attempt_def initialServer_def)
qed

theorem reachable_inv_witness:
  "\<exists>s s'. reachable (storeEnv []) (=) packsConfig {} s \<and> systemInv s \<and> systemInv s' \<and>
     snd (serveHTTP (storeEnv []) (putRequest (''/ac/'' @ exampleHash) [1]) s) = s'"
proof -
  obtain s where s: "New (storeEnv []) packsConfig {} = Inr s" using packsConfig_starts by blast
  obtain response s' where run: "serveHTTP (storeEnv []) (putRequest (''/ac/'' @ exampleHash) [1]) s = (response, s')"
    by (metis surj_pair)
  have reach: "reachable (storeEnv []) (=) packsConfig {} s" by (rule started [OF s])
  have "step (storeEnv []) (=) s s'" by (rule request [OF run])
  from reachable_inv [OF reach this] reach run show ?thesis by (intro exI [of _ s] exI [of _ s']) simp
qed

text \<open>
  A cache that evicts: its world is what it holds and what has been saved. It starts with a pack and the manifest
  of this pack, which the listing does not show yet, and loses the pack while the server runs.
\<close>

definition lonePack :: packDescriptor where
  "lonePack = \<lparr>pkID = sha256_hex [7], pkKey = packKeyFor ''repo'' (sha256_hex [7]), pkSize = 1\<rparr>"

definition loneManifest :: manifest where
  "loneManifest = \<lparr>mfVersion = 1, mfParents = [], mfPacks = [lonePack], mfCAS = [], mfActions = []\<rparr>"

definition loneEntry :: "string \<times> bytes" where
  "loneEntry = (manifestKeyFor ''repo'' (stringOfBytes [1, 0]), [0])"

definition loneCache :: "(string \<times> bytes) set" where
  "loneCache = {(pkKey lonePack, [7]), loneEntry}"

lemma loneManifest_encoded:
  "encodeManifest (manifestLibrary loneManifest) loneManifest = Inr ([0], stringOfBytes [1, 0])"
proof -
  obtain n where n: "manifestToNode loneManifest = Inr n"
    by (simp add: manifestToNode_def loneManifest_def manifestFormatVersion_def)
  then show ?thesis
    by (simp add: encodeManifest_def manifestLibrary_def exampleIpld_def dagCBORCID_def)
qed

lemma loneManifest_decoded:
  "decodeManifest (manifestLibrary loneManifest) [0] (stringOfBytes [1, 0]) = Inr (canonicalManifest loneManifest)"
proof (rule decodeManifest_encoded [OF manifestLibrary_laws _ _ loneManifest_encoded])
  show "validManifest (manifestLibrary loneManifest) loneManifest"
    by (simp add: validManifest_def loneManifest_def lonePack_def packOk_def packKeyFor_def suffix_def)
  show "sizesFit loneManifest" by (simp add: sizesFit_def loneManifest_def lonePack_def isInt64_def maxInt64_def)
qed

lemma loneCache_restorable:
  "restorable (manifestLibrary loneManifest) ''repo'' loneCache" "addressedPacks ''repo'' loneCache"
proof -
  have "mfPacks m = [lonePack]" if "decodeManifest (manifestLibrary loneManifest) [0] manifestID = Inr m" for manifestID m
    by (rule decoded_packs [OF manifestLibrary_laws loneManifest_encoded _ that]) (simp add: loneManifest_def)
  then show "restorable (manifestLibrary loneManifest) ''repo'' loneCache"
    unfolding restorable_def loneCache_def loneEntry_def by (auto simp: lonePack_def)
  show "addressedPacks ''repo'' loneCache"
    by (auto simp: addressedPacks_def loneCache_def loneEntry_def lonePack_def)
qed

definition evictingEnv :: "((string \<times> bytes) set \<times> (string \<times> bytes) set, bytes) env" where
  "evictingEnv = \<lparr>
     envFault = (\<lambda>_ w. (None, w)), envNow = (\<lambda>w. (0, w)),
     envExists = (\<lambda>key w. (Inr (key \<in> fst ` fst w), w)), envLoad = (\<lambda>key w. (([], Inr False), w)),
     envSave = (\<lambda>key data (held, saved). (None, insert (key, data) held, insert (key, data) saved)),
     envList = (\<lambda>_ _ w. (Inr [], w)), envWire = exampleWire, envIpld = manifestLibrary loneManifest\<rparr>"

definition evicts :: "'a set \<times> 'a set \<Rightarrow> 'a set \<times> 'a set \<Rightarrow> bool" where
  "evicts w w' \<longleftrightarrow> fst w' \<subseteq> fst w \<and> snd w' = snd w"

lemma evictingEnv_stores: "storingBackend evictingEnv snd"
  by (auto simp: storingBackend_def closedReads_def evictingEnv_def)

lemma evictingEnv_starts:
  "\<exists>s. New evictingEnv packsConfig w = Inr s \<and> world s = w"
proof -
  have check: "checkConfig packsConfig = Inr packsConfig"
    using packsConfig_valid by (simp add: checkConfig_Inr defaultMode_def)
  have quiet: "fault evictingEnv operation t = (Inr (), t)" "backendList evictingEnv keyPrefix limit t = (Inr [], t)"
    for operation keyPrefix limit and t :: "((string \<times> bytes) set \<times> (string \<times> bytes) set) server"
    by (simp_all add: fault_def backendList_def library_def evictingEnv_def)
  have "cfgStorageMode packsConfig = ''packs''" "cfgCatalog packsConfig" by (simp_all add: packsConfig_def)
  then show ?thesis
    by (simp add: New_def check quiet newPackStore_def discover_def andThen_def attempt_def initialServer_def
        countBytes_def updatePacks_def)
qed

theorem reachable_restorable_witness:
  "\<exists>s archive. reachable evictingEnv evicts packsConfig (loneCache, loneCache) s \<and> fst (world s) = {loneEntry} \<and>
     (pkKey lonePack, archive) \<in> snd (world s) \<and> sha256_hex archive = pkID lonePack"
proof -
  obtain s where s: "New evictingEnv packsConfig (loneCache, loneCache) = Inr s" "world s = (loneCache, loneCache)"
    using evictingEnv_starts by blast
  let ?s = "s\<lparr>world := ({loneEntry}, loneCache)\<rparr>"
  have "evicts (world s) ({loneEntry}, loneCache)" by (simp add: s(2) evicts_def loneCache_def)
  then have reach: "reachable evictingEnv evicts packsConfig (loneCache, loneCache) ?s"
    by (rule stepped [OF started [OF s(1)] others])
  have config: "cfgKeyPrefix packsConfig = ''repo''" "cfgStorageMode packsConfig = ''packs''" "envIpld evictingEnv = manifestLibrary loneManifest"
    by (simp_all add: packsConfig_def exampleConfig_def evictingEnv_def)
  have rely: "cooperates (manifestLibrary loneManifest) snd ''repo'' evicts" by (simp add: cooperates_def evicts_def)
  have start: "restorable (manifestLibrary loneManifest) ''repo'' (snd (loneCache, loneCache))"
    "addressedPacks ''repo'' (snd (loneCache, loneCache))" using loneCache_restorable by simp_all
  have held: "fst (world ?s) \<subseteq> snd (world ?s)" by (simp add: loneCache_def)
  have "(manifestKeyFor ''repo'' (stringOfBytes [1, 0]), [0]) \<in> fst (world ?s)" by (simp add: loneEntry_def)
  moreover have "lonePack \<in> set (mfPacks (canonicalManifest loneManifest))" by (simp add: canonicalManifest_def loneManifest_def)
  ultimately obtain archive where "(pkKey lonePack, archive) \<in> snd (world ?s)" "sha256_hex archive = pkID lonePack"
    using reachable_restorable [OF evictingEnv_stores _ _ _ _ _ reach held, unfolded config, OF manifestLibrary_laws rely refl start]
      loneManifest_decoded by blast
  with reach show ?thesis by (intro exI [of _ ?s] exI [of _ archive]) simp
qed

end
