(* ===== verification/Backend.thy ===== *)
theory Backend
  imports Commit Http
begin

text \<open>
  \<open>backend.go\<close>: the client of the GitHub Actions cache behind the interface \<open>cache.Backend\<close>. The library
  \<open>go-actions-cache\<close> is a parameter; what the development relies on of it are the laws
  \<open>actionsCache_laws\<close>. Under them the methods of \<open>ActionsBackend\<close> are a backend as \<open>Commit\<close> and
  \<open>Worlds\<close> assume one.
\<close>

section \<open>The client library\<close>

text \<open>
  \<open>acLoad\<close> is \<open>Cache.Load\<close>, which may find no entry; \<open>acWriteTo\<close> is \<open>Entry.WriteTo\<close>, the chunks that it
  writes and the error it ends with; \<open>acSave\<close> is \<open>Cache.Save\<close>. \<open>acDone\<close> says whether the context is done
  before a timer of so many milliseconds has fired.
\<close>

record fileBlob =
  fbFile :: bytes
  fbSize :: int

record ('w, 'e) actionsCache =
  acLoad :: "string \<Rightarrow> 'w \<Rightarrow> (string + 'e option) \<times> 'w"
  acWriteTo :: "'e \<Rightarrow> 'w \<Rightarrow> (bytes list \<times> string option) \<times> 'w"
  acSave :: "string \<Rightarrow> fileBlob \<Rightarrow> 'w \<Rightarrow> string option \<times> 'w"
  acDone :: "nat \<Rightarrow> 'w \<Rightarrow> bool \<times> 'w"

section \<open>The blob of an upload\<close>

text \<open>
  \<open>ReadAt\<close> of a file: at most \<open>n\<close> bytes from an offset, and whether the file ended before; a negative
  offset is an error, like the end of the file with nothing read.
\<close>

definition fileBlob_ReadAt :: "fileBlob \<Rightarrow> nat \<Rightarrow> int \<Rightarrow> bytes \<times> bool" where
  "fileBlob_ReadAt b n off =
     (if off < 0 then ([], True)
      else let p = take n (drop (nat off) (fbFile b)) in (p, length p < n))"

definition fileBlob_Size :: "fileBlob \<Rightarrow> int" where
  "fileBlob_Size b = fbSize b"

text \<open>What a client that reads \<open>Size\<close> bytes from the start uploads.\<close>

definition blobContent :: "fileBlob \<Rightarrow> bytes" where
  "blobContent b = fst (fileBlob_ReadAt b (nat (fileBlob_Size b)) 0)"

lemma blobContent_whole [simp]: "blobContent \<lparr>fbFile = data, fbSize = int (length data)\<rparr> = data"
  by (simp add: blobContent_def fileBlob_ReadAt_def fileBlob_Size_def)

section \<open>The methods\<close>

definition backend_Load ::
    "('w, 'e) actionsCache \<Rightarrow> string \<Rightarrow> 'w \<Rightarrow> (bytes list \<times> (string + bool)) \<times> 'w" where
  "backend_Load C key w =
     (case acLoad C key w of
        (Inl m, w) \<Rightarrow> (([], Inl (''load cache entry: '' @ m)), w)
      | (Inr None, w) \<Rightarrow> (([], Inr False), w)
      | (Inr (Some entry), w) \<Rightarrow>
          (case acWriteTo C entry w of
             ((chunks, Some m), w) \<Rightarrow> ((chunks, Inl (''download cache entry: '' @ m)), w)
           | ((chunks, None), w) \<Rightarrow> ((chunks, Inr True), w)))"

definition backend_Exists :: "('w, 'e) actionsCache \<Rightarrow> string \<Rightarrow> 'w \<Rightarrow> (string + bool) \<times> 'w" where
  "backend_Exists C key w =
     (case acLoad C key w of
        (Inl m, w) \<Rightarrow> (Inl (''locate cache entry: '' @ m), w)
      | (Inr entry, w) \<Rightarrow> (Inr (entry \<noteq> None), w))"

text \<open>
  The loop of \<open>Save\<close> after the library has refused: wait, then look for an entry that another job may
  have finished in the meantime. The result says whether there is one.
\<close>

fun awaitEntry :: "('w, 'e) actionsCache \<Rightarrow> string \<Rightarrow> nat list \<Rightarrow> 'w \<Rightarrow> bool \<times> 'w" where
  "awaitEntry C key [] w = (False, w)"
| "awaitEntry C key (delay # delays) w =
     (case acDone C delay w of
        (True, w) \<Rightarrow> (False, w)
      | (False, w) \<Rightarrow>
          (case acLoad C key w of
             (Inr (Some _), w) \<Rightarrow> (True, w)
           | (_, w) \<Rightarrow> awaitEntry C key delays w))"

definition saveDelays :: "nat list" where
  "saveDelays = [100, 300, 1000]"

definition backend_Save ::
    "('w, 'e) actionsCache \<Rightarrow> string \<Rightarrow> bytes \<Rightarrow> int \<Rightarrow> 'w \<Rightarrow> string option \<times> 'w" where
  "backend_Save C key src n w =
     (case acSave C key \<lparr>fbFile = src, fbSize = n\<rparr> w of
        (None, w) \<Rightarrow> (None, w)
      | (Some m, w) \<Rightarrow>
          (case awaitEntry C key saveDelays w of
             (True, w) \<Rightarrow> (None, w)
           | (False, w) \<Rightarrow> (Some (''save cache entry: '' @ m), w)))"

text \<open>
  \<open>NewActionsBackend\<close>: \<open>tried\<close> is what \<open>actionscache.TryEnv\<close> answers, an error, no credentials, or a client
  and whether it speaks the second version of the protocol.
\<close>

definition NewActionsBackend :: "(string \<Rightarrow> string) \<Rightarrow> string + ('cl \<times> bool) option \<Rightarrow> go_error + 'cl" where
  "NewActionsBackend getenv tried =
     (if \<not> equalFold (getenv ''ACTIONS_CACHE_SERVICE_V2'') ''true''
      then Inl (Failure ''ACTIONS_CACHE_SERVICE_V2 must be true; the legacy cache v1 API is unsupported'')
      else if getenv ''ACTIONS_RESULTS_URL'' = [] then Inl (Failure ''ACTIONS_RESULTS_URL is not set'')
      else if getenv ''ACTIONS_RUNTIME_TOKEN'' = [] then Inl (Failure ''ACTIONS_RUNTIME_TOKEN is not set'')
      else case tried of
        Inl m \<Rightarrow> Inl (Failure (''initialize GitHub Actions cache v2: '' @ m))
      | Inr None \<Rightarrow> Inl (Failure ''GitHub Actions cache credentials are unavailable'')
      | Inr (Some (c, isV2)) \<Rightarrow>
          if \<not> isV2 then Inl (Failure ''refusing to use the legacy GitHub Actions cache v1 API'') else Inr c)"

section \<open>The laws of the Actions cache\<close>

text \<open>
  Documented of the service: reading changes nothing; a key that is found has an entry; a save adds an
  entry with the content of the blob under a key that has none, or nothing, and has added it when it
  succeeds. A save is refused when another job holds the key, and may have added the entry although the
  reply is lost.
\<close>

definition actionsCache_laws :: "('w, 'e) actionsCache \<Rightarrow> ('w \<Rightarrow> (string \<times> bytes) set) \<Rightarrow> bool" where
  "actionsCache_laws C contents \<longleftrightarrow>
     (\<forall>key w r w'. acLoad C key w = (r, w') \<longrightarrow> contents w' = contents w \<and>
        (\<forall>entry. r = Inr (Some entry) \<longrightarrow> key \<in> fst ` contents w)) \<and>
     (\<forall>entry w r w'. acWriteTo C entry w = (r, w') \<longrightarrow> contents w' = contents w) \<and>
     (\<forall>delay w r w'. acDone C delay w = (r, w') \<longrightarrow> contents w' = contents w) \<and>
     (\<forall>key blob w r w'. acSave C key blob w = (r, w') \<longrightarrow>
        (contents w' = contents w \<or> key \<notin> fst ` contents w \<and> contents w' = insert (key, blobContent blob) (contents w)) \<and>
        (r = None \<longrightarrow> key \<in> fst ` contents w'))"

lemma lawsD:
  assumes "actionsCache_laws C contents"
  shows "acLoad C key w = (r, w') \<Longrightarrow> contents w' = contents w"
    and "acLoad C key w = (Inr (Some entry), w') \<Longrightarrow> key \<in> fst ` contents w'"
    and "acWriteTo C e w = (q, w') \<Longrightarrow> contents w' = contents w"
    and "acDone C delay w = (b, w') \<Longrightarrow> contents w' = contents w"
    and "acSave C key blob w = (m, w') \<Longrightarrow> contents w' = contents w \<or>
      key \<notin> fst ` contents w \<and> contents w' = insert (key, blobContent blob) (contents w)"
    and "acSave C key blob w = (None, w') \<Longrightarrow> key \<in> fst ` contents w'"
  using assms unfolding actionsCache_laws_def by (elim conjE, metis)+

lemma load_contents:
  "actionsCache_laws C contents \<Longrightarrow> backend_Load C key w = (r, w') \<Longrightarrow> contents w' = contents w"
  by (auto simp: backend_Load_def dest: lawsD(1,3) split: prod.splits sum.splits option.splits)

lemma exists_contents:
  "actionsCache_laws C contents \<Longrightarrow> backend_Exists C key w = (r, w') \<Longrightarrow>
     contents w' = contents w \<and> (r = Inr True \<longrightarrow> key \<in> fst ` contents w')"
  by (auto simp: backend_Exists_def dest: lawsD(1,2) split: prod.splits sum.splits)

lemma awaitEntry_contents:
  "actionsCache_laws C contents \<Longrightarrow> awaitEntry C key delays w = (found, w') \<Longrightarrow>
     contents w' = contents w \<and> (found \<longrightarrow> key \<in> fst ` contents w')"
proof (induction delays arbitrary: w)
  case (Cons delay delays)
  obtain stop w1 where stop: "acDone C delay w = (stop, w1)" by (metis surj_pair)
  obtain r w2 where load: "acLoad C key w1 = (r, w2)" by (metis surj_pair)
  have same: "contents w2 = contents w" "contents w1 = contents w"
    using lawsD(1,4) [OF Cons.prems(1)] stop load by metis+
  show ?case
  proof (cases "stop \<or> (\<exists>entry. r = Inr (Some entry))")
    case True
    then show ?thesis
      using Cons.prems(2) stop load same lawsD(2) [OF Cons.prems(1)] by (auto split: bool.splits)
  next
    case False
    then have "awaitEntry C key delays w2 = (found, w')"
      using Cons.prems(2) stop load by (auto split: sum.splits option.splits)
    with Cons.IH [OF Cons.prems(1)] same show ?thesis by metis
  qed
qed simp

lemma save_contents:
  assumes "actionsCache_laws C contents" and "backend_Save C key src n w = (r, w')"
  shows "(contents w' = contents w \<or> key \<notin> fst ` contents w \<and>
      contents w' = insert (key, blobContent \<lparr>fbFile = src, fbSize = n\<rparr>) (contents w)) \<and>
    (r = None \<longrightarrow> key \<in> fst ` contents w')"
proof -
  let ?blob = "\<lparr>fbFile = src, fbSize = n\<rparr>"
  obtain m w1 where save: "acSave C key ?blob w = (m, w1)" by (metis surj_pair)
  obtain found w2 where await: "awaitEntry C key saveDelays w1 = (found, w2)" by (metis surj_pair)
  have w': "w' = (if m = None then w1 else w2)" and r: "r = None \<longleftrightarrow> m = None \<or> found"
    using assms(2) save await by (auto simp: backend_Save_def split: option.splits bool.splits)
  have w2: "contents w2 = contents w1" "found \<longrightarrow> key \<in> fst ` contents w2"
    using awaitEntry_contents [OF assms(1) await] by auto
  have "m = None \<longrightarrow> key \<in> fst ` contents w1" using lawsD(6) [OF assms(1)] save by blast
  with lawsD(5) [OF assms(1) save] w2 show ?thesis
    unfolding w' r by (auto simp del: image_iff)
qed

section \<open>The backend of the server\<close>

text \<open>The environment of a server whose \<open>Backend\<close> is an \<open>ActionsBackend\<close>.\<close>

definition onActionsCache :: "('w, 'e) actionsCache \<Rightarrow> ('w, 'c) env \<Rightarrow> ('w, 'c) env" where
  "onActionsCache C E = E\<lparr>envExists := backend_Exists C, envLoad := backend_Load C,
     envSave := (\<lambda>key data. backend_Save C key data (int (length data)))\<rparr>"

lemma onActionsCache_fields [simp]:
  "envFault (onActionsCache C E) = envFault E" "envNow (onActionsCache C E) = envNow E"
  "envList (onActionsCache C E) = envList E" "envExists (onActionsCache C E) = backend_Exists C"
  "envLoad (onActionsCache C E) = backend_Load C" "envIpld (onActionsCache C E) = envIpld E"
  "envSave (onActionsCache C E) key data = backend_Save C key data (int (length data))"
  by (simp_all add: onActionsCache_def)

text \<open>
  The rest of the environment leaves the cache alone: disk and clock do, and the catalog only lists.
\<close>

definition sparesCache :: "('w, 'c) env \<Rightarrow> ('w \<Rightarrow> (string \<times> bytes) set) \<Rightarrow> bool" where
  "sparesCache E contents \<longleftrightarrow> (\<forall>w. (\<forall>operation. contents (snd (envFault E operation w)) = contents w) \<and>
     contents (snd (envNow E w)) = contents w \<and>
     (\<forall>keyPrefix n. contents (snd (envList E keyPrefix n w)) = contents w))"

lemma closedReads_onActionsCache:
  assumes "actionsCache_laws C contents" and "sparesCache E contents"
    and "\<And>w w'. contents w' = contents w \<Longrightarrow> P w \<Longrightarrow> P w'"
  shows "closedReads (onActionsCache C E) P"
proof -
  have reads: "contents (snd (backend_Exists C key w)) = contents w" "contents (snd (backend_Load C key w)) = contents w"
    for key w
    using load_contents [OF assms(1) surjective_pairing] exists_contents [OF assms(1) surjective_pairing] by simp_all
  have kept: "P w \<Longrightarrow> P (snd (backend_Exists C key w))" "P w \<Longrightarrow> P (snd (backend_Load C key w))" for key w
    using assms(3) [OF reads(1)] assms(3) [OF reads(2)] by blast+
  show ?thesis
    using assms(2) unfolding closedReads_def sparesCache_def by (auto intro: assms(3) kept)
qed

text \<open>
  C31. The client of the Actions cache refines the backend that the server assumes: under the documented laws
  of the service, \<open>Load\<close>, \<open>Exists\<close> and \<open>Save\<close> of \<open>ActionsBackend\<close> only read, a positive answer of \<open>Exists\<close> means
  that the key has an entry, a save adds the file under its key or nothing, and a save that succeeds, also
  after losing the reservation to a parallel job, leaves an entry under the key.
\<close>

theorem ActionsBackend_refines:
  assumes "actionsCache_laws C contents" and "sparesCache E contents"
  shows "storingBackend (onActionsCache C E) contents \<and>
    honestBackend (onActionsCache C E) (\<lambda>key w. key \<in> fst ` contents w)"
proof -
  note reads = closedReads_onActionsCache [OF assms]
  have "(contents w' = contents w \<or> contents w' = insert (key, data) (contents w)) \<and>
      (r = None \<longrightarrow> key \<in> fst ` contents w')"
    if "envSave (onActionsCache C E) key data w = (r, w')" for key data w r w'
    using save_contents [OF assms(1) that [unfolded onActionsCache_fields]] by auto
  then have "storingBackend (onActionsCache C E) contents"
    unfolding storingBackend_def by (intro conjI allI impI reads) simp_all
  moreover have "honestBackend (onActionsCache C E) (\<lambda>key w. key \<in> fst ` contents w)"
    unfolding honestBackend_def onActionsCache_fields
    using exists_contents [OF assms(1)] by (intro conjI allI impI reads) (assumption | metis)+
  ultimately show ?thesis ..
qed

text \<open>
  The rounds of the loop: \<open>ended k\<close> and \<open>found k\<close> are the answers of the context and of \<open>Load\<close> in round \<open>k\<close>, which
  starts in the world \<open>ws k\<close>.
\<close>

lemma awaitEntry_rounds:
  assumes "\<And>k. k < length delays \<Longrightarrow> acDone C (delays ! k) (ws k) = (ended k, vs k)"
    and "\<And>k. k < length delays \<Longrightarrow> acLoad C key (vs k) = (found k, ws (Suc k))"
  shows "fst (awaitEntry C key delays (ws 0)) \<longleftrightarrow>
    (\<exists>k < length delays. (\<forall>j \<le> k. \<not> ended j) \<and> (\<exists>entry. found k = Inr (Some entry)))"
  using assms
proof (induction delays arbitrary: ws vs ended found)
  case (Cons delay delays)
  have first: "acDone C delay (ws 0) = (ended 0, vs 0)" "acLoad C key (vs 0) = (found 0, ws (Suc 0))"
    using Cons.prems [of 0] by simp_all
  have rest: "fst (awaitEntry C key delays (ws (Suc 0))) \<longleftrightarrow>
      (\<exists>k < length delays. (\<forall>j \<le> k. \<not> ended (Suc j)) \<and> (\<exists>entry. found (Suc k) = Inr (Some entry)))"
    by (rule Cons.IH [of "\<lambda>k. ws (Suc k)" "\<lambda>k. ended (Suc k)" "\<lambda>k. vs (Suc k)" "\<lambda>k. found (Suc k)"])
      (use Cons.prems [of "Suc k" for k] in auto)
  have below: "(\<forall>j \<le> Suc k. Q j) \<longleftrightarrow> Q 0 \<and> (\<forall>j \<le> k. Q (Suc j))" for k and Q :: "nat \<Rightarrow> bool"
    by (metis Suc_le_mono le0 not0_implies_Suc)
  have split: "(\<exists>k < Suc l. (\<forall>j \<le> k. \<not> ended j) \<and> P k) \<longleftrightarrow>
      \<not> ended 0 \<and> (P 0 \<or> (\<exists>k < l. (\<forall>j \<le> k. \<not> ended (Suc j)) \<and> P (Suc k)))" for l and P :: "nat \<Rightarrow> bool"
    unfolding Ex_less_Suc2 below by auto
  show ?case
    unfolding split list.size add_0_right add_Suc_right rest [symmetric]
    by (cases "ended 0"; cases "found 0") (auto simp: first split: option.splits)
qed simp

text \<open>
  C32. A lost race is no error (\<open>Save\<close>): when the library accepts the blob, \<open>Save\<close> succeeds; when it refuses it with
  an error, \<open>Save\<close> waits 100, 300 and 1000 milliseconds, looking for the entry after each wait, and succeeds exactly
  if one of these three lookups finds it and the context has not ended in that wait or an earlier one. In every
  other case, a context that ends and lookups that fail included, it reports the error with which the
  library refused the blob. The premises only give names to the answers of the library and the context.
\<close>

theorem backend_Save_race:
  assumes "acSave C key \<lparr>fbFile = src, fbSize = n\<rparr> w = (saved, ws 0)"
    and "\<And>k. k < 3 \<Longrightarrow> acDone C ([100, 300, 1000] ! k) (ws k) = (ended k, vs k)"
    and "\<And>k. k < 3 \<Longrightarrow> acLoad C key (vs k) = (found k, ws (Suc k))"
  shows "fst (backend_Save C key src n w) =
    (case saved of None \<Rightarrow> None
     | Some m \<Rightarrow>
         if \<exists>k < 3. (\<forall>j \<le> k. \<not> ended j) \<and> (\<exists>entry. found k = Inr (Some entry)) then None
         else Some (''save cache entry: '' @ m))"
proof -
  have length: "length saveDelays = 3" by (simp add: saveDelays_def)
  let ?some = "\<exists>k < 3. (\<forall>j \<le> k. \<not> ended j) \<and> (\<exists>entry. found k = Inr (Some entry))"
  obtain b w' where await: "awaitEntry C key saveDelays (ws 0) = (b, w')" by (metis surj_pair)
  have "fst (awaitEntry C key saveDelays (ws 0)) \<longleftrightarrow>
      (\<exists>k < length saveDelays. (\<forall>j \<le> k. \<not> ended j) \<and> (\<exists>entry. found k = Inr (Some entry)))"
    by (rule awaitEntry_rounds; unfold length) (simp add: saveDelays_def assms(2), rule assms(3))
  then have b: "b = ?some" unfolding length await fst_conv .
  have "fst (backend_Save C key src n w) =
      (case saved of None \<Rightarrow> None | Some m \<Rightarrow> if b then None else Some (''save cache entry: '' @ m))"
    by (simp add: backend_Save_def assms(1) await split: option.split bool.split)
  then show ?thesis unfolding b .
qed

end
