(* ===== verification/Catalog.thy ===== *)
theory Catalog
  imports Prelude
begin

text \<open>
  \<open>catalog.go\<close>: the listing of cache keys over the paged REST API. The HTTP client is a parameter: its
  answer to a request is a status with the decoded body, or an error. The loop over the pages has no
  bound in the code, so it is a partial function whose value \<open>None\<close> means that it never returns.
\<close>

section \<open>URLs and the client\<close>

text \<open>
  The fields of \<open>url.URL\<close> that are used, the query as the map \<open>url.Values\<close>. \<open>url.Parse\<close> is a parameter of
  \<open>NewActionsCatalog\<close>.
\<close>

record url =
  urlScheme :: string
  urlHost :: string
  urlPath :: string
  urlQuery :: "string \<rightharpoonup> string list"

record actionsCatalog =
  acBaseURL :: url
  acRepository :: string
  acToken :: string

text \<open>
  A request carries its URL and its headers. \<open>listed\<close> is what \<open>Decode\<close> makes of the body, an error or the
  keys of \<open>actions_caches\<close>.
\<close>

record listRequest =
  lrURL :: url
  lrHeaders :: "(string \<times> string) list"

record listResponse =
  lpStatus :: nat
  lpListed :: "string + string list"

record 'w restClient =
  rcNewRequest :: "url \<Rightarrow> string + unit"
  rcDo :: "listRequest \<Rightarrow> 'w \<Rightarrow> (string + listResponse) \<times> 'w"

definition values_Set :: "string \<Rightarrow> string \<Rightarrow> (string \<rightharpoonup> string list) \<Rightarrow> (string \<rightharpoonup> string list)" where
  "values_Set key value query = query(key \<mapsto> [value])"

definition trimRight :: "char \<Rightarrow> string \<Rightarrow> string" where
  "trimRight c s = rev (dropWhile (\<lambda>x. x = c) (rev s))"

definition hasSuffix :: "string \<Rightarrow> string \<Rightarrow> bool" where
  "hasSuffix s t \<longleftrightarrow> suffix t s"

section \<open>The constructor\<close>

definition NewActionsCatalog ::
    "(string \<Rightarrow> string) \<Rightarrow> (string \<Rightarrow> string + url) \<Rightarrow> go_error + actionsCatalog" where
  "NewActionsCatalog getenv parse =
     (let repository = getenv ''GITHUB_REPOSITORY'' in
      if length (splitAt (CHR ''/'') repository) \<noteq> 2 \<or> prefix ''/'' repository \<or> hasSuffix repository ''/''
      then Inl (Failure ''GITHUB_REPOSITORY must be owner/repository for packed-cache manifest discovery'')
      else let token = getenv ''GITHUB_TOKEN'' in
      if token = [] then Inl (Failure ''GITHUB_TOKEN is required for packed-cache manifest discovery'')
      else let text = (if getenv ''GITHUB_API_URL'' = [] then ''https://api.github.com'' else getenv ''GITHUB_API_URL'') in
      case parse text of
        Inl m \<Rightarrow> Inl (Failure (''invalid GITHUB_API_URL: '' @ m))
      | Inr base \<Rightarrow>
          if urlScheme base = [] \<or> urlHost base = [] then Inl (Failure ''invalid GITHUB_API_URL: %!w(<nil>)'')
          else Inr \<lparr>acBaseURL = base, acRepository = repository, acToken = token\<rparr>)"

section \<open>The listing\<close>

definition pageRequest :: "actionsCatalog \<Rightarrow> string \<Rightarrow> nat \<Rightarrow> listRequest" where
  "pageRequest c keyPrefix page =
     (let endpoint = acBaseURL c in
      \<lparr>lrURL = endpoint\<lparr>
         urlPath := trimRight (CHR ''/'') (urlPath endpoint) @ ''/repos/'' @ acRepository c @ ''/actions/caches'',
         urlQuery := values_Set ''page'' (decimal page) (values_Set ''per_page'' ''100''
           (values_Set ''key'' keyPrefix (urlQuery endpoint)))\<rparr>,
       lrHeaders = [(''Accept'', ''application/vnd.github+json''), (''Authorization'', ''Bearer '' @ acToken c),
         (''X-GitHub-Api-Version'', ''2022-11-28'')]\<rparr>)"

definition limitExceeded :: "int \<Rightarrow> go_error" where
  "limitExceeded limit =
     Failure (''manifest catalog exceeds configured limit of '' @ decimal (nat limit) @ '' entries'')"

text \<open>The loop over the entries of a page.\<close>

fun collectKeys :: "string \<Rightarrow> int \<Rightarrow> string list \<Rightarrow> string list \<Rightarrow> go_error + string list" where
  "collectKeys keyPrefix limit [] keys = Inr keys"
| "collectKeys keyPrefix limit (key # entries) keys =
     (if prefix keyPrefix key then
        if int (length (keys @ [key])) > limit
        then Inl (limitExceeded limit)
        else collectKeys keyPrefix limit entries (keys @ [key])
      else collectKeys keyPrefix limit entries keys)"

text \<open>One page: the keys so far with those of the page, and whether there may be another page.\<close>

definition listPage ::
    "'w restClient \<Rightarrow> actionsCatalog \<Rightarrow> string \<Rightarrow> int \<Rightarrow> nat \<Rightarrow> string list \<Rightarrow> 'w \<Rightarrow> (go_error + string list \<times> bool) \<times> 'w" where
  "listPage C c keyPrefix limit page keys w =
     (let request = pageRequest c keyPrefix page in
      case rcNewRequest C (lrURL request) of
        Inl m \<Rightarrow> (Inl (Failure (''create cache catalog request: '' @ m)), w)
      | Inr _ \<Rightarrow>
          (case rcDo C request w of
             (Inl m, w) \<Rightarrow> (Inl (Failure (''list GitHub Actions caches: '' @ m)), w)
           | (Inr response, w) \<Rightarrow>
               (if lpStatus response \<noteq> 200
                then Inl (Failure (''list GitHub Actions caches: HTTP '' @ decimal (lpStatus response)))
                else case lpListed response of
                  Inl m \<Rightarrow> Inl (Failure (''decode GitHub Actions cache list: '' @ m))
                | Inr entries \<Rightarrow>
                    (case collectKeys keyPrefix limit entries keys of
                       Inl e \<Rightarrow> Inl e
                     | Inr keys \<Rightarrow> Inr (keys, length entries \<ge> 100)), w)))"

partial_function (option) listPages ::
    "'w restClient \<Rightarrow> actionsCatalog \<Rightarrow> string \<Rightarrow> int \<Rightarrow> nat \<Rightarrow> string list \<Rightarrow> 'w \<Rightarrow> ((go_error + string list) \<times> 'w) option" where
  "listPages C c keyPrefix limit page keys w =
     (case listPage C c keyPrefix limit page keys w of
        (Inl e, w') \<Rightarrow> Some (Inl e, w')
      | (Inr (keys', again), w') \<Rightarrow>
          if \<not> again then Some (Inr keys', w') else listPages C c keyPrefix limit (page + 1) keys' w')"

definition catalog_List ::
    "'w restClient \<Rightarrow> actionsCatalog \<Rightarrow> string \<Rightarrow> int \<Rightarrow> 'w \<Rightarrow> ((go_error + string list) \<times> 'w) option" where
  "catalog_List C c keyPrefix limit w =
     (if limit \<le> 0 then Some (Inl (Failure ''catalog list limit must be positive''), w)
      else listPages C c keyPrefix limit 1 [] w)"

section \<open>The entries of a page\<close>

lemma collectKeys_filter:
  "int (length keys) \<le> limit \<Longrightarrow> collectKeys keyPrefix limit entries keys =
     (if int (length (keys @ filter (prefix keyPrefix) entries)) \<le> limit
      then Inr (keys @ filter (prefix keyPrefix) entries)
      else Inl (limitExceeded limit))"
  by (induction entries arbitrary: keys) auto

lemma listPage_Inr:
  assumes "listPage C c keyPrefix limit page keys w = (Inr (keys', again), w')" and "int (length keys) \<le> limit"
  shows "\<exists>response entries. rcDo C (pageRequest c keyPrefix page) w = (Inr response, w') \<and>
    lpStatus response = 200 \<and> lpListed response = Inr entries \<and> keys' = keys @ filter (prefix keyPrefix) entries \<and>
    int (length keys') \<le> limit \<and> (again \<longleftrightarrow> length entries \<ge> 100)"
  using assms by (auto simp: listPage_def Let_def collectKeys_filter split: prod.splits sum.splits if_splits)

section \<open>Whatever the service answers\<close>

lemma listPages_sound:
  assumes "listPages C c keyPrefix limit page keys w = Some (r, w')" and "int (length keys) \<le> limit"
    and "\<forall>key \<in> set keys. prefix keyPrefix key" and "r = Inr found"
  shows "int (length found) \<le> limit \<and> (\<forall>key \<in> set found. prefix keyPrefix key)"
proof -
  have "int (length keys) \<le> limit \<longrightarrow> (\<forall>key \<in> set keys. prefix keyPrefix key) \<longrightarrow>
      (\<forall>found. fst result = Inr found \<longrightarrow> int (length found) \<le> limit \<and> (\<forall>key \<in> set found. prefix keyPrefix key))"
    if "listPages C c keyPrefix limit page keys w = Some result" for result
  proof (rule listPages.raw_induct [where P = "\<lambda>C c keyPrefix limit page keys w result.
      int (length keys) \<le> limit \<longrightarrow> (\<forall>key \<in> set keys. prefix keyPrefix key) \<longrightarrow>
      (\<forall>found. fst result = Inr found \<longrightarrow> int (length found) \<le> limit \<and> (\<forall>key \<in> set found. prefix keyPrefix key))",
      OF _ that], goal_cases)
    case (1 loop C c keyPrefix limit page keys w result)
    obtain r1 w1 where page: "listPage C c keyPrefix limit page keys w = (r1, w1)" by (metis surj_pair)
    show ?case
    proof (intro impI)
      assume few: "int (length keys) \<le> limit" and match: "\<forall>key \<in> set keys. prefix keyPrefix key"
      show "\<forall>found. fst result = Inr found \<longrightarrow> int (length found) \<le> limit \<and> (\<forall>key \<in> set found. prefix keyPrefix key)"
      proof (cases r1)
        case (Inl e)
        with 1(2) page show ?thesis by auto
      next
        case (Inr p)
        then obtain keys' again where p: "r1 = Inr (keys', again)" by (metis surj_pair)
        from listPage_Inr [OF page [unfolded p] few] match
        have keys': "int (length keys') \<le> limit" "\<forall>key \<in> set keys'. prefix keyPrefix key" by auto
        show ?thesis
        proof (cases again)
          case True
          with 1(2) page p have "loop C c keyPrefix limit (page + 1) keys' w1 = Some result" by simp
          from 1(1) [OF this] keys' show ?thesis by blast
        next
          case False
          with 1(2) page p keys' show ?thesis by auto
        qed
      qed
    qed
  qed
  with assms show ?thesis by fastforce
qed

section \<open>Returning\<close>

text \<open>
  The service is asked for the keys with the prefix, so a full page should list one at least; then every page
  but the last brings the listing nearer to its limit.
\<close>

definition filtersKeys :: "'w restClient \<Rightarrow> actionsCatalog \<Rightarrow> string \<Rightarrow> bool" where
  "filtersKeys C c keyPrefix \<longleftrightarrow> (\<forall>page w response w' entries.
     rcDo C (pageRequest c keyPrefix page) w = (Inr response, w') \<longrightarrow> lpListed response = Inr entries \<longrightarrow>
     length entries \<ge> 100 \<longrightarrow> (\<exists>key \<in> set entries. prefix keyPrefix key))"

lemma listPages_returns:
  assumes "filtersKeys C c keyPrefix" and "int (length keys) \<le> limit"
  shows "\<exists>result. listPages C c keyPrefix limit page keys w = Some result"
  using assms(2)
proof (induction "nat limit - length keys" arbitrary: keys page w rule: less_induct)
  case less
  obtain r1 w1 where page: "listPage C c keyPrefix limit page keys w = (r1, w1)" by (metis surj_pair)
  show ?case
  proof (cases "\<exists>keys'. r1 = Inr (keys', True)")
    case True
    then obtain keys' where r1: "r1 = Inr (keys', True)" by blast
    from listPage_Inr [OF page [unfolded r1] less.prems] obtain response entries where
      answer: "rcDo C (pageRequest c keyPrefix page) w = (Inr response, w1)" "lpListed response = Inr entries"
      and keys': "keys' = keys @ filter (prefix keyPrefix) entries" "int (length keys') \<le> limit"
      and full: "length entries \<ge> 100" by auto
    have "\<exists>key \<in> set entries. prefix keyPrefix key"
      using assms(1) answer full unfolding filtersKeys_def by blast
    then have "filter (prefix keyPrefix) entries \<noteq> []" by (simp add: filter_empty_conv)
    then have "length keys < length keys'" using keys'(1) by simp
    with keys'(2) have "nat limit - length keys' < nat limit - length keys" by linarith
    from less.hyps [OF this keys'(2)] show ?thesis
      by (subst listPages.simps) (simp add: page r1)
  next
    case False
    then show ?thesis
      by (subst listPages.simps) (auto simp: page split: sum.split)
  qed
qed

text \<open>
  C33. Listing the manifests always ends (\<open>List\<close>): as long as a full page of the service has a key with the
  prefix it was asked for, the loop over the pages returns whatever else the service answers, with an error or
  with at most \<open>limit\<close> keys, all of which have the prefix.
\<close>

theorem catalog_List_returns:
  assumes "filtersKeys C c keyPrefix"
  shows "\<exists>r w'. catalog_List C c keyPrefix limit w = Some (r, w') \<and>
    (\<forall>keys. r = Inr keys \<longrightarrow> int (length keys) \<le> limit \<and> (\<forall>key \<in> set keys. prefix keyPrefix key))"
proof (cases "limit \<le> 0")
  case True
  then show ?thesis by (simp add: catalog_List_def)
next
  case False
  then have start: "int (length ([] :: string list)) \<le> limit" by simp
  obtain r w' where run: "listPages C c keyPrefix limit 1 [] w = Some (r, w')"
    using listPages_returns [OF assms start, of 1 w] by (metis surj_pair)
  then show ?thesis
    using listPages_sound [OF run start] False by (simp add: catalog_List_def)
qed

section \<open>A paged listing\<close>

text \<open>
  A service that answers page \<open>k\<close> with the \<open>k\<close>-th hundred of a list of keys, up to the first page that is not
  full.
\<close>

definition pagesOf :: "'w restClient \<Rightarrow> actionsCatalog \<Rightarrow> string \<Rightarrow> string list \<Rightarrow> bool" where
  "pagesOf C c keyPrefix listing \<longleftrightarrow> (\<forall>page w. page > 0 \<longrightarrow> 100 * (page - 1) \<le> length listing \<longrightarrow>
     rcNewRequest C (lrURL (pageRequest c keyPrefix page)) = Inr () \<and>
     rcDo C (pageRequest c keyPrefix page) w =
       (Inr \<lparr>lpStatus = 200, lpListed = Inr (take 100 (drop (100 * (page - 1)) listing))\<rparr>, w))"

lemma listPages_pagesOf:
  assumes pages: "pagesOf C c keyPrefix listing" and "page > 0" and "100 * (page - 1) \<le> length listing"
    and "keys = filter (prefix keyPrefix) (take (100 * (page - 1)) listing)" and "int (length keys) \<le> limit"
  shows "listPages C c keyPrefix limit page keys w =
    Some (if int (length (filter (prefix keyPrefix) listing)) \<le> limit
          then Inr (filter (prefix keyPrefix) listing) else Inl (limitExceeded limit), w)"
  using assms(2-)
proof (induction "length listing - 100 * (page - 1)" arbitrary: keys page rule: less_induct)
  case less
  define now where "now = take 100 (drop (100 * (page - 1)) listing)"
  define keys' where "keys' = keys @ filter (prefix keyPrefix) now"
  have upto: "take (100 * (page - 1)) listing @ now = take (100 * page) listing"
    using less.prems(1) take_add [of "100 * (page - 1)" 100 listing]
    by (cases page) (simp_all add: now_def add.commute)
  then have keys'_upto: "keys' = filter (prefix keyPrefix) (take (100 * page) listing)"
    unfolding keys'_def less.prems(3) by (metis filter_append)
  have whole: "filter (prefix keyPrefix) listing = keys' @ filter (prefix keyPrefix) (drop (100 * page) listing)"
    unfolding keys'_upto by (metis append_take_drop_id filter_append)
  have page: "listPage C c keyPrefix limit page keys w =
      (if int (length keys') \<le> limit then Inr (keys', length now \<ge> 100) else Inl (limitExceeded limit), w)"
    using pages less.prems
    by (simp add: listPage_def Let_def pagesOf_def collectKeys_filter keys'_def now_def)
  show ?case
  proof (cases "int (length keys') \<le> limit \<and> length now \<ge> 100")
    case True
    then have "length listing - 100 * (page + 1 - 1) < length listing - 100 * (page - 1)"
      using less.prems(1) by (cases page) (auto simp: now_def)
    moreover have "100 * (page + 1 - 1) \<le> length listing" using True less.prems(1) by (cases page) (auto simp: now_def)
    ultimately show ?thesis
      using less.hyps [of "page + 1" keys'] True keys'_upto
      by (subst listPages.simps) (simp add: page)
  next
    case False
    have "filter (prefix keyPrefix) listing = keys'" if "length now < 100"
    proof -
      from that have "length listing \<le> 100 * page" using less.prems(1) by (simp add: now_def)
      then show ?thesis using whole by simp
    qed
    with False whole show ?thesis by (subst listPages.simps) (auto simp: page)
  qed
qed

text \<open>
  C34. No page is lost (\<open>List\<close>): over a service that serves a list of keys in pages of a hundred, the listing
  is exactly the keys with the prefix, in the order of the service, or the error about the limit when there
  are more of them than it allows; it is never cut short.
\<close>

theorem catalog_List_complete:
  assumes "pagesOf C c keyPrefix listing" and "0 < limit"
  shows "catalog_List C c keyPrefix limit w =
    Some (if int (length (filter (prefix keyPrefix) listing)) \<le> limit
          then Inr (filter (prefix keyPrefix) listing) else Inl (limitExceeded limit), w)"
  using listPages_pagesOf [OF assms(1), of 1 "[]" limit w] assms(2) by (simp add: catalog_List_def)

end
