(* ===== verification/Command.thy ===== *)
theory Command
  imports System Backend Catalog
begin

text \<open>
  The process: \<open>run\<close> of \<open>cmd/cache-server/main.go\<close>, with \<open>SafeCacheDir\<close> and \<open>WriteStatsFile\<close> of \<open>server.go\<close>. The
  answers of the operating system, of \<open>net\<close> and of the client library are parameters (\<open>host\<close>); what the
  process does to the outside is a list of effects, so that the order of the deferred calls and of the
  shutdown is part of the model. Not modelled are the timeouts of \<open>http.Server\<close>, the log, and the channel that
  carries a request to shut down, whose arrival is an answer of the host.
\<close>

section \<open>Flags\<close>

text \<open>The values that \<open>flag.Parse\<close> leaves; durations are in nanoseconds.\<close>

record flags =
  flPort :: int
  flCacheDir :: string
  flKeyPrefix :: string
  flStorageMode :: string
  flPackSize :: int
  flPackFlush :: int
  flMaxManifests :: int
  flWriteEnabled :: bool
  flFailOpen :: bool
  flMaxBlobSize :: int
  flMaxConcurrent :: int
  flUploadsPerMinute :: int
  flBackendTimeout :: int
  flReadyFile :: string
  flStatsFile :: string
  flShowVersion :: bool

definition flagDefaults :: flags where
  "flagDefaults =
     \<lparr>flPort = 0, flCacheDir = [], flKeyPrefix = ''bazel-http-v1'', flStorageMode = ''objects'',
      flPackSize = 8 * 1024 * 1024, flPackFlush = 30 * 1000000000, flMaxManifests = 2048, flWriteEnabled = False,
      flFailOpen = True, flMaxBlobSize = 512 * 1024 * 1024, flMaxConcurrent = 4, flUploadsPerMinute = 180,
      flBackendTimeout = 5 * 60 * 1000000000, flReadyFile = [], flStatsFile = [], flShowVersion = False\<rparr>"

section \<open>The host\<close>

text \<open>The case of the last \<open>select\<close>: a signal, a request to shut down, or the end of \<open>Serve\<close>.\<close>

datatype stopReason = Signal | ShutdownRequested | ServeEnded "string option"

text \<open>
  \<open>hoEnv\<close> is the environment of a server with this client of the Actions cache and this catalog. File
  operations answer with an error or not; their content is in the effect.
\<close>

record ('w, 'c, 'cl) host =
  hoVersion :: string
  hoPID :: nat
  hoGetenv :: "string \<Rightarrow> string"
  hoAbs :: "string \<Rightarrow> string + string"
  hoMkdirTemp :: "string + string"
  hoTryEnv :: "string + ('cl \<times> bool) option"
  hoListen :: "int \<Rightarrow> string + nat"
  hoParseURL :: "string \<Rightarrow> string + url"
  hoEnv :: "'cl \<Rightarrow> actionsCatalog option \<Rightarrow> ('w, 'c) env"
  hoWriteFile :: "string \<Rightarrow> string option"
  hoRename :: "string \<Rightarrow> string option"
  hoStop :: stopReason
  hoShutdown :: "string option"

datatype effect =
    Printed string
  | MadeDir string
  | Listening nat
  | Unset string
  | Serving
  | Wrote string bytes
  | Renamed string string
  | ServerShutdown
  | ServerClosed
  | Flushed bool
  | SignalsStopped
  | ListenerClosed
  | Removed string

record 'w process =
  prEffects :: "effect list"
  prServer :: "'w server option"
  prWorld :: 'w

definition emit :: "effect \<Rightarrow> 'w process \<Rightarrow> 'w process" where
  "emit e p = p\<lparr>prEffects := prEffects p @ [e]\<rparr>"

text \<open>A \<open>defer\<close>: the effect comes last, whatever the rest of the function returns.\<close>

definition deferring :: "effect \<Rightarrow> ('w process, 'r) comp \<Rightarrow> ('w process, 'r) comp" where
  "deferring e m = andThen m (\<lambda>r. updating (emit e) (returning r))"

definition lifted :: "go_error + 'a \<Rightarrow> ('w process, 'a) io" where
  "lifted r = (\<lambda>p. (r, p))"

definition labelled :: "string \<Rightarrow> string + 'a \<Rightarrow> go_error + 'a" where
  "labelled what r = (case r of Inl m \<Rightarrow> Inl (Failure (what @ m)) | Inr x \<Rightarrow> Inr x)"

section \<open>Helpers of the server package\<close>

definition SafeCacheDir :: "('w, 'c, 'cl) host \<Rightarrow> string \<Rightarrow> ('w process, string) io" where
  "SafeCacheDir H base =
     (if base \<noteq> [] then lifted (labelled [] (hoAbs H base))
      else attempt (lifted (labelled [] (hoMkdirTemp H))) (\<lambda>dir. updating (emit (MadeDir dir)) (ok dir)))"

definition jsonString :: "string \<Rightarrow> string" where
  "jsonString s = CHR 34 # s @ [CHR 34]"

text \<open>\<open>json.MarshalIndent\<close> of the statistics with two spaces, and the new line.\<close>

definition Stats_JSONIndent :: "(string \<times> 64 word) list \<Rightarrow> bytes" where
  "Stats_JSONIndent st =
     (let field = (\<lambda>(name, n). CHR 10 # ''  '' @ jsonString name @ '': '' @ decimal (unat n)) in
      bytesOfString (''{'' @
        concat (case map field st of [] \<Rightarrow> [] | f # others \<Rightarrow> f # map (\<lambda>f. CHR '','' # f) others) @ [CHR 10] @ ''}'' @ [CHR 10]))"

definition writeProcessFile :: "('w, 'c, 'cl) host \<Rightarrow> string \<Rightarrow> bytes \<Rightarrow> ('w process, unit) io" where
  "writeProcessFile H path data =
     (case hoWriteFile H path of Some m \<Rightarrow> fail (Failure m) | None \<Rightarrow> updating (emit (Wrote path data)) (ok ()))"

definition WriteStatsFile :: "('w, 'c, 'cl) host \<Rightarrow> string \<Rightarrow> (string \<times> 64 word) list \<Rightarrow> ('w process, unit) io" where
  "WriteStatsFile H path st =
     (if path = [] then ok ()
      else let tmp = path @ ''.tmp'' in
        attempt (writeProcessFile H tmp (Stats_JSONIndent st)) (\<lambda>_.
        case hoRename H tmp of Some m \<Rightarrow> fail (Failure m) | None \<Rightarrow> updating (emit (Renamed tmp path)) (ok ())))"

section \<open>The life of the process\<close>

text \<open>What happens to the server while the process waits: requests, rounds of the flush worker, and other jobs.\<close>

datatype 'w event = Arrival request | Round | Others 'w

fun session :: "('w, 'c) env \<Rightarrow> 'w event list \<Rightarrow> 'w server \<Rightarrow> 'w server" where
  "session E [] s = s"
| "session E (Arrival r # events) s = session E events (snd (serveHTTP E r s))"
| "session E (Round # events) s = session E events (if packs s = None then s else snd (flushTick E s))"
| "session E (Others w # events) s = session E events (s\<lparr>world := w\<rparr>)"

definition serverConfig :: "('w, 'c, 'cl) host \<Rightarrow> flags \<Rightarrow> string \<Rightarrow> bool \<Rightarrow> config" where
  "serverConfig H fl dir catalog =
     \<lparr>cfgBackend = True, cfgCatalog = catalog, cfgCacheDir = dir, cfgKeyPrefix = flKeyPrefix fl,
      cfgStorageMode = flStorageMode fl, cfgPackSize = flPackSize fl, cfgPackFlushInterval = flPackFlush fl,
      cfgMaxManifests = flMaxManifests fl, cfgWriteEnabled = flWriteEnabled fl, cfgFailOpen = flFailOpen fl,
      cfgMaxBlobSize = flMaxBlobSize fl, cfgMaxConcurrent = flMaxConcurrent fl,
      cfgUploadsPerMinute = flUploadsPerMinute fl, cfgBackendTimeout = flBackendTimeout fl,
      cfgShutdownToken = hoGetenv H ''BAZEL_GHA_CACHE_SHUTDOWN_TOKEN'', cfgShutdown = True\<rparr>"

definition openCatalog :: "('w, 'c, 'cl) host \<Rightarrow> flags \<Rightarrow> ('w process, actionsCatalog option) io" where
  "openCatalog H fl =
     (if flStorageMode fl = ''packs''
      then attempt (lifted (NewActionsCatalog (hoGetenv H) (hoParseURL H))) (\<lambda>c. ok (Some c))
      else ok None)"

definition startServer :: "('w, 'c) env \<Rightarrow> config \<Rightarrow> ('w process, unit) io" where
  "startServer E c =
     (\<lambda>p. case New E c (prWorld p) of Inl e \<Rightarrow> (Inl e, p) | Inr s \<Rightarrow> (Inr (), p\<lparr>prServer := Some s\<rparr>))"

definition baseURL :: "nat \<Rightarrow> string" where
  "baseURL port = ''http://127.0.0.1:'' @ decimal port"

text \<open>\<open>json.Marshal\<close> of \<open>readyInfo\<close>; its strings need no escapes.\<close>

definition readyInfo :: "('w, 'c, 'cl) host \<Rightarrow> nat \<Rightarrow> bytes" where
  "readyInfo H port = bytesOfString (''{'' @ jsonString ''url'' @ '':'' @ jsonString (baseURL port) @ '','' @
     jsonString ''stats_url'' @ '':'' @ jsonString (baseURL port @ ''/stats'') @ '','' @
     jsonString ''pid'' @ '':'' @ decimal (hoPID H) @ '','' @
     jsonString ''version'' @ '':'' @ jsonString (hoVersion H) @ ''}'' @ [CHR 10])"

text \<open>After the \<open>select\<close>: stop serving, flush, and write the statistics; their errors are only logged.\<close>

definition closeServer :: "('w, 'c) env \<Rightarrow> ('w process, counters) comp" where
  "closeServer E =
     (\<lambda>p. case prServer p of None \<Rightarrow> (counters0, p)
      | Some s \<Rightarrow> (case server_Close E s of (r, s') \<Rightarrow>
          (stats s', emit (Flushed (r = Inr ())) (p\<lparr>prServer := Some s'\<rparr>))))"

definition shutdownSequence :: "('w, 'c, 'cl) host \<Rightarrow> ('w, 'c) env \<Rightarrow> flags \<Rightarrow> ('w process, unit) io" where
  "shutdownSequence H E fl =
     updating (emit ServerShutdown) (
     updating (if hoShutdown H \<noteq> None then emit ServerClosed else id) (
     andThen (closeServer E) (\<lambda>st.
     andThen (WriteStatsFile H (flStatsFile fl) (counters_snapshot st)) (\<lambda>_. ok ()))))"

definition serve :: "('w, 'c, 'cl) host \<Rightarrow> ('w, 'c) env \<Rightarrow> flags \<Rightarrow> nat \<Rightarrow> 'w event list \<Rightarrow> ('w process, unit) io" where
  "serve H E fl port events =
     updating (emit (Unset ''BAZEL_GHA_CACHE_SHUTDOWN_TOKEN'')) (
     updating (emit Serving) (
     andThen (writeProcessFile H (flReadyFile fl) (readyInfo H port)) (\<lambda>written.
     case written of Inl e \<Rightarrow> fail (Failure (''write ready file: '' @ errorText e))
     | Inr _ \<Rightarrow>
       deferring SignalsStopped (
       updating (\<lambda>p. p\<lparr>prServer := map_option (session E events) (prServer p)\<rparr>) (
       case hoStop H of
         ServeEnded (Some m) \<Rightarrow> fail (Failure (''serve: '' @ m))
       | _ \<Rightarrow> shutdownSequence H E fl)))))"

text \<open>The rest of \<open>run\<close> once it listens, and once it has a spool directory.\<close>

definition onListener ::
    "('w, 'c, 'cl) host \<Rightarrow> flags \<Rightarrow> 'w event list \<Rightarrow> string \<Rightarrow> 'cl \<Rightarrow> nat \<Rightarrow> ('w process, unit) io" where
  "onListener H fl events dir client port =
     attempt (openCatalog H fl) (\<lambda>catalog.
     attempt (startServer (hoEnv H client catalog) (serverConfig H fl dir (catalog \<noteq> None))) (\<lambda>_.
     serve H (hoEnv H client catalog) fl port events))"

definition withSpool ::
    "('w, 'c, 'cl) host \<Rightarrow> flags \<Rightarrow> 'w event list \<Rightarrow> string \<Rightarrow> ('w process, unit) io" where
  "withSpool H fl events dir =
     attempt (lifted (NewActionsBackend (hoGetenv H) (hoTryEnv H))) (\<lambda>client.
     attempt (lifted (labelled ''listen on loopback: '' (hoListen H (flPort fl)))) (\<lambda>port.
     updating (emit (Listening port)) (
     deferring ListenerClosed (onListener H fl events dir client port))))"

definition run :: "('w, 'c, 'cl) host \<Rightarrow> flags \<Rightarrow> 'w event list \<Rightarrow> ('w process, unit) io" where
  "run H fl events =
     (if flShowVersion fl then updating (emit (Printed (hoVersion H))) (ok ())
      else if flReadyFile fl = [] then fail (Failure ''--ready-file is required'')
      else andThen (SafeCacheDir H (flCacheDir fl)) (\<lambda>made.
      case made of Inl e \<Rightarrow> fail (Failure (''prepare spool directory: '' @ errorText e))
      | Inr dir \<Rightarrow> deferring (Removed dir) (withSpool H fl events dir)))"

definition started :: "'w \<Rightarrow> 'w process" where
  "started w = \<lparr>prEffects = [], prServer = None, prWorld = w\<rparr>"

text \<open>The exit status of the process.\<close>

definition exitStatus :: "('w, 'c, 'cl) host \<Rightarrow> flags \<Rightarrow> 'w event list \<Rightarrow> 'w \<Rightarrow> nat" where
  "exitStatus H fl events w = (case fst (run H fl events (started w)) of Inl e \<Rightarrow> 1 | Inr _ \<Rightarrow> 0)"

section \<open>How the process ends\<close>

lemma deferring_run: "deferring e m p = (r, p') \<longleftrightarrow> (\<exists>p1. m p = (r, p1) \<and> p' = emit e p1)"
  by (auto simp: deferring_def andThen_def split: prod.split)

lemma lifted_run: "lifted r p = (r', p') \<longleftrightarrow> r' = r \<and> p' = p"
  by (auto simp: lifted_def)

lemma emit_fields [simp]:
  "prEffects (emit e p) = prEffects p @ [e]" "prServer (emit e p) = prServer p" "prWorld (emit e p) = prWorld p"
  by (simp_all add: emit_def)

lemma session_inv: "systemInv s \<Longrightarrow> systemInv (session E events s) \<and> cfg (session E events s) = cfg s"
proof (induction events arbitrary: s)
  case (Cons event events)
  have kept: "systemInv s' \<and> cfg s' = cfg s" if "step E (\<lambda>_ _. True) s s'" for s' using step_systemInv [OF that Cons.prems] .
  show ?case
  proof (cases event)
    case (Arrival r)
    have "step E (\<lambda>_ _. True) s (snd (serveHTTP E r s))" by (rule request [OF prod.collapse [symmetric]])
    with Arrival Cons.IH kept show ?thesis by simp
  next
    case Round
    have "step E (\<lambda>_ _. True) s (snd (flushTick E s))" if "packs s \<noteq> None"
      by (rule tick [OF that prod.collapse [symmetric]])
    with Round Cons kept show ?thesis by auto
  next
    case (Others w)
    have "step E (\<lambda>_ _. True) s (s\<lparr>world := w\<rparr>)" by (rule others) simp
    with Others Cons.IH kept show ?thesis by simp
  qed
qed simp

lemmas session_systemInv = session_inv [THEN conjunct1] and session_cfg = session_inv [THEN conjunct2]

text \<open>The statistics are written over a temporary file.\<close>

definition statsEffects :: "('w, 'c, 'cl) host \<Rightarrow> string \<Rightarrow> counters \<Rightarrow> effect list" where
  "statsEffects H path st =
     (let tmp = path @ ''.tmp'' in
      if path = [] \<or> hoWriteFile H tmp \<noteq> None then []
      else Wrote tmp (Stats_JSONIndent (counters_snapshot st)) # (if hoRename H tmp = None then [Renamed tmp path] else []))"

lemma WriteStatsFile_run:
  "snd (WriteStatsFile H path (counters_snapshot st) p) = p\<lparr>prEffects := prEffects p @ statsEffects H path st\<rparr>"
  by (auto simp: WriteStatsFile_def statsEffects_def writeProcessFile_def Let_def attempt_def andThen_def emit_def
      split: option.split)

lemma shutdownSequence_run:
  assumes "prServer p = Some s" and "server_Close E s = (r, s')"
  shows "shutdownSequence H E fl p = (Inr (), p\<lparr>prServer := Some s', prEffects := prEffects p @ ServerShutdown #
    (if hoShutdown H \<noteq> None then [ServerClosed] else []) @ Flushed (r = Inr ()) # statsEffects H (flStatsFile fl) (stats s')\<rparr>)"
  using assms
  by (cases "hoShutdown H")
    (simp_all add: shutdownSequence_def andThen_def closeServer_def case_prod_beta WriteStatsFile_run emit_def)

text \<open>What a process does from the start of the server to its end, when the ready file could be written.\<close>

lemma serve_run:
  assumes "serve H E fl port events p = (Inr (), p')" and "prServer p = Some s"
  shows "\<exists>r s'. server_Close E (session E events s) = (r, s') \<and> prServer p' = Some s' \<and>
    prEffects p' = prEffects p @ [Unset ''BAZEL_GHA_CACHE_SHUTDOWN_TOKEN'', Serving,
      Wrote (flReadyFile fl) (readyInfo H port), ServerShutdown] @
      (if hoShutdown H \<noteq> None then [ServerClosed] else []) @
      Flushed (r = Inr ()) # statsEffects H (flStatsFile fl) (stats s') @ [SignalsStopped]"
proof -
  obtain r s' where close: "server_Close E (session E events s) = (r, s')" by (metis surj_pair)
  define p1 where "p1 = emit (Wrote (flReadyFile fl) (readyInfo H port)) (emit Serving (emit (Unset ''BAZEL_GHA_CACHE_SHUTDOWN_TOKEN'') p))"
  let ?p2 = "p1\<lparr>prServer := map_option (session E events) (prServer p1)\<rparr>"
  have p2: "prServer ?p2 = Some (session E events s)"
    "prEffects ?p2 = prEffects p @ [Unset ''BAZEL_GHA_CACHE_SHUTDOWN_TOKEN'', Serving, Wrote (flReadyFile fl) (readyInfo H port)]"
    using assms(2) by (simp_all add: p1_def)
  have ready: "hoWriteFile H (flReadyFile fl) = None"
    using assms(1) by (auto simp: serve_def writeProcessFile_def andThen_def split: option.splits)
  with assms(1) obtain p3 where p': "p' = emit SignalsStopped p3"
    and rest: "(case hoStop H of ServeEnded (Some m) \<Rightarrow> fail (Failure (''serve: '' @ m)) | _ \<Rightarrow> shutdownSequence H E fl) ?p2 = (Inr (), p3)"
    by (auto simp: serve_def writeProcessFile_def andThen_iff deferring_run p1_def)
  then have "shutdownSequence H E fl ?p2 = (Inr (), p3)"
    by (auto split: stopReason.splits option.splits)
  with shutdownSequence_run [OF p2(1) close, of H fl] close p' p2(2) show ?thesis by auto
qed

text \<open>The flush of \<open>Close\<close> after any session.\<close>

lemma closed_flush:
  assumes "New E (serverConfig H fl dir (flStorageMode fl = ''packs'')) w = Inr s"
    and "server_Close E (session E events s) = (r, s')"
  shows "r = Inr () \<longrightarrow> (case packs s' of None \<Rightarrow> flStorageMode fl \<noteq> ''packs'' | Some q \<Rightarrow> psPendingCAS q = Map.empty)"
proof
  assume r: "r = Inr ()"
  have start: "systemInv s" "cfgStorageMode (cfg s) = (if flStorageMode fl = [] then ''objects'' else flStorageMode fl)"
    using New_start [OF assms(1)] by (auto simp: serverConfig_def)
  have inv: "systemInv (session E events s)" using session_systemInv [OF start(1)] .
  have same: "cfg (session E events s) = cfg s" using session_cfg [OF start(1)] .
  show "case packs s' of None \<Rightarrow> flStorageMode fl \<noteq> ''packs'' | Some q \<Rightarrow> psPendingCAS q = Map.empty"
  proof (cases "packs (session E events s)")
    case None
    then have "s' = session E events s" using assms(2) by (simp add: server_Close_def)
    with None inv same start(2) show ?thesis by (auto simp: systemInv_def split: if_splits)
  next
    case (Some q)
    then have "stageInv q" using inv by (simp add: systemInv_def)
    from flush_all_result [OF Some this] assms(2) Some r show ?thesis
      by (fastforce simp: server_Close_def packs_close_def)
  qed
qed

lemma openCatalog_run:
  "openCatalog H fl p = (Inr catalog, p') \<longleftrightarrow> p' = p \<and> (catalog \<noteq> None \<longleftrightarrow> flStorageMode fl = ''packs'') \<and>
     (\<forall>c. catalog = Some c \<longrightarrow> NewActionsCatalog (hoGetenv H) (hoParseURL H) = Inr c)"
  by (cases catalog) (auto simp: openCatalog_def attempt_Inr_iff lifted_run)

lemma SafeCacheDir_run:
  "SafeCacheDir H base p = (Inr dir, p') \<Longrightarrow>
     p' = p\<lparr>prEffects := prEffects p @ (if base = [] then [MadeDir dir] else [])\<rparr>"
  by (auto simp: SafeCacheDir_def lifted_def attempt_Inr_iff emit_def)

text \<open>Whatever goes wrong after the spool directory has been made, removing it is the last thing that happens.\<close>

lemma run_removes:
  assumes "\<not> flShowVersion fl" and "flReadyFile fl \<noteq> []" and "SafeCacheDir H (flCacheDir fl) p = (Inr dir, p1)"
    and "run H fl events p = (r, p')"
  shows "\<exists>es. prEffects p' = es @ [Removed dir]"
  using assms by (auto simp: run_def andThen_iff deferring_run)

lemma run_server:
  assumes "run H fl events (started w) = (Inr (), p)" and "\<not> flShowVersion fl"
  shows "\<exists>dir port client catalog s r s'. let E = hoEnv H client catalog in
    NewActionsBackend (hoGetenv H) (hoTryEnv H) = Inr client \<and> hoListen H (flPort fl) = Inr port \<and>
    New E (serverConfig H fl dir (flStorageMode fl = ''packs'')) w = Inr s \<and>
    server_Close E (session E events s) = (r, s') \<and> prServer p = Some s' \<and>
    prEffects p = (if flCacheDir fl = [] then [MadeDir dir] else []) @
      [Listening port, Unset ''BAZEL_GHA_CACHE_SHUTDOWN_TOKEN'', Serving,
       Wrote (flReadyFile fl) (readyInfo H port), ServerShutdown] @
      (if hoShutdown H \<noteq> None then [ServerClosed] else []) @
      Flushed (r = Inr ()) # statsEffects H (flStatsFile fl) (stats s') @
      [SignalsStopped, ListenerClosed, Removed dir] \<and>
    (r = Inr () \<longrightarrow> (case packs s' of None \<Rightarrow> flStorageMode fl \<noteq> ''packs'' | Some q \<Rightarrow> psPendingCAS q = Map.empty))"
proof -
  from assms obtain dir p1 p2 where made: "SafeCacheDir H (flCacheDir fl) (started w) = (Inr dir, p1)"
    and rest: "withSpool H fl events dir p1 = (Inr (), p2)" and p: "p = emit (Removed dir) p2"
    by (auto simp: run_def andThen_iff deferring_run case_sum_run split: if_splits)
  have p1: "prWorld p1 = w" "prEffects p1 = (if flCacheDir fl = [] then [MadeDir dir] else [])"
    using SafeCacheDir_run [OF made] by (simp_all add: started_def)
  from rest obtain client port p4 where clients: "NewActionsBackend (hoGetenv H) (hoTryEnv H) = Inr client"
      "labelled ''listen on loopback: '' (hoListen H (flPort fl)) = Inr port"
    and p2: "p2 = emit ListenerClosed p4"
    and listening: "onListener H fl events dir client port (emit (Listening port) p1) = (Inr (), p4)"
    unfolding withSpool_def attempt_Inr_iff lifted_run updating_run deferring_run by metis
  have port: "hoListen H (flPort fl) = Inr port" using clients(2) by (auto simp: labelled_def split: sum.splits)
  let ?q = "emit (Listening port) p1"
  from listening obtain catalog q p3 where opened: "openCatalog H fl ?q = (Inr catalog, q)"
    and started: "startServer (hoEnv H client catalog) (serverConfig H fl dir (catalog \<noteq> None)) q = (Inr (), p3)"
    and served: "serve H (hoEnv H client catalog) fl port events p3 = (Inr (), p4)"
    unfolding onListener_def attempt_Inr_iff by (elim exE conjE) (rule that, assumption+, simp)
  from opened have q: "q = ?q" and packs: "catalog \<noteq> None \<longleftrightarrow> flStorageMode fl = ''packs''"
    unfolding openCatalog_run by blast+
  note start = started [unfolded q]
  let ?E = "hoEnv H client catalog"
  from start obtain s where New: "New ?E (serverConfig H fl dir (flStorageMode fl = ''packs'')) w = Inr s"
    and p3: "p3 = (emit (Listening port) p1)\<lparr>prServer := Some s\<rparr>"
    unfolding packs startServer_def by (auto simp: p1(1) split: sum.splits)
  from serve_run [OF served] p3 obtain r s' where close: "server_Close ?E (session ?E events s) = (r, s')"
    and p4: "prServer p4 = Some s'" "prEffects p4 = prEffects p3 @ [Unset ''BAZEL_GHA_CACHE_SHUTDOWN_TOKEN'', Serving,
      Wrote (flReadyFile fl) (readyInfo H port), ServerShutdown] @
      (if hoShutdown H \<noteq> None then [ServerClosed] else []) @
      Flushed (r = Inr ()) # statsEffects H (flStatsFile fl) (stats s') @ [SignalsStopped]"
    by auto
  have effects: "prEffects p = (if flCacheDir fl = [] then [MadeDir dir] else []) @
      [Listening port, Unset ''BAZEL_GHA_CACHE_SHUTDOWN_TOKEN'', Serving,
       Wrote (flReadyFile fl) (readyInfo H port), ServerShutdown] @
      (if hoShutdown H \<noteq> None then [ServerClosed] else []) @
      Flushed (r = Inr ()) # statsEffects H (flStatsFile fl) (stats s') @
      [SignalsStopped, ListenerClosed, Removed dir]"
    unfolding p p2 by (simp add: p4(2) p3 p1(2))
  have server: "prServer p = Some s'" unfolding p p2 by (simp add: p4(1))
  show ?thesis
    unfolding Let_def
    by (intro exI conjI, rule clients(1), rule port, rule New, rule close, rule server, rule effects, rule closed_flush [OF New close])
qed

text \<open>
  C40. What a process that returns no error has done (\<open>run\<close>). Asked for its version, it has printed it and done nothing
  else. Otherwise it was given a ready file, its client and its listener could be made, and it has done in this order: taken the token out of its environment before it
  served, told where it listens, stopped the HTTP server, called \<open>Close\<close> on the state that the requests had left,
  tried to write the statistics of the state after that, closed the listener, and at last removed the spool
  directory. That \<open>run\<close> returns no error does not say that the flush of \<open>Close\<close> or the writing of the statistics
  succeeded, whose errors are only logged: \<open>Flushed\<close> records the result of \<open>Close\<close>, and \<open>statsEffects\<close> what was written.
  If \<open>Close\<close> did succeed, no CAS object of a packed server is left pending.
\<close>

theorem run_completes:
  assumes "run H fl events (started w) = (Inr (), p)"
  shows "if flShowVersion fl then prEffects p = [Printed (hoVersion H)] \<and> prServer p = None
    else flReadyFile fl \<noteq> [] \<and> (\<exists>dir port client catalog s r s'. let E = hoEnv H client catalog in
      NewActionsBackend (hoGetenv H) (hoTryEnv H) = Inr client \<and> hoListen H (flPort fl) = Inr port \<and>
      New E (serverConfig H fl dir (flStorageMode fl = ''packs'')) w = Inr s \<and>
      server_Close E (session E events s) = (r, s') \<and> prServer p = Some s' \<and>
      prEffects p = (if flCacheDir fl = [] then [MadeDir dir] else []) @
        [Listening port, Unset ''BAZEL_GHA_CACHE_SHUTDOWN_TOKEN'', Serving,
         Wrote (flReadyFile fl) (readyInfo H port), ServerShutdown] @
        (if hoShutdown H \<noteq> None then [ServerClosed] else []) @
        Flushed (r = Inr ()) # statsEffects H (flStatsFile fl) (stats s') @
        [SignalsStopped, ListenerClosed, Removed dir] \<and>
      (r = Inr () \<longrightarrow> (case packs s' of None \<Rightarrow> flStorageMode fl \<noteq> ''packs'' | Some q \<Rightarrow> psPendingCAS q = Map.empty)))"
proof (cases "flShowVersion fl")
  case True
  then show ?thesis using assms by (auto simp: run_def started_def emit_def)
next
  case False
  moreover have "flReadyFile fl \<noteq> []" using assms False by (auto simp: run_def)
  ultimately show ?thesis using run_server [OF assms False] by simp
qed

end
