(* ===== verification/SafeError.thy ===== *)
theory SafeError
  imports Prelude
begin

text \<open>
  \<open>safeError\<close> of \<open>server.go\<close>, which the server applies to the errors of the backend and of the packed store before
  it logs them: URLs, which may be signed, and tokens are replaced, and the text is cut. Some errors are logged
  without it: those of local files in \<open>serveObject\<close>, and everything that \<open>main.go\<close> logs, with the error of the last
  flush. The two regular expressions are written out as matchers
  that give what follows the leftmost-longest match at the head of a string; a \<open>redactor\<close> is what such a
  matcher and its replacement have to satisfy for the result to be free of matches.
\<close>

section \<open>The patterns\<close>

text \<open>\<open>\s\<close>, and the class \<open>[A-Za-z0-9_-]\<close>.\<close>

definition whitespace :: "char \<Rightarrow> bool" where
  "whitespace c = ((of_char c :: nat) \<in> {9, 10, 12, 13, 32})"

definition tokenChar :: "char \<Rightarrow> bool" where
  "tokenChar c = (let n = (of_char c :: nat) in
     (65 \<le> n \<and> n \<le> 90) \<or> (97 \<le> n \<and> n \<le> 122) \<or> (48 \<le> n \<and> n \<le> 57) \<or> n = 95 \<or> n = 45)"

text \<open>\<open>https?://[^\s]+\<close>.\<close>

definition afterScheme :: "string \<Rightarrow> string option" where
  "afterScheme s =
     (case s of [] \<Rightarrow> None
      | c # cs \<Rightarrow> if whitespace c then None else Some (dropWhile (\<lambda>c. \<not> whitespace c) cs))"

definition urlPattern :: "string \<Rightarrow> string option" where
  "urlPattern s =
     (if prefix ''http://'' s then afterScheme (drop 7 s)
      else if prefix ''https://'' s then afterScheme (drop 8 s) else None)"

text \<open>Three groups \<open>[A-Za-z0-9_-]{16,}\<close> with dots between them; a dot is not in the class.\<close>

definition tokenGroup :: "string \<Rightarrow> string option" where
  "tokenGroup s = (if length (takeWhile tokenChar s) < 16 then None else Some (dropWhile tokenChar s))"

definition afterDot :: "string \<Rightarrow> string option" where
  "afterDot s = (case s of [] \<Rightarrow> None | c # cs \<Rightarrow> if c = CHR ''.'' then Some cs else None)"

definition jwtPattern :: "string \<Rightarrow> string option" where
  "jwtPattern s = Option.bind (tokenGroup s) (\<lambda>s. Option.bind (afterDot s) (\<lambda>s.
     Option.bind (tokenGroup s) (\<lambda>s. Option.bind (afterDot s) tokenGroup)))"

section \<open>Replacing\<close>

text \<open>\<open>ReplaceAllString\<close>: from the left, without overlaps; a match is not empty.\<close>

function replaceAll :: "(string \<Rightarrow> string option) \<Rightarrow> string \<Rightarrow> string \<Rightarrow> string" where
  "replaceAll pattern repl [] = []"
| "replaceAll pattern repl (c # cs) =
     (case pattern (c # cs) of
        None \<Rightarrow> c # replaceAll pattern repl cs
      | Some rest \<Rightarrow> if length rest \<le> length cs then repl @ replaceAll pattern repl rest else [])"
  by pat_completeness auto

termination
  by (relation "measure (\<lambda>(pattern, repl, s). length s)") auto

definition ellipsis :: string where
  "ellipsis = map char_of [226, 128, 166 :: nat]"

definition maxLength :: nat where
  "maxLength = 1000"

definition safeError :: "string option \<Rightarrow> string" where
  "safeError err =
     (case err of None \<Rightarrow> []
      | Some text \<Rightarrow>
          let message = replaceAll urlPattern ''[redacted-url]'' text;
              message = replaceAll jwtPattern ''[redacted-token]'' message
          in if length message > maxLength then take maxLength message @ ellipsis else message)"

section \<open>Strings without a match\<close>

definition matchFree :: "(string \<Rightarrow> string option) \<Rightarrow> string \<Rightarrow> bool" where
  "matchFree pattern s \<longleftrightarrow> (\<forall>t. suffix t s \<longrightarrow> pattern t = None)"

text \<open>
  What replacing the matches of \<open>pattern\<close> by \<open>repl\<close> does to the matches of \<open>other\<close>: none begins in the
  replacement, and one that reaches into a replacement was a match before.
\<close>

locale redactor =
  fixes pattern other :: "string \<Rightarrow> string option" and repl :: string
  assumes follows: "pattern w = Some rest \<Longrightarrow> strict_suffix rest w"
    and inside: "suffix t repl \<Longrightarrow> t \<noteq> [] \<Longrightarrow> other (t @ v) = None"
    and before: "pattern w = Some rest \<Longrightarrow> other (u @ repl @ v) \<noteq> None \<Longrightarrow> other (u @ w) \<noteq> None"
begin

lemma shorter: "pattern w = Some rest \<Longrightarrow> length rest < length w"
  by (rule suffix_length_less) (rule follows)

lemma replaceAll_step:
  "replaceAll pattern repl (c # cs) = (case pattern (c # cs) of None \<Rightarrow> c # replaceAll pattern repl cs
     | Some rest \<Rightarrow> repl @ replaceAll pattern repl rest)"
  using shorter [of "c # cs"] by (auto simp: less_Suc_eq_le split: option.split)

lemma replaceAll_match: "other (u @ replaceAll pattern repl s) \<noteq> None \<Longrightarrow> other (u @ s) \<noteq> None"
proof (induction "length s" arbitrary: u s rule: less_induct)
  case less
  show ?case
  proof (cases s)
    case Nil
    with less.prems show ?thesis by simp
  next
    case (Cons c cs)
    show ?thesis
    proof (cases "pattern s")
      case None
      with less.prems Cons have "other ((u @ [c]) @ replaceAll pattern repl cs) \<noteq> None"
        unfolding Cons replaceAll_step by simp
      from less.hyps [OF _ this] Cons show ?thesis by simp
    next
      case (Some rest)
      with less.prems Cons have "other (u @ repl @ replaceAll pattern repl rest) \<noteq> None"
        unfolding Cons replaceAll_step by simp
      from before [OF Some this] show ?thesis .
    qed
  qed
qed

lemma replaceAll_free:
  assumes "other = pattern \<or> matchFree other s"
  shows "matchFree other (replaceAll pattern repl s)"
  using assms
proof (induction "length s" arbitrary: s rule: less_induct)
  case less
  show ?case
  proof (cases s)
    case Nil
    have "other [] = None"
      using less.prems shorter [of "[]"] Nil by (cases "pattern []") (auto simp: matchFree_def)
    with Nil show ?thesis by (simp add: matchFree_def)
  next
    case (Cons c cs)
    show ?thesis
    proof (cases "pattern s")
      case None
      have "other s = None" using less.prems None by (auto simp: matchFree_def)
      then have whole: "other (replaceAll pattern repl s) = None" using replaceAll_match [of "[]" s] by (cases "other (replaceAll pattern repl s)") auto
      have "matchFree other (replaceAll pattern repl cs)"
        using less.prems less.hyps [of cs] Cons by (auto simp: matchFree_def suffix_Cons)
      moreover have "replaceAll pattern repl s = c # replaceAll pattern repl cs"
        using None unfolding Cons replaceAll_step by simp
      ultimately show ?thesis using whole by (simp add: matchFree_def suffix_Cons)
    next
      case (Some rest)
      have "matchFree other rest" if "matchFree other s"
        using that follows [OF Some] unfolding matchFree_def
        by (meson strict_suffix_def suffix_order.trans)
      then have rest: "matchFree other (replaceAll pattern repl rest)"
        using less.prems less.hyps [OF shorter [OF Some]] by blast
      have "replaceAll pattern repl s = repl @ replaceAll pattern repl rest"
        using Some unfolding Cons replaceAll_step by simp
      moreover have "other (t @ replaceAll pattern repl rest) = None" if "suffix t repl" for t
        using inside [OF that] rest by (cases "t = []") (simp_all add: matchFree_def)
      ultimately show ?thesis
        using rest by (auto simp: matchFree_def suffix_append)
    qed
  qed
qed

end

text \<open>Both patterns match at the head of a string if it begins with a certain word.\<close>

lemma prefix_before: "prefix p (u @ x # v) \<Longrightarrow> x \<notin> set p \<Longrightarrow> prefix p u"
proof (induction u arbitrary: p)
  case Nil
  then show ?case by (cases p) auto
next
  case (Cons y u)
  then show ?case by (cases p) auto
qed

definition urlWord :: "string \<Rightarrow> bool" where
  "urlWord p \<longleftrightarrow> (\<exists>c. (p = ''http://'' @ [c] \<or> p = ''https://'' @ [c]) \<and> \<not> whitespace c)"

lemma urlPattern_iff: "urlPattern s \<noteq> None \<longleftrightarrow> (\<exists>p. urlWord p \<and> prefix p s)"
proof -
  have after: "afterScheme s \<noteq> None \<longleftrightarrow> (\<exists>c. \<not> whitespace c \<and> prefix [c] s)" for s
    by (cases s) (auto simp: afterScheme_def)
  have word: "prefix (p @ [c]) s \<longleftrightarrow> prefix p s \<and> prefix [c] (drop (length p) s)" for p c and s :: string
    by (auto simp: prefix_def append_eq_conv_conj)
  have split: "(\<exists>p. (\<exists>c. (p = H @ [c] \<or> p = S @ [c]) \<and> \<not> whitespace c) \<and> prefix p s) \<longleftrightarrow>
      prefix H s \<and> afterScheme (drop (length H) s) \<noteq> None \<or>
      prefix S s \<and> afterScheme (drop (length S) s) \<noteq> None" for H S :: string
    using after word by blast
  have "\<not> (prefix ''http://'' s \<and> prefix ''https://'' s)" by (auto simp: prefix_def)
  moreover have "length ''http://'' = 7" "length ''https://'' = 8" by simp_all
  ultimately show ?thesis
    unfolding urlWord_def split by (auto simp only: urlPattern_def split: if_splits)
qed

definition jwtWord :: "string \<Rightarrow> bool" where
  "jwtWord p \<longleftrightarrow> (\<exists>a b c. p = a @ CHR ''.'' # b @ CHR ''.'' # c \<and>
     (\<forall>x \<in> set (a @ b @ c). tokenChar x) \<and> length a \<ge> 16 \<and> length b \<ge> 16 \<and> length c \<ge> 16)"

lemma tokenGroup_iff:
  "tokenGroup s = Some r \<longleftrightarrow> (\<exists>a. s = a @ r \<and> length a \<ge> 16 \<and> (\<forall>x \<in> set a. tokenChar x) \<and>
     (case r of [] \<Rightarrow> True | x # _ \<Rightarrow> \<not> tokenChar x))"
proof
  assume "tokenGroup s = Some r"
  then have "s = takeWhile tokenChar s @ r" "length (takeWhile tokenChar s) \<ge> 16" "r = dropWhile tokenChar s"
    by (auto simp: tokenGroup_def split: if_splits)
  moreover have "case dropWhile tokenChar s of [] \<Rightarrow> True | x # _ \<Rightarrow> \<not> tokenChar x"
    by (induction s) auto
  ultimately show "\<exists>a. s = a @ r \<and> length a \<ge> 16 \<and> (\<forall>x \<in> set a. tokenChar x) \<and>
      (case r of [] \<Rightarrow> True | x # _ \<Rightarrow> \<not> tokenChar x)"
    using set_takeWhileD by (metis (full_types))
next
  assume "\<exists>a. s = a @ r \<and> length a \<ge> 16 \<and> (\<forall>x \<in> set a. tokenChar x) \<and>
      (case r of [] \<Rightarrow> True | x # _ \<Rightarrow> \<not> tokenChar x)"
  then obtain a where s: "s = a @ r" "length a \<ge> 16" "\<forall>x \<in> set a. tokenChar x"
    and r: "case r of [] \<Rightarrow> True | x # _ \<Rightarrow> \<not> tokenChar x" by blast
  have "takeWhile tokenChar r = []" "dropWhile tokenChar r = r" using r by (cases r; simp)+
  then show "tokenGroup s = Some r"
    using s by (simp add: tokenGroup_def takeWhile_append2 dropWhile_append2)
qed

lemma tokenChar_dot [simp]: "\<not> tokenChar (CHR ''.'')"
  by code_simp

lemma jwtPattern_iff: "jwtPattern s \<noteq> None \<longleftrightarrow> (\<exists>p. jwtWord p \<and> prefix p s)"
proof
  assume "jwtPattern s \<noteq> None"
  then obtain s1 s2 s3 s4 where "tokenGroup s = Some s1" "afterDot s1 = Some s2" "tokenGroup s2 = Some s3"
    "afterDot s3 = Some s4" "tokenGroup s4 \<noteq> None"
    by (auto simp: jwtPattern_def bind_eq_Some_conv)
  moreover from this obtain s5 where "tokenGroup s4 = Some s5" by blast
  ultimately obtain a b c where "s = a @ s1" "s2 = b @ s3" "s4 = c @ s5"
    "\<forall>x \<in> set a. tokenChar x" "\<forall>x \<in> set b. tokenChar x" "\<forall>x \<in> set c. tokenChar x"
    "length a \<ge> 16" "length b \<ge> 16" "length c \<ge> 16"
    and "s1 = CHR ''.'' # s2" "s3 = CHR ''.'' # s4"
    unfolding tokenGroup_iff by (auto simp: afterDot_def split: list.splits if_splits)
  moreover from this have "jwtWord (a @ CHR ''.'' # b @ CHR ''.'' # c)"
    unfolding jwtWord_def set_append by blast
  ultimately show "\<exists>p. jwtWord p \<and> prefix p s"
    by (intro exI [of _ "a @ CHR ''.'' # b @ CHR ''.'' # c"]) simp
next
  assume "\<exists>p. jwtWord p \<and> prefix p s"
  then obtain a b c r where s: "s = a @ CHR ''.'' # b @ CHR ''.'' # c @ r"
    and chars: "\<forall>x \<in> set a. tokenChar x" "\<forall>x \<in> set b. tokenChar x" "\<forall>x \<in> set c. tokenChar x"
    and lengths: "length a \<ge> 16" "length b \<ge> 16" "length c \<ge> 16"
    by (auto simp: jwtWord_def prefix_def)
  have "tokenGroup s = Some (CHR ''.'' # b @ CHR ''.'' # c @ r)"
    "tokenGroup (b @ CHR ''.'' # c @ r) = Some (CHR ''.'' # c @ r)"
    using s chars lengths by (auto simp: tokenGroup_iff)
  moreover have "tokenGroup (c @ r) \<noteq> None"
    using chars(3) lengths(3) by (simp add: tokenGroup_def takeWhile_append)
  ultimately show "jwtPattern s \<noteq> None" by (simp add: jwtPattern_def afterDot_def)
qed

section \<open>The two replacements\<close>

lemma urlPattern_follows: "urlPattern w = Some rest \<Longrightarrow> strict_suffix rest w"
proof -
  assume match: "urlPattern w = Some rest"
  have after: "strict_suffix r s" if r: "afterScheme s = Some r" for s r
  proof (cases s)
    case (Cons c cs)
    then show ?thesis
      using r suffix_dropWhile [of "\<lambda>c. \<not> whitespace c" cs]
      by (auto simp: afterScheme_def strict_suffix_def suffix_Cons dest: suffix_length_le split: if_splits)
  qed (use r in \<open>simp add: afterScheme_def\<close>)
  from match obtain n where "afterScheme (drop n w) = Some rest"
    by (auto simp: urlPattern_def split: if_splits)
  from after [OF this] show ?thesis
    by (meson suffix_drop suffix_order.less_le_trans)
qed

lemma jwtPattern_follows: "jwtPattern w = Some rest \<Longrightarrow> strict_suffix rest w"
proof -
  assume "jwtPattern w = Some rest"
  then obtain s1 s2 s3 s4 where groups: "tokenGroup w = Some s1" "afterDot s1 = Some s2" "tokenGroup s2 = Some s3"
    "afterDot s3 = Some s4" "tokenGroup s4 = Some rest"
    by (auto simp: jwtPattern_def bind_eq_Some_conv)
  have group: "suffix r s" "length r < length s" if "tokenGroup s = Some r" for s r
    using that unfolding tokenGroup_iff by (auto intro: suffixI)
  have dot: "suffix r s" if "afterDot s = Some r" for s r
    using that by (auto simp: afterDot_def suffix_Cons split: list.splits if_splits)
  have "suffix rest w" "suffix s4 w"
    using group(1) [OF groups(1)] dot [OF groups(2)] group(1) [OF groups(3)] dot [OF groups(4)] group(1) [OF groups(5)]
    by (meson suffix_order.trans)+
  moreover have "rest \<noteq> w"
    using group(2) [OF groups(5)] suffix_length_le [OF \<open>suffix s4 w\<close>] by auto
  ultimately show ?thesis by (simp add: strict_suffix_def)
qed

lemma match_head:
  "urlPattern w \<noteq> None \<or> jwtPattern w \<noteq> None \<Longrightarrow> \<exists>y ys. w = y # ys \<and> \<not> whitespace y"
proof -
  have plain: "\<not> whitespace y" if "tokenChar y" for y
    using that by (auto simp: tokenChar_def whitespace_def Let_def)
  assume "urlPattern w \<noteq> None \<or> jwtPattern w \<noteq> None"
  then consider p where "urlWord p" "prefix p w" | p where "jwtWord p" "prefix p w"
    unfolding urlPattern_iff jwtPattern_iff by blast
  then show ?thesis
  proof cases
    case 1
    have "\<not> whitespace (CHR ''h'')" by code_simp
    with 1 show ?thesis by (auto simp: urlWord_def prefix_def)
  next
    case 2
    then obtain a r where "w = a @ r" "length a \<ge> 16" "\<forall>x \<in> set a. tokenChar x"
      by (auto simp: jwtWord_def prefix_def)
    then show ?thesis using plain by (cases a) auto
  qed
qed

lemma url_before:
  assumes match: "urlPattern (u @ x # v) \<noteq> None" and x: "x \<notin> set ''https://''" and w: "w = y # ys" "\<not> whitespace y"
  shows "urlPattern (u @ w) \<noteq> None"
proof -
  from match obtain H c where H: "H = ''http://'' \<or> H = ''https://''" and c: "\<not> whitespace c" "prefix (H @ [c]) (u @ x # v)"
    unfolding urlPattern_iff urlWord_def by blast
  have "prefix H (u @ x # v)" using c(2) by (rule append_prefixD)
  moreover have "x \<notin> set H" using H x by auto
  ultimately have "prefix H u" by (rule prefix_before)
  then obtain u' where u: "u = H @ u'" by (auto simp: prefix_def)
  have "\<exists>d. \<not> whitespace d \<and> prefix (H @ [d]) (u @ w)"
    using c w u by (cases u') auto
  with H show ?thesis unfolding urlPattern_iff urlWord_def by blast
qed

lemma url_inside:
  assumes "suffix t repl" and "t \<noteq> []" and "CHR ''h'' \<notin> set repl"
  shows "urlPattern (t @ v) = None"
proof (rule ccontr)
  assume "urlPattern (t @ v) \<noteq> None"
  then obtain p where "urlWord p" "prefix p (t @ v)" unfolding urlPattern_iff by blast
  then have "hd t = CHR ''h''" using assms(2) by (cases t) (auto simp: urlWord_def)
  moreover have "hd t \<in> set repl" using assms(1,2) by (auto simp: suffix_def)
  ultimately show False using assms(3) by simp
qed

lemma jwtWord_chars: "jwtWord p \<Longrightarrow> x \<in> set p \<Longrightarrow> tokenChar x \<or> x = CHR ''.''"
  by (auto simp: jwtWord_def)

lemma jwt_before:
  assumes "jwtPattern (u @ x # v) \<noteq> None" and "\<not> tokenChar x" "x \<noteq> CHR ''.''"
  shows "\<exists>p. jwtWord p \<and> prefix p u"
  using assms prefix_before jwtWord_chars unfolding jwtPattern_iff by metis

lemma brackets [simp]: "\<not> tokenChar (CHR ''['')" "\<not> tokenChar (CHR '']'')"
  by code_simp+

interpretation urls: redactor urlPattern urlPattern "''[redacted-url]''"
proof unfold_locales
  fix u v w rest
  assume "urlPattern w = Some rest" and "urlPattern (u @ ''[redacted-url]'' @ v) \<noteq> None"
  then show "urlPattern (u @ w) \<noteq> None"
    using match_head [of w] url_before [of u "CHR ''[''" "''redacted-url]'' @ v"] by auto
qed (use urlPattern_follows url_inside in auto)

interpretation urlsInTokens: redactor jwtPattern urlPattern "''[redacted-token]''"
proof unfold_locales
  fix u v w rest
  assume "jwtPattern w = Some rest" and "urlPattern (u @ ''[redacted-token]'' @ v) \<noteq> None"
  then show "urlPattern (u @ w) \<noteq> None"
    using match_head [of w] url_before [of u "CHR ''[''" "''redacted-token]'' @ v"] by auto
qed (use jwtPattern_follows url_inside in auto)

interpretation tokens: redactor jwtPattern jwtPattern "''[redacted-token]''"
proof unfold_locales
  fix t v
  assume t: "suffix t ''[redacted-token]''" "t \<noteq> []"
  then obtain ts x where tsx: "t = ts @ [x]" by (cases t rule: rev_cases) auto
  moreover obtain zs where "''[redacted-token]'' = zs @ t" using t(1) by (auto simp: suffix_def)
  then have "last ''[redacted-token]'' = last (zs @ t)" by (rule arg_cong)
  ultimately have ts: "t = ts @ [CHR '']'']" "length ts \<le> 15"
    using suffix_length_le [OF t(1)] by simp_all
  show "jwtPattern (t @ v) = None"
  proof (rule ccontr)
    assume "jwtPattern (t @ v) \<noteq> None"
    then obtain p where "jwtWord p" "prefix p ts" using jwt_before [of ts "CHR '']''" v] ts(1) by auto
    then show False using ts(2) by (auto simp: jwtWord_def dest: prefix_length_le)
  qed
next
  fix u v w rest
  assume "jwtPattern (u @ ''[redacted-token]'' @ v) \<noteq> None"
  then obtain p where "jwtWord p" "prefix p u"
    using jwt_before [of u "CHR ''[''" "''redacted-token]'' @ v"] by auto
  then show "jwtPattern (u @ w) \<noteq> None" unfolding jwtPattern_iff by (blast intro: prefix_prefix)
qed (use jwtPattern_follows in auto)

section \<open>The redacted text\<close>

lemma matchFree_take:
  assumes "matchFree pattern s" and "\<And>u v. pattern (u @ v) = None \<Longrightarrow> pattern u = None"
  shows "matchFree pattern (take n s)"
  unfolding matchFree_def
proof (intro allI impI)
  fix t assume "suffix t (take n s)"
  then have "suffix (t @ drop n s) s" unfolding suffix_def by (metis append.assoc append_take_drop_id)
  with assms show "pattern t = None" unfolding matchFree_def by blast
qed

lemma patterns_take:
  "urlPattern (u @ v) = None \<Longrightarrow> urlPattern u = None" "jwtPattern (u @ v) = None \<Longrightarrow> jwtPattern u = None"
  using urlPattern_iff jwtPattern_iff by (metis prefix_prefix)+

lemma replaceAll_same: "matchFree pattern s \<Longrightarrow> replaceAll pattern repl s = s"
  by (induction s) (auto simp: matchFree_def suffix_Cons)

text \<open>
  C39. \<open>safeError\<close> returns a text without secrets: with every match of the two patterns replaced, the text of the
  error has no match left, neither a URL nor a token; \<open>safeError\<close> is this text if it has at most 1000 bytes, and
  otherwise its first 1000 bytes, which have no match either, followed by an ellipsis; and an error without a
  match is replaced by itself. Without an error it is empty.
\<close>

theorem safeError_redacts:
  "safeError None = [] \<and>
   (let message = replaceAll jwtPattern ''[redacted-token]'' (replaceAll urlPattern ''[redacted-url]'' m) in
    safeError (Some m) = (if length message \<le> 1000 then message else take 1000 message @ ellipsis) \<and>
    (\<forall>n. matchFree urlPattern (take n message) \<and> matchFree jwtPattern (take n message)) \<and>
    matchFree urlPattern message \<and> matchFree jwtPattern message \<and>
    (matchFree urlPattern m \<and> matchFree jwtPattern m \<longrightarrow> message = m))"
proof -
  define first where "first = replaceAll urlPattern ''[redacted-url]'' m"
  define message where "message = replaceAll jwtPattern ''[redacted-token]'' first"
  have "matchFree urlPattern first" unfolding first_def by (rule urls.replaceAll_free) simp
  then have urls: "matchFree urlPattern message" unfolding message_def by (intro urlsInTokens.replaceAll_free) simp
  have tokens: "matchFree jwtPattern message" unfolding message_def by (rule tokens.replaceAll_free) simp
  have cut: "matchFree urlPattern (take n message)" "matchFree jwtPattern (take n message)" for n
    by (rule matchFree_take [OF urls], erule patterns_take(1), rule matchFree_take [OF tokens], erule patterns_take(2))
  have result: "safeError (Some m) = (if length message \<le> 1000 then message else take 1000 message @ ellipsis)"
    by (simp add: safeError_def first_def message_def maxLength_def Let_def)
  have clean: "message = m" if "matchFree urlPattern m" "matchFree jwtPattern m"
    using that replaceAll_same by (simp add: message_def first_def)
  have "safeError None = []" by (simp add: safeError_def)
  with urls tokens cut result clean show ?thesis
    unfolding Let_def first_def [symmetric] message_def [symmetric] by blast
qed

theorem safeError_redacts_witness: "safeError (Some ''backend unavailable'') = ''backend unavailable''"
proof -
  have "matchFree urlPattern ''backend unavailable''" "matchFree jwtPattern ''backend unavailable''"
    unfolding matchFree_def suffix_Cons suffix_Nil by (auto, code_simp+)
  with safeError_redacts [of "''backend unavailable''"] show ?thesis by (simp add: Let_def)
qed

text \<open>A signed URL and a token in the middle of an error.\<close>

lemma safeError_example:
  "safeError (Some ''PUT https://host/blob?sig=secret failed: aaaaaaaaaaaaaaaa.bbbbbbbbbbbbbbbb.cccccccccccccccc'') =
     ''PUT [redacted-url] failed: [redacted-token]''"
  by code_simp

end
