(* ===== verification/Coalescing.thy ===== *)
theory Coalescing
  imports Resolve
begin

text \<open>
  \<open>publishOnce\<close> with many callers at once (\<open>server.go\<close>). Its critical sections under \<open>publicationsMu\<close>, the
  wait on the channel \<open>done\<close> of a publication in flight, and the upload outside of the lock are the steps of
  an interleaving relation; the upload may end with any result at any time. The invariant \<open>coInv\<close> holds in
  every reachable state, \<open>coMeasure\<close> bounds the steps, and every step is a step of callers that run one after
  the other, which is how \<open>Resolve\<close> models \<open>publishOnce\<close>.
\<close>

section \<open>The state\<close>

text \<open>
  Publications are numbered in order of creation. \<open>coDone\<close> are those whose channel is closed, with the error
  they ended with. \<open>coSaves\<close> is the history of the calls of \<open>publish\<close>: the key and the error it returned.
\<close>

datatype phase =
    Entering
  | Waiting nat
  | Leading nat
  | Finishing nat "go_error option"
  | Returned "go_error + bool"

record coState =
  coPublished :: "string set"
  coPublishing :: "string \<rightharpoonup> nat"
  coDone :: "nat \<rightharpoonup> go_error option"
  coNext :: nat
  coPhase :: "phase list"
  coSaves :: "(string \<times> go_error option) list"

definition setPhase :: "nat \<Rightarrow> phase \<Rightarrow> coState \<Rightarrow> coState" where
  "setPhase i ph s = s\<lparr>coPhase := (coPhase s)[i := ph]\<rparr>"

section \<open>The steps\<close>

text \<open>The critical section at the head of the loop.\<close>

definition lockSection :: "string \<Rightarrow> nat \<Rightarrow> coState \<Rightarrow> coState" where
  "lockSection key i s =
     (if key \<in> coPublished s then setPhase i (Returned (Inr True)) s
      else case coPublishing s key of
        Some ongoing \<Rightarrow> setPhase i (Waiting ongoing) s
      | None \<Rightarrow> setPhase i (Leading (coNext s))
          (s\<lparr>coPublishing := (coPublishing s)(key \<mapsto> coNext s), coNext := Suc (coNext s)\<rparr>))"

text \<open>The two branches of the \<open>select\<close>.\<close>

definition afterDone :: "go_error option \<Rightarrow> phase" where
  "afterDone err = (case err of None \<Rightarrow> Returned (Inr True) | Some e \<Rightarrow> Entering)"

definition afterCancel :: "string \<Rightarrow> phase" where
  "afterCancel m = Returned (Inl (Failure m))"

text \<open>\<open>s.publish\<close> returns; then the critical section that ends the publication.\<close>

definition publishReturns :: "string \<Rightarrow> nat \<Rightarrow> nat \<Rightarrow> go_error option \<Rightarrow> coState \<Rightarrow> coState" where
  "publishReturns key i ongoing err s =
     setPhase i (Finishing ongoing err) (s\<lparr>coSaves := coSaves s @ [(key, err)]\<rparr>)"

definition finishSection :: "string \<Rightarrow> nat \<Rightarrow> nat \<Rightarrow> go_error option \<Rightarrow> coState \<Rightarrow> coState" where
  "finishSection key i ongoing err s =
     setPhase i (Returned (case err of None \<Rightarrow> Inr False | Some e \<Rightarrow> Inl e))
       (s\<lparr>coPublished := (if err = None then insert key (coPublished s) else coPublished s),
          coPublishing := (coPublishing s)(key := None), coDone := (coDone s)(ongoing \<mapsto> err)\<rparr>)"

text \<open>The caller \<open>i\<close> has the key \<open>keys ! i\<close>. The flag of a step says whether it is a cancellation.\<close>

inductive coStep :: "string list \<Rightarrow> bool \<Rightarrow> coState \<Rightarrow> coState \<Rightarrow> bool" for keys where
  enter: "i < length keys \<Longrightarrow> coPhase s ! i = Entering \<Longrightarrow> coStep keys False s (lockSection (keys ! i) i s)"
| wake: "i < length keys \<Longrightarrow> coPhase s ! i = Waiting ongoing \<Longrightarrow> coDone s ongoing = Some err \<Longrightarrow>
    coStep keys False s (setPhase i (afterDone err) s)"
| cancel: "i < length keys \<Longrightarrow> coPhase s ! i = Waiting ongoing \<Longrightarrow>
    coStep keys True s (setPhase i (afterCancel m) s)"
| publishes: "i < length keys \<Longrightarrow> coPhase s ! i = Leading ongoing \<Longrightarrow>
    coStep keys False s (publishReturns (keys ! i) i ongoing err s)"
| finish: "i < length keys \<Longrightarrow> coPhase s ! i = Finishing ongoing err \<Longrightarrow>
    coStep keys False s (finishSection (keys ! i) i ongoing err s)"

definition coStart :: "string list \<Rightarrow> string set \<Rightarrow> coState" where
  "coStart keys P0 = \<lparr>coPublished = P0, coPublishing = Map.empty, coDone = Map.empty, coNext = 0,
     coPhase = replicate (length keys) Entering, coSaves = []\<rparr>"

inductive coReachable :: "string list \<Rightarrow> string set \<Rightarrow> nat \<Rightarrow> coState \<Rightarrow> bool" for keys P0 where
  start: "coReachable keys P0 0 (coStart keys P0)"
| more: "coReachable keys P0 n s \<Longrightarrow> coStep keys c s s' \<Longrightarrow> coReachable keys P0 (Suc n) s'"

section \<open>The invariant\<close>

fun leads :: "phase \<Rightarrow> nat option" where
  "leads (Leading p) = Some p"
| "leads (Finishing p err) = Some p"
| "leads _ = None"

text \<open>A caller that has uploaded: it will return or has returned that the key was not deduplicated.\<close>

fun uploaded :: "phase \<Rightarrow> bool" where
  "uploaded (Finishing p err) = (err = None)"
| "uploaded (Returned r) = (r = Inr False)"
| "uploaded _ = False"

definition flightInv :: "string list \<Rightarrow> coState \<Rightarrow> bool" where
  "flightInv keys s \<longleftrightarrow> length (coPhase s) = length keys \<and> dom (coDone s) \<subseteq> {..< coNext s} \<and>
     (\<forall>key p. coPublishing s key = Some p \<longrightarrow> key \<notin> coPublished s \<and> p < coNext s \<and> coDone s p = None \<and>
        (\<exists>i < length keys. keys ! i = key \<and> leads (coPhase s ! i) = Some p)) \<and>
     (\<forall>i < length keys. \<forall>p. leads (coPhase s ! i) = Some p \<longrightarrow> coPublishing s (keys ! i) = Some p) \<and>
     (\<forall>i < length keys. \<forall>j < length keys. \<forall>p.
        leads (coPhase s ! i) = Some p \<longrightarrow> leads (coPhase s ! j) = Some p \<longrightarrow> i = j) \<and>
     (\<forall>i < length keys. \<forall>p. coPhase s ! i = Waiting p \<longrightarrow>
        (coDone s p = None \<longrightarrow> coPublishing s (keys ! i) = Some p) \<and>
        (coDone s p = Some None \<longrightarrow> keys ! i \<in> coPublished s))"

definition historyInv :: "string list \<Rightarrow> string set \<Rightarrow> coState \<Rightarrow> bool" where
  "historyInv keys P0 s \<longleftrightarrow> P0 \<subseteq> coPublished s \<and>
     (\<forall>key \<in> P0. key \<notin> fst ` set (coSaves s)) \<and>
     (\<forall>key xs ys. coSaves s = xs @ (key, None) # ys \<longrightarrow> key \<notin> fst ` set ys) \<and>
     (\<forall>key. (key, None) \<in> set (coSaves s) \<longleftrightarrow>
        (\<exists>i < length keys. keys ! i = key \<and> uploaded (coPhase s ! i))) \<and>
     (\<forall>key \<in> coPublished s. key \<in> P0 \<or> (key, None) \<in> set (coSaves s)) \<and>
     (\<forall>i < length keys. \<forall>j < length keys. keys ! i = keys ! j \<longrightarrow>
        uploaded (coPhase s ! i) \<longrightarrow> uploaded (coPhase s ! j) \<longrightarrow> i = j) \<and>
     (\<forall>i < length keys. \<forall>b. coPhase s ! i = Returned (Inr b) \<longrightarrow> keys ! i \<in> coPublished s)"

definition coInv :: "string list \<Rightarrow> string set \<Rightarrow> coState \<Rightarrow> bool" where
  "coInv keys P0 s \<longleftrightarrow> flightInv keys s \<and> historyInv keys P0 s"

lemma setPhase_fields [simp]:
  "coPublished (setPhase i ph s) = coPublished s" "coPublishing (setPhase i ph s) = coPublishing s"
  "coDone (setPhase i ph s) = coDone s" "coNext (setPhase i ph s) = coNext s"
  "coSaves (setPhase i ph s) = coSaves s" "coPhase (setPhase i ph s) = (coPhase s)[i := ph]"
  by (simp_all add: setPhase_def)

lemma coStart_inv: "coInv keys P0 (coStart keys P0)"
  by (auto simp: coInv_def flightInv_def historyInv_def coStart_def)

section \<open>Preservation\<close>

lemma phase_at [simp]:
  "i < length (coPhase s) \<Longrightarrow> (coPhase s)[i := ph] ! j = (if j = i then ph else coPhase s ! j)"
  by (auto simp: nth_list_update)

lemma flightD:
  assumes "flightInv keys s"
  shows "length (coPhase s) = length keys"
    and "coPublishing s key = Some p \<Longrightarrow> key \<notin> coPublished s \<and> p < coNext s \<and> coDone s p = None"
    and "coPublishing s key = Some p \<Longrightarrow> \<exists>i < length keys. keys ! i = key \<and> leads (coPhase s ! i) = Some p"
    and "i < length keys \<Longrightarrow> leads (coPhase s ! i) = Some p \<Longrightarrow> coPublishing s (keys ! i) = Some p"
    and "i < length keys \<Longrightarrow> j < length keys \<Longrightarrow> leads (coPhase s ! i) = Some p \<Longrightarrow>
      leads (coPhase s ! j) = Some p \<Longrightarrow> i = j"
    and "i < length keys \<Longrightarrow> coPhase s ! i = Waiting p \<Longrightarrow> coDone s p = None \<Longrightarrow> coPublishing s (keys ! i) = Some p"
    and "i < length keys \<Longrightarrow> coPhase s ! i = Waiting p \<Longrightarrow> coDone s p = Some None \<Longrightarrow> keys ! i \<in> coPublished s"
    and "coDone s p = Some err \<Longrightarrow> p < coNext s"
  using assms unfolding flightInv_def by (elim conjE, fastforce)+

text \<open>A caller that neither led a publication before nor leads one now.\<close>

lemma flight_setPhase:
  assumes inv: "flightInv keys s" and i: "i < length keys" and "leads (coPhase s ! i) = leads ph"
    and "\<And>p. ph = Waiting p \<Longrightarrow> coPublishing s (keys ! i) = Some p"
  shows "flightInv keys (setPhase i ph s)"
proof -
  have len: "i < length (coPhase s)" using i flightD(1) [OF inv] by simp
  have same: "leads ((coPhase s)[i := ph] ! j) = leads (coPhase s ! j)" for j
    using assms(3) len by simp
  show ?thesis
    unfolding flightInv_def setPhase_fields same
  proof (intro conjI allI impI, goal_cases)
    case 1 show ?case using flightD(1) [OF inv] by simp
  next
    case 2 show ?case using flightD(8) [OF inv] by auto
  next
    case (9 j p) then show ?case using flightD(6) [OF inv] assms(4) len by (auto split: if_splits)
  next
    case (10 j p)
    then show ?case using flightD(7) [OF inv] flightD(2) [OF inv] assms(4) len by (fastforce split: if_splits)
  qed (use flightD(2-5) [OF inv] in blast)+
qed

lemma flight_lead:
  assumes inv: "flightInv keys s" and i: "i < length keys" and ph: "coPhase s ! i = Entering"
    and free: "keys ! i \<notin> coPublished s" "coPublishing s (keys ! i) = None"
  shows "flightInv keys (setPhase i (Leading (coNext s))
    (s\<lparr>coPublishing := (coPublishing s)(keys ! i \<mapsto> coNext s), coNext := Suc (coNext s)\<rparr>))"
proof -
  have len: "i < length (coPhase s)" using i flightD(1) [OF inv] by simp
  have old: "j \<noteq> i" "p < coNext s" "keys ! j \<noteq> keys ! i"
    if "j < length keys" "leads (coPhase s ! j) = Some p" for j p
    using that flightD(2,4) [OF inv] ph free by fastforce+
  have waits: "keys ! j \<noteq> keys ! i" if "j < length keys" "coPhase s ! j = Waiting p" "coDone s p = None" for j p
    using flightD(6) [OF inv that] free by auto
  have fresh: "coDone s (coNext s) = None" using flightD(8) [OF inv] by (metis less_irrefl not_None_eq)
  show ?thesis
    unfolding flightInv_def
  proof (intro conjI allI impI, goal_cases)
    case 1 show ?case using flightD(1) [OF inv] by simp
  next
    case 2 show ?case using flightD(8) [OF inv] by (auto simp: less_Suc_eq)
  next
    case (3 key p) then show ?case using flightD(2) [OF inv] free by (auto split: if_splits)
  next
    case (4 key p) then show ?case using flightD(2) [OF inv] by (auto simp: less_Suc_eq split: if_splits)
  next
    case (5 key p) then show ?case using flightD(2) [OF inv] fresh by (auto split: if_splits)
  next
    case (6 key p)
    show ?case
    proof (cases "key = keys ! i")
      case True then show ?thesis using 6 i len by (intro exI [of _ i]) simp
    next
      case False
      with 6 obtain j where "j < length keys" "keys ! j = key" "leads (coPhase s ! j) = Some p"
        using flightD(3) [OF inv, of key p] by auto
      then show ?thesis using old(1) len by (intro exI [of _ j]) auto
    qed
  next
    case (7 j p) then show ?case using old(3) flightD(4) [OF inv] len by (auto split: if_splits)
  next
    case (8 j k p)
    then have now: "leads (if j = i then Leading (coNext s) else coPhase s ! j) = Some p"
      "leads (if k = i then Leading (coNext s) else coPhase s ! k) = Some p"
      using len by simp_all
    show ?case
    proof (cases "p = coNext s")
      case True
      have "l = i" if "l < length keys" "leads (if l = i then Leading (coNext s) else coPhase s ! l) = Some p" for l
        using old(2) [OF that(1), of p] that(2) True by (cases "l = i") auto
      with 8 now show ?thesis by metis
    next
      case False
      then have "leads (coPhase s ! j) = Some p" "leads (coPhase s ! k) = Some p"
        using now by (auto split: if_splits)
      then show ?thesis using flightD(5) [OF inv] 8 by blast
    qed
  next
    case (9 j p) then show ?case using waits flightD(6) [OF inv] len by (auto split: if_splits)
  next
    case (10 j p) then show ?case using flightD(7) [OF inv] len by (auto split: if_splits)
  qed
qed

lemma flight_saves:
  "flightInv keys (s\<lparr>coSaves := h\<rparr>) = flightInv keys s"
  by (simp add: flightInv_def)

lemma flight_finish:
  assumes inv: "flightInv keys s" and i: "i < length keys" and ph: "coPhase s ! i = Finishing p err"
  shows "flightInv keys (finishSection (keys ! i) i p err s)"
proof -
  have len: "i < length (coPhase s)" using i flightD(1) [OF inv] by simp
  have lead: "leads (coPhase s ! i) = Some p" using ph by simp
  have mine: "coPublishing s (keys ! i) = Some p" by (rule flightD(4) [OF inv i lead])
  have p: "p < coNext s" "coDone s p = None" using flightD(2) [OF inv mine] by simp_all
  have other: "q \<noteq> p" "keys ! j \<noteq> keys ! i" if "j < length keys" "j \<noteq> i" "leads (coPhase s ! j) = Some q" for j q
  proof -
    show q: "q \<noteq> p" using flightD(5) [OF inv that(1) i that(3)] that(2) lead by auto
    then show "keys ! j \<noteq> keys ! i" using flightD(4) [OF inv that(1,3)] mine by auto
  qed
  have key: "key = keys ! i" if "coPublishing s key = Some p" for key
    using flightD(3) [OF inv that] flightD(5) [OF inv _ i _ lead] by auto
  have waits: "keys ! j = keys ! i" if "j < length keys" "coPhase s ! j = Waiting p" for j
    using flightD(6) [OF inv that p(2)] key by simp
  show ?thesis
    unfolding flightInv_def finishSection_def
  proof (intro conjI allI impI, goal_cases)
    case 1 show ?case using flightD(1) [OF inv] by simp
  next
    case 2 show ?case using flightD(8) [OF inv] p by (auto split: if_splits)
  next
    case (3 key q) then show ?case using flightD(2) [OF inv] by (auto split: if_splits)
  next
    case (4 key q) then show ?case using flightD(2) [OF inv] by (auto split: if_splits)
  next
    case (5 k q) then show ?case using flightD(2) [OF inv] key by (auto split: if_splits)
  next
    case (6 k q)
    then have k: "k \<noteq> keys ! i" "coPublishing s k = Some q" by (auto split: if_splits)
    then obtain j where "j < length keys" "keys ! j = k" "leads (coPhase s ! j) = Some q"
      using flightD(3) [OF inv] by blast
    then show ?case using k(1) len by (intro exI [of _ j]) auto
  next
    case (7 j q) then show ?case using other flightD(4) [OF inv] len by (auto split: if_splits)
  next
    case (8 j k q) then show ?case using flightD(5) [OF inv] len by (auto split: if_splits)
  next
    case (9 j q)
    then have q: "j \<noteq> i" "q \<noteq> p" "coDone s q = None" "coPhase s ! j = Waiting q"
      using len by (auto split: if_splits)
    with flightD(6) [OF inv 9(1)] have "coPublishing s (keys ! j) = Some q" by simp
    then show ?case using q(2) mine by auto
  next
    case (10 j q) then show ?case using flightD(7) [OF inv] waits len by (fastforce split: if_splits)
  qed
qed

lemma coStep_flight: "coStep keys c s s' \<Longrightarrow> flightInv keys s \<Longrightarrow> flightInv keys s'"
proof (induction rule: coStep.induct)
  case (enter i s)
  show ?case
  proof (cases "keys ! i \<in> coPublished s \<or> coPublishing s (keys ! i) \<noteq> None")
    case True
    with enter show ?thesis by (auto simp: lockSection_def intro!: flight_setPhase)
  next
    case False
    with enter show ?thesis using flight_lead by (simp add: lockSection_def)
  qed
next
  case (wake i s p err)
  then show ?case by (auto simp: afterDone_def intro!: flight_setPhase split: option.split)
next
  case (cancel i s p m)
  then show ?case by (auto simp: afterCancel_def intro!: flight_setPhase)
next
  case (publishes i s p err)
  then show ?case by (auto simp: publishReturns_def flight_saves intro!: flight_setPhase)
next
  case (finish i s p err)
  then show ?case by (intro flight_finish)
qed

lemma historyD:
  assumes "historyInv keys P0 s"
  shows "P0 \<subseteq> coPublished s"
    and "key \<in> P0 \<Longrightarrow> key \<notin> fst ` set (coSaves s)"
    and "coSaves s = xs @ (key, None) # ys \<Longrightarrow> key \<notin> fst ` set ys"
    and "(key, None) \<in> set (coSaves s) \<longleftrightarrow> (\<exists>i < length keys. keys ! i = key \<and> uploaded (coPhase s ! i))"
    and "key \<in> coPublished s \<Longrightarrow> key \<in> P0 \<or> (key, None) \<in> set (coSaves s)"
    and "i < length keys \<Longrightarrow> j < length keys \<Longrightarrow> keys ! i = keys ! j \<Longrightarrow> uploaded (coPhase s ! i) \<Longrightarrow>
      uploaded (coPhase s ! j) \<Longrightarrow> i = j"
    and "i < length keys \<Longrightarrow> coPhase s ! i = Returned (Inr b) \<Longrightarrow> keys ! i \<in> coPublished s"
  using assms unfolding historyInv_def by (elim conjE, blast)+

lemma history_setPhase:
  assumes inv: "historyInv keys P0 s" and i: "i < length (coPhase s)" and "uploaded (coPhase s ! i) = uploaded ph"
    and "\<And>b. ph = Returned (Inr b) \<Longrightarrow> keys ! i \<in> coPublished s"
  shows "historyInv keys P0 (setPhase i ph s)"
proof -
  have same: "uploaded ((coPhase s)[i := ph] ! j) = uploaded (coPhase s ! j)" for j
    using assms(3) i by simp
  show ?thesis
    unfolding historyInv_def setPhase_fields same
  proof (intro conjI allI impI ballI, goal_cases)
    case 1 show ?case using historyD(1) [OF inv] .
  next
    case (2 key) then show ?case using historyD(2) [OF inv] by simp
  next
    case (3 key xs ys) then show ?case using historyD(3) [OF inv] by simp
  next
    case (4 key) show ?case using historyD(4) [OF inv] by simp
  next
    case (5 key) then show ?case using historyD(5) [OF inv] by simp
  next
    case (6 j k) then show ?case using historyD(6) [OF inv] by simp
  next
    case (7 j b) then show ?case using historyD(7) [OF inv] assms(4) i by (auto split: if_splits)
  qed
qed

lemma history_fields: "historyInv keys P0 (s\<lparr>coPublishing := pb, coNext := n\<rparr>) = historyInv keys P0 s"
  by (simp add: historyInv_def)

lemma history_publishes:
  assumes inv: "flightInv keys s" "historyInv keys P0 s" and i: "i < length keys" and ph: "coPhase s ! i = Leading p"
  shows "historyInv keys P0 (publishReturns (keys ! i) i p err s)"
proof -
  let ?key = "keys ! i"
  have len: "i < length (coPhase s)" using i flightD(1) [OF inv(1)] by simp
  have mine: "coPublishing s ?key = Some p" using flightD(4) [OF inv(1) i] ph by simp
  have unpublished: "?key \<notin> coPublished s" using flightD(2) [OF inv(1) mine] by simp
  have none: "\<not> uploaded (coPhase s ! j)" if j: "j < length keys" "keys ! j = ?key" for j
  proof
    assume "uploaded (coPhase s ! j)"
    then consider q where "coPhase s ! j = Finishing q None" | "coPhase s ! j = Returned (Inr False)"
      by (cases "coPhase s ! j") auto
    then show False
    proof cases
      case 1
      then have "j = i" using flightD(4,5) [OF inv(1)] i j mine ph by (metis leads.simps(1,2) option.inject)
      with 1 ph show False by simp
    next
      case 2
      with historyD(7) [OF inv(2) j(1)] j(2) unpublished show False by simp
    qed
  qed
  have unsaved: "(?key, None) \<notin> set (coSaves s)" using historyD(4) [OF inv(2)] none by blast
  show ?thesis
    unfolding historyInv_def publishReturns_def
  proof (intro conjI allI impI ballI, goal_cases)
    case 1 show ?case using historyD(1) [OF inv(2)] by simp
  next
    case (2 key) then show ?case using historyD(1,2) [OF inv(2)] unpublished by auto
  next
    case (3 key xs ys)
    then have saves: "coSaves s @ [(?key, err)] = xs @ (key, None) # ys" by simp
    show ?case
    proof (cases ys rule: rev_cases)
      case (snoc zs z)
      with saves have "coSaves s = xs @ (key, None) # zs" "z = (?key, err)" by simp_all
      then show ?thesis using historyD(3) [OF inv(2)] unsaved snoc by auto
    qed simp
  next
    case (4 key)
    show ?case
    proof (cases "key = ?key")
      case True
      have "(\<exists>j < length keys. keys ! j = ?key \<and> uploaded ((coPhase s)[i := Finishing p err] ! j)) \<longleftrightarrow> err = None"
        using none i len by (auto split: if_splits)
      with True unsaved show ?thesis by auto
    next
      case False
      have "(\<exists>j < length keys. keys ! j = key \<and> uploaded ((coPhase s)[i := Finishing p err] ! j)) \<longleftrightarrow>
          (\<exists>j < length keys. keys ! j = key \<and> uploaded (coPhase s ! j))"
        using False len ph by (metis phase_at)
      with False historyD(4) [OF inv(2), of key] show ?thesis by auto
    qed
  next
    case (5 key) then show ?case using historyD(5) [OF inv(2)] by auto
  next
    case (6 j k)
    show ?case
    proof (cases "keys ! j = ?key")
      case True
      then have "j = i" "k = i" using 6 none len by (auto split: if_splits)
      then show ?thesis by simp
    next
      case False
      then have "uploaded (coPhase s ! j)" "uploaded (coPhase s ! k)" using 6 len by (auto split: if_splits)
      then show ?thesis using historyD(6) [OF inv(2)] 6(1-3) by blast
    qed
  next
    case (7 j b) then show ?case using historyD(7) [OF inv(2)] len by (auto split: if_splits)
  qed
qed

lemma history_finish:
  assumes inv: "historyInv keys P0 s" and i: "i < length keys" "i < length (coPhase s)"
    and ph: "coPhase s ! i = Finishing p err"
  shows "historyInv keys P0 (finishSection (keys ! i) i p err s)"
proof -
  let ?ph = "Returned (case err of None \<Rightarrow> Inr False | Some e \<Rightarrow> Inl e)"
  have same: "uploaded ((coPhase s)[i := ?ph] ! j) = uploaded (coPhase s ! j)" for j
    using ph i by (simp split: option.split)
  have saved: "(keys ! i, None) \<in> set (coSaves s)" if "err = None"
    using historyD(4) [OF inv, of "keys ! i"] i ph that by auto
  show ?thesis
    unfolding historyInv_def finishSection_def setPhase_fields
  proof (intro conjI allI impI ballI, goal_cases)
    case 1 show ?case using historyD(1) [OF inv] by auto
  next
    case (2 key) then show ?case using historyD(2) [OF inv] by simp
  next
    case (3 key xs ys) then show ?case using historyD(3) [OF inv] by simp
  next
    case (4 key) show ?case using historyD(4) [OF inv, of key] same by simp
  next
    case (5 key) then show ?case using historyD(5) [OF inv] saved by (auto split: if_splits)
  next
    case (6 j k) then show ?case using historyD(6) [OF inv] same by simp
  next
    case (7 j b)
    then show ?case using historyD(7) [OF inv 7(1), of b] i by (cases "j = i") (auto split: option.splits)
  qed
qed

lemma coStep_inv: "coStep keys c s s' \<Longrightarrow> coInv keys P0 s \<Longrightarrow> coInv keys P0 s'"
proof (unfold coInv_def, elim conjE, intro conjI)
  assume step: "coStep keys c s s'" and inv: "flightInv keys s" "historyInv keys P0 s"
  show "flightInv keys s'" using coStep_flight [OF step inv(1)] .
  have len: "i < length (coPhase s)" if "i < length keys" for i using flightD(1) [OF inv(1)] that by simp
  from step inv len show "historyInv keys P0 s'"
  proof (induction rule: coStep.induct)
    case (enter i s)
    then show ?case
      by (auto simp: lockSection_def history_fields intro!: history_setPhase split: option.split)
  next
    case (wake i s p err)
    then show ?case
      using flightD(7) [of keys s i p] by (auto simp: afterDone_def intro!: history_setPhase split: option.split)
  next
    case (cancel i s p m)
    then show ?case by (auto simp: afterCancel_def intro!: history_setPhase)
  next
    case (publishes i s p err)
    then show ?case by (intro history_publishes)
  next
    case (finish i s p err)
    then show ?case by (intro history_finish) auto
  qed
qed

lemma coReachable_inv: "coReachable keys P0 n s \<Longrightarrow> coInv keys P0 s"
  by (induction rule: coReachable.induct) (auto intro: coStart_inv coStep_inv)

section \<open>The end of a run\<close>

text \<open>
  The weight of a caller: every step lowers the one of the caller that moves, and only the end of a
  publication, after which its caller is gone, raises those of the callers that it wakes.
\<close>

fun coWeight :: "nat \<Rightarrow> (nat \<rightharpoonup> go_error option) \<Rightarrow> phase \<Rightarrow> nat" where
  "coWeight n d Entering = 6 * n + 4"
| "coWeight n d (Waiting p) = 6 * n + (if d p = None then 1 else 5)"
| "coWeight n d (Leading p) = 6 * n + 3"
| "coWeight n d (Finishing p err) = 6 * n + 2"
| "coWeight n d (Returned r) = 0"

definition coMeasure :: "coState \<Rightarrow> nat" where
  "coMeasure s = sum_list (map (coWeight (length (coPhase s)) (coDone s)) (coPhase s))"

lemma sum_list_map_add_le:
  fixes f g :: "'a \<Rightarrow> nat"
  assumes "\<And>x. g x \<le> f x + k"
  shows "sum_list (map g xs) \<le> sum_list (map f xs) + k * length xs"
proof (induction xs)
  case (Cons x xs)
  with assms [of x] show ?case by simp
qed simp

lemma coMeasure_setPhase:
  assumes "i < length (coPhase s)"
    and "coWeight (length (coPhase s)) (coDone s) ph < coWeight (length (coPhase s)) (coDone s) (coPhase s ! i)"
  shows "coMeasure (setPhase i ph s) < coMeasure s"
proof -
  let ?f = "coWeight (length (coPhase s)) (coDone s)"
  have "?f (coPhase s ! i) \<le> sum_list (map ?f (coPhase s))"
    using assms(1) by (intro member_le_sum_list) auto
  with assms show ?thesis
    by (simp add: coMeasure_def map_update sum_list_update)
qed

lemma coMeasure_finish:
  assumes "i < length (coPhase s)" and "coPhase s ! i = Finishing p err"
  shows "coMeasure (finishSection key i p err s) < coMeasure s"
proof -
  let ?n = "length (coPhase s)" and ?d = "(coDone s)(p \<mapsto> err)"
  let ?f = "coWeight ?n (coDone s)" and ?g = "coWeight ?n ?d"
  have le: "?g ph \<le> ?f ph + 4" for ph by (cases ph) auto
  have "sum_list (map ?g (coPhase s)) \<le> sum_list (map ?f (coPhase s)) + 4 * ?n"
    by (rule sum_list_map_add_le) (rule le)
  moreover have "?g (coPhase s ! i) \<le> sum_list (map ?g (coPhase s))"
    using assms(1) by (intro member_le_sum_list) auto
  ultimately show ?thesis
    using assms by (simp add: coMeasure_def finishSection_def map_update sum_list_update)
qed

lemma coStep_measure: "coStep keys c s s' \<Longrightarrow> flightInv keys s \<Longrightarrow> coMeasure s' < coMeasure s"
proof (induction rule: coStep.induct)
  case (enter i s)
  then have i: "i < length (coPhase s)" using flightD(1) by metis
  have lead: "coMeasure (setPhase i (Leading n) (s\<lparr>coPublishing := pb, coNext := m\<rparr>)) < coMeasure s" for n m pb
    using coMeasure_setPhase [OF i, of "Leading n"] enter by (simp add: coMeasure_def)
  show ?case
    using enter i lead flightD(2) [of keys s "keys ! i"]
    by (auto simp: lockSection_def intro!: coMeasure_setPhase split: option.split)
next
  case (wake i s p err)
  then show ?case
    using flightD(1) [of keys s] by (auto simp: afterDone_def intro!: coMeasure_setPhase split: option.split)
next
  case (cancel i s p m)
  then show ?case using flightD(1) [of keys s] by (auto simp: afterCancel_def intro!: coMeasure_setPhase)
next
  case (publishes i s p err)
  then show ?case
    using flightD(1) [of keys s] coMeasure_setPhase [of i s "Finishing p err"]
    by (simp add: publishReturns_def coMeasure_def)
next
  case (finish i s p err)
  then show ?case using flightD(1) [of keys s] by (simp add: coMeasure_finish)
qed

lemma coStart_measure: "coMeasure (coStart keys P0) = length keys * (6 * length keys + 4)"
  by (simp add: coMeasure_def coStart_def map_replicate_const sum_list_replicate)

lemma coReachable_measure: "coReachable keys P0 n s \<Longrightarrow> n + coMeasure s \<le> length keys * (6 * length keys + 4)"
proof (induction rule: coReachable.induct)
  case start
  show ?case by (simp add: coStart_measure)
next
  case (more n s c s')
  have "flightInv keys s" using coReachable_inv [OF more.hyps(1)] by (simp add: coInv_def)
  from coStep_measure [OF more.hyps(2) this] more.IH show ?case by linarith
qed

lemma coInv_progress:
  assumes inv: "flightInv keys s" and i: "i < length keys" and ph: "\<nexists>r. coPhase s ! i = Returned r"
  shows "\<exists>s'. coStep keys False s s'"
proof -
  have leader: "\<exists>s'. coStep keys False s s'" if j: "j < length keys" and "leads (coPhase s ! j) = Some p" for j p
    using that by (cases "coPhase s ! j") (auto intro: publishes finish)
  show ?thesis
  proof (cases "coPhase s ! i")
    case Entering
    then show ?thesis using enter [OF i] by blast
  next
    case (Waiting p)
    show ?thesis
    proof (cases "coDone s p")
      case None
      from flightD(3) [OF inv flightD(6) [OF inv i Waiting None]] leader show ?thesis by blast
    next
      case (Some err)
      then show ?thesis using wake [OF i Waiting] by blast
    qed
  qed (use ph leader [OF i] in auto)
qed

section \<open>One caller after the other\<close>

text \<open>
  What one call of \<open>publishOnce\<close> does when no other is under way, on the set of published keys and the result;
  a run of such calls by several callers, each of which calls once.
\<close>

definition onceSpec :: "string \<Rightarrow> string set \<Rightarrow> go_error + bool \<Rightarrow> string set \<Rightarrow> bool" where
  "onceSpec key P r P' \<longleftrightarrow> (case r of
     Inr deduplicated \<Rightarrow> (deduplicated \<longleftrightarrow> key \<in> P) \<and> P' = insert key P
   | Inl e \<Rightarrow> P' = P)"

lemma publishOnce_onceSpec:
  assumes "publishOnce E key path n s = (r, s')"
  shows "onceSpec key (published s) r (published s')"
proof (cases "key \<in> published s")
  case True
  with assms show ?thesis by (auto simp: publishOnce_def onceSpec_def)
next
  case False
  obtain q s1 where run: "publish E key path n s = (q, s1)" by (metis surj_pair)
  have "published s1 = published s"
    using tripleD [OF triple_publish [of "published s" path "fileContent s path"] _ run] by blast
  with False run assms show ?thesis
    by (cases q) (auto simp: publishOnce_def onceSpec_def attempt_def andThen_def)
qed

type_synonym onceState = "string set \<times> (go_error + bool) option list"

inductive onceStep :: "string list \<Rightarrow> onceState \<Rightarrow> onceState \<Rightarrow> bool" for keys where
  call: "i < length keys \<Longrightarrow> results ! i = None \<Longrightarrow> onceSpec (keys ! i) P r P' \<Longrightarrow>
    onceStep keys (P, results) (P', results[i := Some r])"

fun resultOf :: "phase \<Rightarrow> (go_error + bool) option" where
  "resultOf (Returned r) = Some r"
| "resultOf _ = None"

definition onceView :: "coState \<Rightarrow> onceState" where
  "onceView s = (coPublished s, map resultOf (coPhase s))"

lemma onceView_quiet:
  assumes "i < length (coPhase s)" and "resultOf (coPhase s ! i) = None" and "resultOf ph = None"
  shows "onceView (setPhase i ph s) = onceView s"
  using assms by (simp add: onceView_def map_update) (metis length_map list_update_id nth_map)

lemma onceView_return:
  assumes "flightInv keys s" and "i < length keys" and "resultOf (coPhase s ! i) = None"
    and "onceSpec (keys ! i) (coPublished s) r (coPublished s')" and "coPhase s' = (coPhase s)[i := Returned r]"
  shows "onceStep keys (onceView s) (onceView s')"
proof -
  have "map resultOf (coPhase s) ! i = None" using assms(1-3) flightD(1) by (simp add: flightD(1))
  from call [OF assms(2) this assms(4)] show ?thesis
    using assms(5) by (simp add: onceView_def map_update)
qed

text \<open>Every step is invisible, or the whole call of the caller that returns.\<close>

lemma coStep_refines:
  "coStep keys c s s' \<Longrightarrow> flightInv keys s \<Longrightarrow> onceView s' = onceView s \<or> onceStep keys (onceView s) (onceView s')"
proof (induction rule: coStep.induct)
  case (enter i s)
  then have i: "i < length (coPhase s)" using flightD(1) by metis
  show ?case
  proof (cases "keys ! i \<in> coPublished s")
    case True
    then have "onceStep keys (onceView s) (onceView (setPhase i (Returned (Inr True)) s))"
      using enter by (intro onceView_return) (auto simp: onceSpec_def)
    with True show ?thesis by (simp add: lockSection_def)
  next
    case False
    have fields: "onceView (setPhase i ph (s\<lparr>coPublishing := pb, coNext := n\<rparr>)) = onceView (setPhase i ph s)"
      for ph pb n by (simp add: onceView_def)
    from False i enter show ?thesis
      by (auto simp: lockSection_def fields onceView_quiet split: option.split)
  qed
next
  case (wake i s p err)
  then have i: "i < length (coPhase s)" using flightD(1) by metis
  show ?case
  proof (cases err)
    case None
    then have "keys ! i \<in> coPublished s" using wake flightD(7) by metis
    with None wake have "onceStep keys (onceView s) (onceView (setPhase i (afterDone err) s))"
      by (intro onceView_return) (auto simp: onceSpec_def afterDone_def)
    then show ?thesis ..
  next
    case (Some e)
    with wake i show ?thesis by (simp add: afterDone_def onceView_quiet)
  qed
next
  case (cancel i s p m)
  then have "onceStep keys (onceView s) (onceView (setPhase i (afterCancel m) s))"
    by (intro onceView_return) (auto simp: onceSpec_def afterCancel_def)
  then show ?case ..
next
  case (publishes i s p err)
  then have "onceView (publishReturns (keys ! i) i p err s) = onceView s"
    using onceView_quiet [of i s "Finishing p err"] flightD(1) [of keys s]
    by (simp add: publishReturns_def onceView_def)
  then show ?case ..
next
  case (finish i s p err)
  then have "keys ! i \<notin> coPublished s" using flightD(2,4) [of keys s] by (metis leads.simps(2))
  with finish have "onceStep keys (onceView s) (onceView (finishSection (keys ! i) i p err s))"
    by (intro onceView_return [where r = "case err of None \<Rightarrow> Inr False | Some e \<Rightarrow> Inl e"])
      (auto simp: onceSpec_def finishSection_def split: option.split)
  then show ?case ..
qed

section \<open>The properties\<close>

text \<open>
  C35. Uploads are coalesced (\<open>publishOnce\<close>): however the calls of many callers interleave, at most one of them
  at a time publishes a key; a key that was published before, or by a call of \<open>publish\<close> that has returned
  without an error, is never handed to \<open>publish\<close> again; a caller is told that its key is in the cache only if
  it is, and at most one caller per key is told that it has uploaded it.
\<close>

theorem publishOnce_coalesces:
  assumes "coReachable keys P0 n s"
  shows "(\<forall>i < length keys. \<forall>j < length keys. keys ! i = keys ! j \<longrightarrow>
      leads (coPhase s ! i) \<noteq> None \<longrightarrow> leads (coPhase s ! j) \<noteq> None \<longrightarrow> i = j) \<and>
    (\<forall>key \<in> P0. key \<notin> fst ` set (coSaves s)) \<and>
    (\<forall>key xs ys. coSaves s = xs @ (key, None) # ys \<longrightarrow> key \<notin> fst ` set ys) \<and>
    (\<forall>i < length keys. \<forall>deduplicated. coPhase s ! i = Returned (Inr deduplicated) \<longrightarrow>
      keys ! i \<in> P0 \<or> (keys ! i, None) \<in> set (coSaves s)) \<and>
    (\<forall>i < length keys. \<forall>j < length keys. keys ! i = keys ! j \<longrightarrow>
      coPhase s ! i = Returned (Inr False) \<longrightarrow> coPhase s ! j = Returned (Inr False) \<longrightarrow> i = j)"
proof -
  have inv: "flightInv keys s" "historyInv keys P0 s" using coReachable_inv [OF assms] by (simp_all add: coInv_def)
  have single: "i = j" if "i < length keys" "j < length keys" "keys ! i = keys ! j"
    "leads (coPhase s ! i) \<noteq> None" "leads (coPhase s ! j) \<noteq> None" for i j
    using flightD(4,5) [OF inv(1)] that by (metis option.inject not_None_eq)
  have told: "keys ! i \<in> P0 \<or> (keys ! i, None) \<in> set (coSaves s)"
    if "i < length keys" "coPhase s ! i = Returned (Inr b)" for i b
    using historyD(5,7) [OF inv(2)] that by blast
  have one: "i = j" if "i < length keys" "j < length keys" "keys ! i = keys ! j"
    "coPhase s ! i = Returned (Inr False)" "coPhase s ! j = Returned (Inr False)" for i j
    using historyD(6) [OF inv(2) that(1-3)] that(4,5) by simp
  from single told one historyD(2,3) [OF inv(2)] show ?thesis by blast
qed

text \<open>
  C36. Every call returns (\<open>publishOnce\<close>): \<open>N\<close> callers take at most \<open>N * (6 * N + 4)\<close> steps together, whatever the
  uploads end with, and none is stuck: as long as one has not returned, some caller can take a step without
  its context being cancelled.
\<close>

theorem publishOnce_returns:
  assumes "coReachable keys P0 n s"
  shows "n \<le> length keys * (6 * length keys + 4) \<and>
    ((\<exists>i < length keys. \<forall>r. coPhase s ! i \<noteq> Returned r) \<longrightarrow> (\<exists>s'. coStep keys False s s'))"
proof -
  have "flightInv keys s" using coReachable_inv [OF assms] by (simp add: coInv_def)
  from coInv_progress [OF this] coReachable_measure [OF assms] show ?thesis by (meson add_leD1)
qed

text \<open>
  C37. Concurrent calls refine sequential ones (\<open>publishOnce\<close>): the results that the callers have got so far and
  the set of published keys are those of some calls made one after the other, each of which, like the
  \<open>publishOnce\<close> of \<open>Resolve\<close>, is a duplicate exactly if its key is published already, adds its key when
  it succeeds and changes nothing when it fails.
\<close>

theorem publishOnce_atomic:
  assumes "coReachable keys P0 n s"
  shows "(onceStep keys)\<^sup>*\<^sup>* (P0, replicate (length keys) None) (onceView s)"
  using assms
proof (induction rule: coReachable.induct)
  case start
  show ?case by (simp add: onceView_def coStart_def)
next
  case (more n s c s')
  have "flightInv keys s" using coReachable_inv [OF more.hyps(1)] by (simp add: coInv_def)
  from coStep_refines [OF more.hyps(2) this] more.IH show ?case
    by (metis rtranclp.rtrancl_into_rtrancl)
qed

end
