(* ===== verification/ClientExamples.thy ===== *)
theory ClientExamples
  imports ServerExamples Command SafeError Coalescing
begin

text \<open>
  The properties of the two clients, of concurrent publications and of the process at concrete inputs: an
  Actions cache in memory, a REST service that lists three keys, two callers with the same key, and a
  process that is stopped by a signal.
\<close>

section \<open>A cache in memory\<close>

definition memoryCache :: "(string \<rightharpoonup> bytes, bytes) actionsCache" where
  "memoryCache = \<lparr>acLoad = (\<lambda>key w. (Inr (w key), w)), acWriteTo = (\<lambda>data w. (([data], None), w)),
     acSave = (\<lambda>key blob w. if w key = None then (None, w(key \<mapsto> blobContent blob)) else (Some ''reserved'', w)),
     acDone = (\<lambda>_ w. (False, w))\<rparr>"

definition entriesOf :: "(string \<rightharpoonup> bytes) \<Rightarrow> (string \<times> bytes) set" where
  "entriesOf w = {(key, data). w key = Some data}"

lemma entriesOf_update: "w key = None \<Longrightarrow> entriesOf (w(key \<mapsto> data)) = insert (key, data) (entriesOf w)"
  by (auto simp: entriesOf_def split: if_splits)

lemma entriesOf_key: "key \<in> fst ` entriesOf w \<longleftrightarrow> w key \<noteq> None"
  by (force simp: entriesOf_def)

lemma memoryCache_laws: "actionsCache_laws memoryCache entriesOf"
  unfolding actionsCache_laws_def
  by (intro conjI allI impI)
    (auto simp: memoryCache_def entriesOf_key entriesOf_update split: if_splits)

definition memoryEnv :: "(string \<rightharpoonup> bytes, bytes) env" where
  "memoryEnv = \<lparr>envFault = (\<lambda>_ w. (None, w)), envNow = (\<lambda>w. (0, w)), envExists = (\<lambda>_ w. (Inr False, w)),
     envLoad = (\<lambda>_ w. (([], Inr False), w)), envSave = (\<lambda>_ _ w. (None, w)), envList = (\<lambda>_ _ w. (Inr [], w)),
     envWire = exampleWire, envIpld = exampleIpld []\<rparr>"

lemma memoryEnv_spares: "sparesCache memoryEnv entriesOf"
  by (simp add: sparesCache_def memoryEnv_def)

theorem ActionsBackend_refines_witness:
  "storingBackend (onActionsCache memoryCache memoryEnv) entriesOf"
  using ActionsBackend_refines [OF memoryCache_laws memoryEnv_spares] by blast

text \<open>Another job holds the key, and its entry appears at the second look.\<close>

definition contendedCache :: "(nat, unit) actionsCache" where
  "contendedCache = \<lparr>acLoad = (\<lambda>key w. (Inr (if w \<ge> 1 then Some () else None), Suc w)),
     acWriteTo = (\<lambda>entry w. (([], None), w)), acSave = (\<lambda>key blob w. (Some ''reserved'', w)),
     acDone = (\<lambda>_ w. (False, w))\<rparr>"

theorem backend_Save_race_witness: "fst (backend_Save contendedCache ''key'' [1, 2] 2 0) = None"
proof -
  let ?found = "\<lambda>k :: nat. Inr (if k \<ge> 1 then Some () else None) :: string + unit option"
  have found: "\<exists>k < 3. (\<forall>j \<le> k. \<not> False) \<and> (\<exists>entry. ?found k = Inr (Some entry))"
    by (intro exI [of _ 1]) simp
  have "fst (backend_Save contendedCache ''key'' [1, 2] 2 0) =
      (case Some ''reserved'' of None \<Rightarrow> None
       | Some m \<Rightarrow> if \<exists>k < 3. (\<forall>j \<le> k. \<not> False) \<and> (\<exists>entry. ?found k = Inr (Some entry)) then None
           else Some (''save cache entry: '' @ m))"
    by (rule backend_Save_race [where ws = id and vs = id]) (simp_all add: contendedCache_def)
  with found show ?thesis by simp
qed

text \<open>The context ends in the second wait, before the entry appears.\<close>

definition abandonedCache :: "(nat, unit) actionsCache" where
  "abandonedCache = contendedCache\<lparr>acDone := (\<lambda>delay w. (delay = 300, w))\<rparr>"

lemma abandoned_save: "fst (backend_Save abandonedCache ''key'' [1, 2] 2 0) = Some (''save cache entry: '' @ ''reserved'')"
  by (simp add: backend_Save_def saveDelays_def abandonedCache_def contendedCache_def)

section \<open>A service that lists three keys\<close>

definition threeKeys :: "string list" where
  "threeKeys = [''p-1'', ''q-1'', ''p-2'']"

definition exampleCatalog :: actionsCatalog where
  "exampleCatalog = \<lparr>acBaseURL = \<lparr>urlScheme = ''https'', urlHost = ''h'', urlPath = ''/'', urlQuery = Map.empty\<rparr>,
     acRepository = ''o/r'', acToken = ''t''\<rparr>"

definition threeKeysClient :: "unit restClient" where
  "threeKeysClient = \<lparr>rcNewRequest = (\<lambda>_. Inr ()),
     rcDo = (\<lambda>_ w. (Inr \<lparr>lpStatus = 200, lpListed = Inr threeKeys\<rparr>, w))\<rparr>"

theorem catalog_List_returns_witness:
  "\<exists>r w'. catalog_List threeKeysClient exampleCatalog ''p'' 10 () = Some (r, w')"
  using catalog_List_returns [of threeKeysClient exampleCatalog "''p''" 10 "()"]
  by (simp add: filtersKeys_def threeKeysClient_def threeKeys_def) blast

theorem catalog_List_complete_witness:
  "catalog_List threeKeysClient exampleCatalog ''p'' 10 () = Some (Inr [''p-1'', ''p-2''], ())"
proof -
  have "pagesOf threeKeysClient exampleCatalog ''p'' threeKeys"
    by (auto simp: pagesOf_def threeKeysClient_def threeKeys_def)
  from catalog_List_complete [OF this, of 10 "()"] show ?thesis by (simp add: threeKeys_def)
qed

section \<open>Two callers with one key\<close>

text \<open>The first leads, the second waits for it; the upload succeeds, and the second is woken.\<close>

definition twoCallers :: "string list" where
  "twoCallers = [''key'', ''key'']"

definition bothDone :: coState where
  "bothDone = \<lparr>coPublished = {''key''}, coPublishing = Map.empty, coDone = [0 \<mapsto> None], coNext = 1,
     coPhase = [Returned (Inr False), Returned (Inr True)], coSaves = [(''key'', None)]\<rparr>"

lemma twoCallers_run: "coReachable twoCallers {} 5 bothDone"
proof -
  let ?s0 = "coStart twoCallers {}"
  let ?s1 = "lockSection (twoCallers ! 0) 0 ?s0"
  let ?s2 = "lockSection (twoCallers ! 1) 1 ?s1"
  let ?s3 = "publishReturns (twoCallers ! 0) 0 0 None ?s2"
  let ?s4 = "finishSection (twoCallers ! 0) 0 0 None ?s3"
  note defs = coStart_def twoCallers_def lockSection_def publishReturns_def finishSection_def setPhase_def
  have s1: "?s1 = \<lparr>coPublished = {}, coPublishing = [''key'' \<mapsto> 0], coDone = Map.empty, coNext = 1,
      coPhase = [Leading 0, Entering], coSaves = []\<rparr>"
    by (simp add: defs)
  have s2: "?s2 = \<lparr>coPublished = {}, coPublishing = [''key'' \<mapsto> 0], coDone = Map.empty, coNext = 1,
      coPhase = [Leading 0, Waiting 0], coSaves = []\<rparr>"
    unfolding s1 by (simp add: defs)
  have s3: "?s3 = \<lparr>coPublished = {}, coPublishing = [''key'' \<mapsto> 0], coDone = Map.empty, coNext = 1,
      coPhase = [Finishing 0 None, Waiting 0], coSaves = [(''key'', None)]\<rparr>"
    unfolding s2 by (simp add: defs)
  have s4: "?s4 = \<lparr>coPublished = {''key''}, coPublishing = Map.empty, coDone = [0 \<mapsto> None], coNext = 1,
      coPhase = [Returned (Inr False), Waiting 0], coSaves = [(''key'', None)]\<rparr>"
    unfolding s3 by (simp add: defs)
  have two: "length twoCallers = 2" by (simp add: twoCallers_def)
  have "coReachable twoCallers {} (Suc 0) ?s1"
    by (rule more [OF start enter]) (simp_all add: two, simp add: coStart_def twoCallers_def)
  then have "coReachable twoCallers {} (Suc (Suc 0)) ?s2"
    by (rule more [OF _ enter]) (simp_all only: s1, simp_all add: two)
  then have "coReachable twoCallers {} (Suc (Suc (Suc 0))) ?s3"
    by (rule more [OF _ publishes]) (simp_all only: s2, simp_all add: two)
  then have "coReachable twoCallers {} (Suc (Suc (Suc (Suc 0)))) ?s4"
    by (rule more [OF _ finish]) (simp_all only: s3, simp_all add: two)
  then have "coReachable twoCallers {} (Suc (Suc (Suc (Suc (Suc 0))))) (setPhase 1 (afterDone None) ?s4)"
    by (rule more [OF _ wake [where ongoing = 0]]) (simp_all only: s4, simp_all add: two)
  moreover have "setPhase 1 (afterDone None) ?s4 = bothDone"
    unfolding s4 by (simp add: setPhase_def afterDone_def bothDone_def)
  ultimately show ?thesis by (simp add: eval_nat_numeral)
qed

theorem publishOnce_coalesces_witness:
  "coPhase bothDone ! 1 = Returned (Inr True) \<and> (twoCallers ! 1, None) \<in> set (coSaves bothDone)"
proof -
  have two: "1 < length twoCallers" "coPhase bothDone ! 1 = Returned (Inr True)"
    by (simp_all add: twoCallers_def bothDone_def)
  from publishOnce_coalesces [OF twoCallers_run] have
    "\<forall>i < length twoCallers. \<forall>d. coPhase bothDone ! i = Returned (Inr d) \<longrightarrow>
      twoCallers ! i \<in> {} \<or> (twoCallers ! i, None) \<in> set (coSaves bothDone)" by blast
  with two show ?thesis by blast
qed

theorem publishOnce_returns_witness: "(5 :: nat) \<le> length twoCallers * (6 * length twoCallers + 4)"
  using publishOnce_returns [OF twoCallers_run] by blast

theorem publishOnce_atomic_witness:
  "(onceStep twoCallers)\<^sup>*\<^sup>* ({}, [None, None]) ({''key''}, [Some (Inr False), Some (Inr True)])"
  using publishOnce_atomic [OF twoCallers_run] by (simp add: onceView_def bothDone_def twoCallers_def numeral_2_eq_2)

section \<open>A process that a signal stops\<close>

definition exampleHost :: "(unit, bytes, unit) host" where
  "exampleHost = \<lparr>hoVersion = ''dev'', hoPID = 1, hoGetenv = (\<lambda>_. ''true''), hoAbs = Inr, hoMkdirTemp = Inr ''spool'',
     hoTryEnv = Inr (Some ((), True)), hoListen = (\<lambda>_. Inr 8080),
     hoParseURL = (\<lambda>_. Inr (acBaseURL exampleCatalog)), hoEnv = (\<lambda>_ _. exampleEnv Map.empty []),
     hoWriteFile = (\<lambda>_. None), hoRename = (\<lambda>_. None), hoStop = Signal, hoShutdown = None\<rparr>"

definition exampleFlags :: flags where
  "exampleFlags = flagDefaults\<lparr>flReadyFile := ''ready''\<rparr>"

lemma exampleHost_starts: "\<exists>s. New (exampleEnv Map.empty []) (serverConfig exampleHost exampleFlags ''spool'' False) () = Inr s"
proof -
  let ?c = "serverConfig exampleHost exampleFlags ''spool'' False"
  have "prefixPattern ''bazel-http-v1''" by code_simp
  then have "checkConfig ?c = Inr ?c"
    by (simp add: checkConfig_def checkPackConfig_def serverConfig_def exampleFlags_def flagDefaults_def exampleHost_def)
  moreover have "cfgStorageMode ?c \<noteq> ''packs''"
    by (simp add: serverConfig_def exampleFlags_def flagDefaults_def)
  ultimately show ?thesis by (simp add: New_def fault_def exampleEnv_def)
qed

lemma exampleHost_runs: "\<exists>p. run exampleHost exampleFlags [] (started ()) = (Inr (), p)"
proof -
  obtain s where New: "New (exampleEnv Map.empty []) (serverConfig exampleHost exampleFlags ''spool'' False) () = Inr s"
    using exampleHost_starts by blast
  have backend: "NewActionsBackend (hoGetenv exampleHost) (hoTryEnv exampleHost) = Inr ()"
    by (simp add: NewActionsBackend_def equalFold_def exampleHost_def)
  obtain r s' where "server_Close (exampleEnv Map.empty []) (session (exampleEnv Map.empty []) [] s) = (r, s')"
    by (metis surj_pair)
  note close = shutdownSequence_run [OF _ this, of _ exampleHost exampleFlags]
  have flags: "\<not> flShowVersion exampleFlags" "flReadyFile exampleFlags = ''ready''" "flCacheDir exampleFlags = []"
    "flStorageMode exampleFlags = ''objects''"
    by (simp_all add: exampleFlags_def flagDefaults_def)
  have host: "hoMkdirTemp exampleHost = Inr ''spool''" "hoListen exampleHost port = Inr 8080" "hoWriteFile exampleHost path = None"
    "hoStop exampleHost = Signal" "hoEnv exampleHost client catalog = exampleEnv Map.empty []" for port path client catalog
    by (simp_all add: exampleHost_def)
  show ?thesis
    by (simp add: run_def withSpool_def onListener_def serve_def SafeCacheDir_def openCatalog_def startServer_def
        deferring_def attempt_def andThen_def lifted_def labelled_def writeProcessFile_def started_def
        flags host backend New close)
qed

theorem run_completes_witness:
  "\<exists>p es. run exampleHost exampleFlags [] (started ()) = (Inr (), p) \<and>
     prEffects p = es @ [SignalsStopped, ListenerClosed, Removed ''spool'']"
proof -
  obtain p where p: "run exampleHost exampleFlags [] (started ()) = (Inr (), p)" using exampleHost_runs by blast
  have "\<not> flShowVersion exampleFlags" by (simp add: exampleFlags_def flagDefaults_def)
  with run_completes [OF p] obtain dir port and r :: "go_error + unit" and s' :: "unit server" where
    "prEffects p = (if flCacheDir exampleFlags = [] then [MadeDir dir] else []) @
      [Listening port, Unset ''BAZEL_GHA_CACHE_SHUTDOWN_TOKEN'', Serving,
       Wrote (flReadyFile exampleFlags) (readyInfo exampleHost port), ServerShutdown] @
      (if hoShutdown exampleHost \<noteq> None then [ServerClosed] else []) @
      Flushed (r = Inr ()) # statsEffects exampleHost (flStatsFile exampleFlags) (stats s') @
      [SignalsStopped, ListenerClosed, Removed dir]"
    unfolding Let_def by (simp only: if_False) blast
  then obtain es where effects: "prEffects p = es @ [SignalsStopped, ListenerClosed, Removed dir]" by simp
  have "\<exists>es. prEffects p = es @ [Removed ''spool'']"
    by (rule run_removes [OF _ _ _ p])
      (simp_all add: exampleFlags_def flagDefaults_def SafeCacheDir_def attempt_def andThen_def lifted_def labelled_def
        exampleHost_def)
  with effects p show ?thesis by auto
qed

end
