(* ===== verification/Pending.thy ===== *)
theory Pending
  imports System
begin

text \<open>
  The pending work of a packed server in every state that it can reach: it consists of objects of the server. Every
  pending CAS object is the object under its key, every pending action has the CID of the content of the object
  under its key, and no action is pending twice.
\<close>

section \<open>Pending work in order\<close>

definition actionPending :: "'c ipld \<Rightarrow> 'w server \<Rightarrow> string \<Rightarrow> pendingAction \<Rightarrow> bool" where
  "actionPending L s digest pa \<longleftrightarrow> digestPattern digest \<and>
     objects s (objectKey (cfgKeyPrefix (cfg s)) ''ac'' digest) = Some (paObject pa) \<and>
     (\<exists>c. rawCIDForData L (fileContent s (objPath (paObject pa))) = Inr c \<and> paCID pa = cidString L c)"

definition pendingOf :: "'c ipld \<Rightarrow> 'w server \<Rightarrow> packStore \<Rightarrow> bool" where
  "pendingOf L s p \<longleftrightarrow> stageInv p \<and> distinct (psPendingACOrder p) \<and> set (psPendingACOrder p) = dom (psPendingActions p) \<and>
     (\<forall>digest ob. psPendingCAS p digest = Some ob \<longrightarrow> objects s (casKey (cfgKeyPrefix (cfg s)) digest) = Some ob) \<and>
     (\<forall>digest pa. psPendingActions p digest = Some pa \<longrightarrow> actionPending L s digest pa)"

definition pendingInv :: "'c ipld \<Rightarrow> 'w server \<Rightarrow> bool" where
  "pendingInv L s \<longleftrightarrow> serverInv s \<and> 0 \<le> cfgMaxBlobSize (cfg s) \<and> (\<forall>p. packs s = Some p \<longrightarrow> pendingOf L s p)"

lemma pendingInv_fields [simp]:
  "pendingInv L (s\<lparr>world := w\<rparr>) = pendingInv L s" "pendingInv L (s\<lparr>stats := st\<rparr>) = pendingInv L s"
  "pendingInv L (count n s) = pendingInv L s"
  by (simp_all add: pendingInv_def pendingOf_def actionPending_def fileContent_def count_def)

lemma pendingOf_cong:
  "objects s' = objects s \<Longrightarrow> cfg s' = cfg s \<Longrightarrow> (\<And>key ob. objects s key = Some ob \<Longrightarrow> files s' (objPath ob) = files s (objPath ob)) \<Longrightarrow>
     pendingOf L s' p = pendingOf L s p"
  by (simp add: pendingOf_def actionPending_def fileContent_def cong: conj_cong)

text \<open>Pending work stays in order while the server evolves and only loads packs.\<close>

definition pendingView :: "'w server \<Rightarrow> packStore option" where
  "pendingView s = map_option (\<lambda>p. p\<lparr>psLoadedPacks := Map.empty\<rparr>) (packs s)"

lemma pendingOf_loaded [simp]: "pendingOf L s (p\<lparr>psLoadedPacks := m\<rparr>) = pendingOf L s p"
  by (simp add: pendingOf_def stageInv_def)

lemma pendingOf_view:
  assumes "pendingView s' = pendingView s" and "packs s' = Some p'"
  shows "\<exists>p. packs s = Some p \<and> pendingOf L s p' = pendingOf L s p"
proof -
  from assms obtain p where p: "packs s = Some p" and same: "p'\<lparr>psLoadedPacks := Map.empty\<rparr> = p\<lparr>psLoadedPacks := Map.empty\<rparr>"
    by (cases "packs s") (auto simp: pendingView_def)
  have "pendingOf L s p' = pendingOf L s (p'\<lparr>psLoadedPacks := Map.empty\<rparr>)" by (rule pendingOf_loaded [symmetric])
  also have "\<dots> = pendingOf L s p" unfolding same by (rule pendingOf_loaded)
  finally show ?thesis using p by blast
qed

lemma pendingOf_evolves:
  assumes "pendingOf L s p" and ev: "evolves s s'"
  shows "pendingOf L s' p"
proof -
  have cfg: "cfg s' = cfg s" using ev by (simp add: evolves_def)
  note object = evolves_object [OF ev]
  have content: "fileContent s' (objPath ob) = fileContent s (objPath ob)" if "objects s key = Some ob" for key ob
    using ev owned_object [OF that] by (simp add: evolves_def fileContent_def)
  have "actionPending L s' digest pa" if "actionPending L s digest pa" for digest pa
    using that object content unfolding actionPending_def cfg by (elim conjE exE) simp
  then show ?thesis using assms(1) object unfolding pendingOf_def cfg by blast
qed

lemma pendingInv_evolves:
  assumes "pendingInv L s" and "evolves s s'" and "pendingView s' = pendingView s"
  shows "pendingInv L s'"
  using assms pendingOf_view [OF assms(3)] pendingOf_evolves [OF _ assms(2)]
  unfolding pendingInv_def evolves_def by metis

text \<open>For an object that is known to be there.\<close>

definition pendingAt :: "'c ipld \<Rightarrow> config \<Rightarrow> string \<Rightarrow> object \<Rightarrow> 'w server \<Rightarrow> bool" where
  "pendingAt L c key ob s \<longleftrightarrow> pendingInv L s \<and> cfg s = c \<and> objects s key = Some ob"

definition viewIs :: "packStore option \<Rightarrow> 'w server \<Rightarrow> bool" where
  "viewIs q s \<longleftrightarrow> pendingView s = q"

interpretation view: reads E "viewIs q" for E q
proof
  show "keeps (viewIs q) (fault E operation)" for operation
    by (rule keeps_fault) (simp add: viewIs_def pendingView_def)
  show "viewIs q (updatePacks (\<lambda>p. p\<lparr>psLoadedPacks := g p\<rparr>) s)" if "viewIs q s" for s g
    using that by (cases "packs s") (simp_all add: viewIs_def pendingView_def updatePacks_def)
qed (simp_all add: viewIs_def pendingView_def)

lemma pendingInv_keeps:
  assumes ev: "\<And>s0. 0 \<le> cfgMaxBlobSize (cfg s0) \<Longrightarrow> keeps (evolves s0) m" and view: "\<And>q. keeps (viewIs q) m"
  shows "keeps (pendingInv L) m" and "keeps (pendingAt L c key ob) m"
proof -
  have run: "evolves s s' \<and> pendingInv L s'" if inv: "pendingInv L s" and "m s = (r, s')" for s r s'
  proof -
    have s: "0 \<le> cfgMaxBlobSize (cfg s)" "serverInv s" using inv by (simp_all add: pendingInv_def)
    have "evolves s s'" by (rule keepsD [OF ev [OF s(1)] evolves_refl [OF s(2)] that(2)])
    moreover have "pendingView s' = pendingView s"
      using keepsD [OF view [of "pendingView s"] _ that(2)] by (simp add: viewIs_def)
    ultimately show ?thesis using pendingInv_evolves [OF inv] by blast
  qed
  then show "keeps (pendingInv L) m" by (intro keepsI) blast
  show "keeps (pendingAt L c key ob) m"
  proof (rule keepsI)
    fix s r s'
    assume pre: "pendingAt L c key ob s" and "m s = (r, s')"
    then have "evolves s s'" "pendingInv L s'" using run by (auto simp: pendingAt_def)
    with pre evolves_object [of s s' key ob] show "pendingAt L c key ob s'" by (simp add: pendingAt_def evolves_def)
  qed
qed

section \<open>Staging\<close>

lemma stageCAS_cases:
  obtains "stageCASLocked n digest ob p = p" "psPendingCAS p digest \<noteq> None \<or> psCAS p digest \<noteq> None"
  | "psPendingCAS p digest = None" "psCAS p digest = None" "stageCASLocked n digest ob p = requestFlushLocked n (p\<lparr>
      psPendingCAS := (psPendingCAS p)(digest \<mapsto> ob), psPendingCASOrder := psPendingCASOrder p @ [digest],
      psPendingBytes := psPendingBytes p + objSize ob\<rparr>)"
  by (cases "psPendingCAS p digest = None \<and> psCAS p digest = None") (auto simp: stageCASLocked_def)

lemma requestFlush_fields [simp]:
  "psCAS (requestFlushLocked n p) = psCAS p" "psActions (requestFlushLocked n p) = psActions p"
  "psHeads (requestFlushLocked n p) = psHeads p" "psPendingCAS (requestFlushLocked n p) = psPendingCAS p"
  "psPendingCASOrder (requestFlushLocked n p) = psPendingCASOrder p" "psPendingActions (requestFlushLocked n p) = psPendingActions p"
  "psPendingACOrder (requestFlushLocked n p) = psPendingACOrder p" "psPendingBytes (requestFlushLocked n p) = psPendingBytes p"
  by (simp_all add: requestFlushLocked_def)

lemma pendingOf_stageCAS:
  assumes "pendingOf L s p" and "objects s (casKey (cfgKeyPrefix (cfg s)) digest) = Some ob"
  shows "pendingOf L s (stageCASLocked n digest ob p)"
proof (cases rule: stageCAS_cases [of n digest ob p])
  case 1
  then show ?thesis using assms(1) by simp
next
  case 2
  have "stageInv (stageCASLocked n digest ob p)" using assms(1) by (auto simp: pendingOf_def intro: stageInv_stageCAS)
  then show ?thesis using assms unfolding 2(3) pendingOf_def by simp
qed

text \<open>An action that is staged again has the same content: no conflict arises within a process.\<close>

lemma pendingOf_stageAction:
  assumes "pendingOf L s p" and "digestPattern digest"
    and "objects s (objectKey (cfgKeyPrefix (cfg s)) ''ac'' digest) = Some ob"
    and "rawCIDForData L (fileContent s (objPath ob)) = Inr c"
  shows "psPendingActions p digest \<noteq> None \<Longrightarrow> stageActionLocked n digest ob closure (cidString L c) p = p"
    and "pendingOf L s (stageActionLocked n digest ob closure (cidString L c) p)"
proof -
  show again: "stageActionLocked n digest ob closure (cidString L c) p = p" if "psPendingActions p digest \<noteq> None"
  proof -
    obtain pa where pa: "psPendingActions p digest = Some pa" using \<open>psPendingActions p digest \<noteq> None\<close> by blast
    then have "actionPending L s digest pa" using assms(1) by (simp add: pendingOf_def)
    then have "paCID pa = cidString L c" using assms(3,4) by (auto simp: actionPending_def)
    then show ?thesis using pa by (simp add: stageActionLocked_def)
  qed
  show "pendingOf L s (stageActionLocked n digest ob closure (cidString L c) p)"
  proof (cases "psPendingActions p digest")
    case (Some pa)
    with again assms(1) show ?thesis by simp
  next
    case None
    have "stageInv (stageActionLocked n digest ob closure (cidString L c) p)"
      using assms(1) by (auto simp: pendingOf_def intro: stageInv_stageAction)
    moreover have "digest \<notin> set (psPendingACOrder p)" using assms(1) None by (auto simp: pendingOf_def)
    ultimately show ?thesis
      using assms None unfolding pendingOf_def actionPending_def by (simp add: stageActionLocked_def)
  qed
qed

text \<open>Unlike a CAS object, an action that is published already, in a flush or a discovered manifest, is staged again.\<close>

lemma published_action_staged:
  assumes "psActions p digest = Some a" and "psPendingActions p digest = None"
  shows "psPendingActions (stageActionLocked n digest ob closure c p) digest =
      Some \<lparr>paObject = ob, paClosure = sortDigestReferences closure, paCID = c\<rparr> \<and>
    psActions (stageActionLocked n digest ob closure c p) digest = Some a"
  using assms by (simp add: stageActionLocked_def)

lemma pendingAt_update:
  assumes "pendingAt L c key ob s" and "evolves s (updatePacks f s)" and "\<And>p. packs s = Some p \<Longrightarrow> pendingOf L s p \<Longrightarrow> pendingOf L s (f p)"
  shows "pendingAt L c key ob (updatePacks f s)"
proof -
  have "pendingOf L (updatePacks f s) p = pendingOf L s p" for p by (rule pendingOf_cong) (simp_all add: updatePacks_def)
  with assms show ?thesis by (auto simp: pendingAt_def pendingInv_def evolves_def updatePacks_def)
qed

lemma pending_stageCAS:
  assumes "pendingAt L c (casKey (cfgKeyPrefix c) digest) ob s"
  shows "pendingAt L c (casKey (cfgKeyPrefix c) digest) ob (stageCAS digest ob s)"
proof -
  have s: "serverInv s" "objects s (casKey (cfgKeyPrefix (cfg s)) digest) = Some ob"
    using assms by (auto simp: pendingAt_def pendingInv_def)
  then have "evolves s (stageCAS digest ob s)" by (simp add: evolves_refl)
  then show ?thesis unfolding stageCAS_def by (rule pendingAt_update [OF assms]) (rule pendingOf_stageCAS [OF _ s(2)])
qed

lemma pending_stageAction:
  assumes "digestPattern digest"
  shows "keeps (pendingAt (envIpld E) c (objectKey (cfgKeyPrefix c) ''ac'' digest) ob) (stageAction E digest ob closure)"
    (is "keeps ?I _")
proof (rule keepsI)
  fix s r s'
  assume pre: "?I s" and run: "stageAction E digest ob closure s = (r, s')"
  obtain q s1 where read: "readFile E (objPath ob) s = (q, s1)" by (metis surj_pair)
  from readFile_world [OF read] obtain w where s1: "s1 = s\<lparr>world := w\<rparr>" "\<And>data. q = Inr data \<Longrightarrow> files s (objPath ob) = Some data"
    by blast
  have start: "?I s1" using pre by (simp add: pendingAt_def s1(1))
  show "?I s'"
  proof (cases "\<exists>data content. q = Inr data \<and> rawCIDForData (envIpld E) data = Inr content")
    case False
    then have "s' = s1" using run read by (auto simp: stageAction_def attempt_def andThen_def split: sum.splits)
    then show ?thesis using start by simp
  next
    case True
    then obtain data content where data: "q = Inr data" "rawCIDForData (envIpld E) data = Inr content" by blast
    let ?f = "stageActionLocked (cfgPackSize (cfg s1)) digest ob closure (cidString (envIpld E) content)"
    have s': "s' = updatePacks ?f s1" using run read data by (simp add: stageAction_def attempt_def andThen_def)
    have object: "objects s1 (objectKey (cfgKeyPrefix (cfg s1)) ''ac'' digest) = Some ob" "serverInv s1"
      using start by (auto simp: pendingAt_def pendingInv_def)
    have "fileContent s1 (objPath ob) = data" using s1(2) [OF data(1)] by (simp add: s1(1) fileContent_def)
    with data(2) have cid: "rawCIDForData (envIpld E) (fileContent s1 (objPath ob)) = Inr content" by simp
    have "evolves s1 (updatePacks ?f s1)" using object(2) by (simp add: evolves_refl)
    then show ?thesis
      unfolding s' by (rule pendingAt_update [OF start]) (rule pendingOf_stageAction(2) [OF _ assms object(1) cid])
  qed
qed

section \<open>Requests\<close>

lemma pending_stageUpload:
  assumes "kind = ''cas'' \<or> kind = ''ac''" and "digestPattern digest"
  shows "keeps (pendingAt (envIpld E) c (objectKey (cfgKeyPrefix c) kind digest) ob) (stageUpload E kind digest ob)"
proof (cases "kind = ''cas''")
  case True
  have "stageUpload E kind digest ob = updating (stageCAS digest ob) (returning noContent)"
    by (simp add: stageUpload_def True)
  then show ?thesis
    unfolding True casKey_objectKey by (simp only:) (intro keeps_rules, rule pending_stageCAS)
next
  case False
  with assms(1) have ac: "kind = ''ac''" by blast
  note quiet = pendingInv_keeps(2) [OF keeps_validations(3) view.kept_validations(3)]
    pendingInv_keeps(2) [OF keeps_packedError view.kept_failures(3)] pendingInv_keeps(2) [OF keeps_saveError view.kept_failures(2)]
  show ?thesis
    unfolding stageUpload_def if_not_P [OF False] ac
    by (intro keeps_rules quiet pending_stageAction assms(2)) (simp_all add: pendingAt_def)
qed

lemma pending_finishUpload:
  assumes "kind = ''cas'' \<or> kind = ''ac''" and "digestPattern digest"
  shows "keeps (pendingAt (envIpld E) c (objectKey (cfgKeyPrefix c) kind digest) ob) (finishUpload E key kind digest ob path n)"
    (is "keeps ?I _")
proof (rule keepsI)
  fix s r s'
  assume pre: "?I s" and run: "finishUpload E key kind digest ob path n s = (r, s')"
  show "?I s'"
  proof (cases "packs s")
    case None
    have "serverInv s" "0 \<le> cfgMaxBlobSize (cfg s)" using pre by (auto simp: pendingAt_def pendingInv_def)
    then have ev: "evolves s s'" using keepsD [OF keeps_finishUpload evolves_refl run] by simp
    with None pre evolves_object [OF ev] show ?thesis by (auto simp: pendingAt_def pendingInv_def evolves_def)
  next
    case (Some p)
    with run have "s' = count DiscardedUploads s \<or> stageUpload E kind digest ob s = (r, s')"
      by (auto simp: finishUpload_def split: if_splits)
    then show ?thesis using pre keepsD [OF pending_stageUpload [OF assms] pre] by (auto simp: pendingAt_def)
  qed
qed

text \<open>An upload, up to the removal of its spool file.\<close>

lemma pending_cleanUp:
  assumes "pendingInv L t" and "uploaded s r key kind digest path result t"
  shows "pendingInv L (cleanUp path (snd result) t)"
proof (cases "snd result")
  case False
  let ?t = "removeFile path t"
  have "path \<notin> owned t" using assms(2) False by (auto simp: uploaded_def scratch_def)
  then have "files ?t (objPath ob) = files t (objPath ob)" if "objects t key = Some ob" for key ob
    using owned_object [OF that] by (auto simp: removeFile_def)
  then have "pendingOf L ?t p = pendingOf L t p" for p by (intro pendingOf_cong) (simp_all add: removeFile_def)
  moreover have "serverInv ?t" using evolves_cleanUp [OF assms(2)] False by (simp add: cleanUp_def evolves_def)
  ultimately show ?thesis using assms(1) False by (simp add: pendingInv_def cleanUp_def removeFile_def)
qed (use assms in \<open>simp add: cleanUp_def\<close>)

lemma pending_accepted:
  assumes inv: "pendingInv (envIpld E) s" and path: "parseObjectPath (reqPath r) = Some (kind, digest)"
    and up: "entered s r (objectKey (cfgKeyPrefix (cfg s)) kind digest) kind digest path result t"
    and run: "finishUpload E (objectKey (cfgKeyPrefix (cfg s)) kind digest) kind digest (fst result) path (reqContentLength r) t
      = (response, t')"
  shows "pendingInv (envIpld E) (cleanUp path (snd result) t')"
proof -
  let ?key = "objectKey (cfgKeyPrefix (cfg s)) kind digest"
  have parts: "kind = ''cas'' \<or> kind = ''ac''" "digestPattern digest" using path_object [OF path] by auto
  have t: "evolves s t" "packs t = packs s" "objects t ?key = Some (fst result)" and size: "0 \<le> cfgMaxBlobSize (cfg s)"
    using up inv by (auto simp: entered_def uploaded_def pendingInv_def)
  have "pendingInv (envIpld E) t" using pendingInv_evolves [OF inv t(1)] t(2) by (simp add: pendingView_def)
  then have "pendingAt (envIpld E) (cfg s) ?key (fst result) t" using t by (simp add: pendingAt_def evolves_def)
  from keepsD [OF pending_finishUpload [OF parts] this run] have "pendingInv (envIpld E) t'" by (simp add: pendingAt_def)
  moreover have "uploaded s r ?key kind digest path result t'"
    using keepsD [OF uploaded_finish [OF size] _ run] up by (simp add: entered_def)
  ultimately show ?thesis by (rule pending_cleanUp)
qed

interpretation pending: accepts E "pendingInv (envIpld E)" for E
proof
  show "serverInv s \<and> 0 \<le> cfgMaxBlobSize (cfg s)" if "pendingInv (envIpld E) s" for s
    using that by (simp add: pendingInv_def)
  show "pendingInv (envIpld E) t" if "pendingInv (envIpld E) s" "evolves s t" "unchanged s t" for s t
    using pendingInv_evolves [OF that(1,2)] that(3) by (simp add: unchanged_def pendingView_def)
  show "pendingInv (envIpld E) t" if inv: "pendingInv (envIpld E) s" and path: "parseObjectPath (reqPath r) = Some (kind, digest)"
    and run: "handleRead E r (objectKey (cfgKeyPrefix (cfg s)) kind digest) kind digest s = (response, t)"
    for s r kind digest response t
  proof (rule pendingInv_evolves [OF inv])
    have s: "serverInv s" "0 \<le> cfgMaxBlobSize (cfg s)" using inv by (simp_all add: pendingInv_def)
    show "evolves s t" by (rule keepsD [OF keeps_handleRead [OF keyOk_path [OF path s(2)]] evolves_refl [OF s(1)] run])
    show "pendingView t = pendingView s"
      using keepsD [OF view.kept_handleRead [of "pendingView s"] _ run] by (simp add: viewIs_def)
  qed
qed (simp, rule pending_accepted)

section \<open>Flushes\<close>

lemma pendingOf_commit:
  assumes "pendingOf L s p" and "stageInv (removePendingLocked ds as (applyManifestLocked i m p))"
  shows "pendingOf L s (removePendingLocked ds as (applyManifestLocked i m p))"
  using assms unfolding pendingOf_def
  by (auto simp: removePending_fields applyManifest_fields filterPending_def restrict_map_def split: if_splits)

lemma pending_flushOneLocked: "keeps (pendingInv L) (flushOneLocked E)"
proof (rule keepsI)
  fix s r s'
  assume inv: "pendingInv L s" and run: "flushOneLocked E s = (r, s')"
  have "keeps (evolves s) (flushOneLocked E)"
    unfolding flushOneLocked_def by (intro keeps_rules keeps_buildPackLocked keeps_commitPack)
  from keepsD [OF this evolves_refl run] inv have ev: "evolves s s'" by (simp add: pendingInv_def)
  note result = flushOneLocked_packs [OF run refl refl]
  show "pendingInv L s'"
  proof (cases "r = Inr True")
    case False
    with result have "packs s' = packs s" by (cases r) (auto split: bool.splits)
    with pendingInv_evolves [OF inv ev] show ?thesis by (simp add: pendingView_def)
  next
    case True
    show ?thesis
    proof (cases "packs s")
      case None
      with ev inv show ?thesis by (auto simp: pendingInv_def evolves_def)
    next
      case (Some p)
      with inv have p: "pendingOf L s p" by (simp add: pendingInv_def)
      with Some have "packedInv s" by (simp add: packedInv_def pendingOf_def)
      then have packed: "packedInv s'" by (rule keepsD [OF flushOneLocked_packedInv _ run])
      from True result Some obtain ds as i m where
        p': "packs s' = Some (removePendingLocked ds as (applyManifestLocked i m p))" by auto
      with packed have "stageInv (removePendingLocked ds as (applyManifestLocked i m p))" by (simp add: packedInv_def)
      then have "pendingOf L s' (removePendingLocked ds as (applyManifestLocked i m p))"
        using pendingOf_evolves [OF pendingOf_commit [OF p] ev] by blast
      with p' inv ev show ?thesis by (simp add: pendingInv_def evolves_def)
    qed
  qed
qed

section \<open>Every reachable state\<close>

lemma pending_New:
  assumes "New E c w = Inr s"
  shows "pendingInv L s"
proof -
  have inv: "systemInv s" and none: "\<And>p. packs s = Some p \<Longrightarrow> nothingPending p" using New_start [OF assms] by simp_all
  have "pendingOf L s p" if "packs s = Some p" for p
  proof -
    have "stageInv p" using inv that by (simp add: systemInv_def)
    then show ?thesis using none [OF that] by (simp add: pendingOf_def nothingPending_def)
  qed
  moreover have "0 \<le> cfgMaxBlobSize (cfg s)" using inv by (simp add: systemInv_def validConfig_def)
  ultimately show ?thesis using inv by (simp add: pendingInv_def systemInv_def)
qed

lemma pending_step:
  assumes "step E rely s s'" and "pendingInv (envIpld E) s"
  shows "pendingInv (envIpld E) s'"
proof (rule step_keeps [where I = "pendingInv (envIpld E)", OF assms])
  show "keeps (pendingInv (envIpld E)) (serveHTTP E r)" for r by (rule pending.kept_serveHTTP)
  show "keeps (pendingInv (envIpld E)) (flush E all)" for all by (rule keeps_flush [OF pending_flushOneLocked])
  show "pendingInv (envIpld E) (updatePacks (\<lambda>p. p\<lparr>psFlushRequested := False\<rparr>) t)" if "pendingInv (envIpld E) t" for t
  proof -
    let ?t = "updatePacks (\<lambda>p. p\<lparr>psFlushRequested := False\<rparr>) t"
    have "evolves t ?t" using that by (intro evolves_updatePacks evolves_refl) (simp_all add: pendingInv_def)
    moreover have "pendingOf (envIpld E) t (p\<lparr>psFlushRequested := False\<rparr>) = pendingOf (envIpld E) t p" for p
      by (simp add: pendingOf_def)
    ultimately show ?thesis
      using that pendingOf_evolves [of "envIpld E" t _ ?t] by (auto simp: pendingInv_def evolves_def updatePacks_def)
  qed
qed simp_all

lemma reachable_pendingInv: "reachable E rely c w s \<Longrightarrow> pendingInv (envIpld E) s"
  by (induction rule: reachable.induct) (simp_all add: pending_New pending_step)

text \<open>
  C6. Nothing that is pending is lost or altered (\<open>stageCAS\<close>, \<open>stageAction\<close>, \<open>flushOneLocked\<close>): in every state that a
  packed server reaches, through requests, rounds of the flush worker and \<open>Close\<close>, every digest that is pending
  is in its order list exactly once; no pending CAS digest is published already; a pending CAS object is a local
  object whose file has the SHA-256 and the size that will be packed; a pending action is a local object under its
  digest, and its CID is the CID of the content of its file. Staging the object of a pending action again changes
  nothing, so that within a process no upload ever finds a conflict. (An action that is pending may be published:
  \<open>stageAction\<close> does not look, see \<open>published_action_staged\<close>.)
\<close>

theorem reachable_pending:
  assumes "reachable E rely c w s" and "packs s = Some p"
  shows "distinct (psPendingCASOrder p) \<and> set (psPendingCASOrder p) = dom (psPendingCAS p) \<and>
    distinct (psPendingACOrder p) \<and> set (psPendingACOrder p) = dom (psPendingActions p) \<and>
    dom (psPendingCAS p) \<inter> dom (psCAS p) = {} \<and>
    (\<forall>digest ob. psPendingCAS p digest = Some ob \<longrightarrow> objects s (casKey (cfgKeyPrefix (cfg s)) digest) = Some ob \<and>
       (\<exists>data. files s (objPath ob) = Some data \<and> sha256_hex data = digest \<and> objSize ob = int (length data))) \<and>
    (\<forall>digest pa. psPendingActions p digest = Some pa \<longrightarrow>
       objects s (objectKey (cfgKeyPrefix (cfg s)) ''ac'' digest) = Some (paObject pa) \<and>
       (\<exists>data content. files s (objPath (paObject pa)) = Some data \<and> objSize (paObject pa) = int (length data) \<and>
          rawCIDForData (envIpld E) data = Inr content \<and> paCID pa = cidString (envIpld E) content)) \<and>
    (\<forall>digest ob content n closure. psPendingActions p digest \<noteq> None \<and>
       objects s (objectKey (cfgKeyPrefix (cfg s)) ''ac'' digest) = Some ob \<and>
       rawCIDForData (envIpld E) (fileContent s (objPath ob)) = Inr content \<longrightarrow>
       stageActionLocked n digest ob closure (cidString (envIpld E) content) p = p)"
proof -
  have inv: "serverInv s" "pendingOf (envIpld E) s p"
    using reachable_pendingInv [OF assms(1)] assms(2) by (simp_all add: pendingInv_def)
  have object: "\<exists>data. files s (objPath ob) = Some data \<and> objSize ob = int (length data) \<and>
      (\<forall>d. key = casKey (cfgKeyPrefix (cfg s)) d \<longrightarrow> sha256_hex data = d)" if "objects s key = Some ob" for key ob
    using inv(1) that by (simp add: serverInv_def storedOk_def)
  have cas: "objects s (casKey (cfgKeyPrefix (cfg s)) digest) = Some ob \<and>
      (\<exists>data. files s (objPath ob) = Some data \<and> sha256_hex data = digest \<and> objSize ob = int (length data))"
    if "psPendingCAS p digest = Some ob" for digest ob
  proof -
    have "objects s (casKey (cfgKeyPrefix (cfg s)) digest) = Some ob" using inv(2) that by (simp add: pendingOf_def)
    with object [OF this] show ?thesis by auto
  qed
  have action: "objects s (objectKey (cfgKeyPrefix (cfg s)) ''ac'' digest) = Some (paObject pa) \<and>
      (\<exists>data content. files s (objPath (paObject pa)) = Some data \<and> objSize (paObject pa) = int (length data) \<and>
         rawCIDForData (envIpld E) data = Inr content \<and> paCID pa = cidString (envIpld E) content)"
    if "psPendingActions p digest = Some pa" for digest pa
  proof -
    have pending: "actionPending (envIpld E) s digest pa" using inv(2) that by (simp add: pendingOf_def)
    then have ob: "objects s (objectKey (cfgKeyPrefix (cfg s)) ''ac'' digest) = Some (paObject pa)" by (simp add: actionPending_def)
    from object [OF this] pending ob show ?thesis by (auto simp: actionPending_def fileContent_def)
  qed
  have order: "distinct (psPendingCASOrder p)" "set (psPendingCASOrder p) = dom (psPendingCAS p)" "distinct (psPendingACOrder p)"
    "set (psPendingACOrder p) = dom (psPendingActions p)" "dom (psPendingCAS p) \<inter> dom (psCAS p) = {}"
    using inv(2) by (simp_all add: pendingOf_def stageInv_def)
  have again: "stageActionLocked n digest ob closure (cidString (envIpld E) content) p = p"
    if again: "psPendingActions p digest \<noteq> None \<and> objects s (objectKey (cfgKeyPrefix (cfg s)) ''ac'' digest) = Some ob \<and>
      rawCIDForData (envIpld E) (fileContent s (objPath ob)) = Inr content" for digest ob content n closure
  proof -
    obtain pa where "psPendingActions p digest = Some pa" using again by blast
    then have "digestPattern digest" using inv(2) by (simp add: pendingOf_def actionPending_def)
    with again show ?thesis by (intro pendingOf_stageAction(1) [OF inv(2)]) simp_all
  qed
  show ?thesis by (intro conjI order) (use cas action again in blast)+
qed

end
