(* ===== verification/Backlog.thy ===== *)
theory Backlog
  imports Pending
begin

text \<open>
  A packed server that has discovered no manifests and has not flushed yet. Its objects are those that were
  uploaded, within the size limit, and the pending bytes bound what is pending. Requests keep this in any order,
  and what an upload has staged stays pending.
\<close>

section \<open>Before the first flush\<close>

definition unflushed :: "packStore \<Rightarrow> bool" where
  "unflushed p \<longleftrightarrow> stageInv p \<and> psCAS p = Map.empty \<and> psActions p = Map.empty \<and> psHeads p = {} \<and>
     totalSize (psPendingCAS p) (psPendingCASOrder p) \<le> psPendingBytes p"

definition fresh :: "'w server \<Rightarrow> bool" where
  "fresh s \<longleftrightarrow> serverInv s \<and> 0 \<le> cfgMaxBlobSize (cfg s) \<and>
     (\<forall>key ob. objects s key = Some ob \<longrightarrow> objSize ob \<le> cfgMaxBlobSize (cfg s)) \<and>
     (\<exists>p. packs s = Some p \<and> unflushed p)"

lemma fresh_fields [simp]:
  "fresh (s\<lparr>world := w\<rparr>) = fresh s" "fresh (s\<lparr>stats := st\<rparr>) = fresh s" "fresh (count n s) = fresh s"
  by (simp_all add: fresh_def count_def)

lemma fresh_unflushed: "fresh s \<Longrightarrow> packs s = Some p \<Longrightarrow> unflushed p"
  by (auto simp: fresh_def)

lemma fresh_size: "fresh s \<Longrightarrow> objects s key = Some ob \<Longrightarrow> 0 \<le> objSize ob"
proof -
  assume "fresh s" and "objects s key = Some ob"
  then have "storedOk s key ob" by (simp add: fresh_def serverInv_def)
  then show "0 \<le> objSize ob" by (auto simp: storedOk_def)
qed

lemma fresh_evolves:
  assumes "fresh s" and "evolves s t" and "packs t = packs s"
    and "\<And>key ob. objects t key = Some ob \<Longrightarrow> objSize ob \<le> cfgMaxBlobSize (cfg s)"
  shows "fresh t"
  using assms by (auto simp: fresh_def evolves_def)

text \<open>Nothing is restored from packs, and so resolving changes no object.\<close>

definition freshIn :: "config \<Rightarrow> (string \<rightharpoonup> object) \<Rightarrow> 'w server \<Rightarrow> bool" where
  "freshIn c os s \<longleftrightarrow> fresh s \<and> cfg s = c \<and> objects s = os"

lemma freshIn_fields [simp]:
  "freshIn c os (s\<lparr>world := w\<rparr>) = freshIn c os s" "freshIn c os (s\<lparr>stats := st\<rparr>) = freshIn c os s"
  "freshIn c os (count n s) = freshIn c os s"
  by (simp_all add: freshIn_def)

lemma fresh_resolve:
  "keeps (freshIn c os) (packs_resolve E key kind digest)" "keeps (freshIn c os) (server_resolve E key kind digest)"
proof -
  have look: "\<exists>t. lookupEntry kind digest s = (None, t) \<and> freshIn c os t" if start: "freshIn c os s" for s
  proof -
    obtain p where "packs s = Some p" "unflushed p" using start unfolding freshIn_def fresh_def by blast
    then have "psCAS (thePacks s) = Map.empty" "psActions (thePacks s) = Map.empty"
      by (simp_all add: thePacks_def unflushed_def)
    then have "lookupEntry kind digest s = (None, s) \<or> lookupEntry kind digest s = (None, count ActionDigestConflicts s)"
      by (simp add: lookupEntry_def)
    then show ?thesis using start by (elim disjE) (simp_all del: ex_simps)
  qed
  show packed: "keeps (freshIn c os) (packs_resolve E key kind digest)"
  proof (rule keepsI)
    fix s r s'
    assume pre: "freshIn c os s" and run: "packs_resolve E key kind digest s = (r, s')"
    obtain t where t: "lookupEntry kind digest s = (None, t)" "freshIn c os t" using look [OF pre] by blast
    with pre run show "freshIn c os s'"
      by (auto simp: packs_resolve_def andThen_def split: option.splits)
  qed
  show "keeps (freshIn c os) (server_resolve E key kind digest)"
  proof (rule keepsI)
    fix s r s'
    assume pre: "freshIn c os s" and run: "server_resolve E key kind digest s = (r, s')"
    then have "packs s \<noteq> None" by (auto simp: freshIn_def fresh_def)
    with run have "s' = s \<or> packs_resolve E key kind digest s = (r, s')"
      by (auto simp: server_resolve_def split: option.splits)
    with pre keepsD [OF packed pre] show "freshIn c os s'" by blast
  qed
qed

interpretation fresh: resolves E "freshIn c os" for E c os
proof
  show "keeps (freshIn c os) (fault E operation)" for operation by (rule keeps_fault) simp
qed (simp_all add: fresh_resolve)

section \<open>Staging\<close>

lemma totalSize_upd: "d \<notin> set ds \<Longrightarrow> totalSize (m(d \<mapsto> ob)) ds = totalSize m ds"
  unfolding totalSize_def by (rule arg_cong [where f = sum_list], rule map_cong) auto

lemma unflushed_stageCAS:
  assumes "unflushed p" and "0 \<le> objSize ob"
  shows "unflushed (stageCASLocked n digest ob p)"
proof (cases rule: stageCAS_cases [of n digest ob p])
  case 1
  then show ?thesis using assms(1) by simp
next
  case 2
  have "stageInv (stageCASLocked n digest ob p)" using assms(1) by (auto simp: unflushed_def intro: stageInv_stageCAS)
  moreover have "digest \<notin> set (psPendingCASOrder p)" using assms(1) 2(1) by (auto simp: unflushed_def stageInv_def)
  ultimately show ?thesis
    using assms unfolding 2(3) unflushed_def by (simp add: totalSize_upd)
qed

lemma unflushed_stageAction:
  assumes "unflushed p" and "0 \<le> objSize ob"
  shows "unflushed (stageActionLocked n digest ob closure c p)"
proof -
  have "stageInv (stageActionLocked n digest ob closure c p)" using assms(1) by (auto simp: unflushed_def intro: stageInv_stageAction)
  then show ?thesis
    using assms by (auto simp: unflushed_def stageActionLocked_def split: option.splits)
qed

lemma freshIn_update:
  assumes "freshIn c os s" and "evolves s (updatePacks f s)" and "\<And>p. unflushed p \<Longrightarrow> unflushed (f p)"
  shows "freshIn c os (updatePacks f s)"
  using assms by (auto simp: freshIn_def fresh_def evolves_def updatePacks_def)

lemma fresh_stages:
  assumes "freshIn c os s" and "0 \<le> objSize ob"
  shows "freshIn c os (stageCAS digest ob s)" and "freshIn c os (updatePacks (stageActionLocked n digest ob closure i) s)"
proof -
  have "serverInv s" using assms(1) by (simp add: freshIn_def fresh_def)
  then have "evolves s (stageCAS digest ob s)" "evolves s (updatePacks (stageActionLocked n digest ob closure i) s)"
    by (simp_all add: evolves_refl)
  then show "freshIn c os (stageCAS digest ob s)" "freshIn c os (updatePacks (stageActionLocked n digest ob closure i) s)"
    unfolding stageCAS_def
    by (auto intro: freshIn_update assms(1) unflushed_stageCAS unflushed_stageAction assms(2))
qed

lemma fresh_finishUpload:
  assumes "0 \<le> objSize ob"
  shows "keeps (freshIn c os) (finishUpload E key kind digest ob path n)"
proof -
  have staged: "keeps (freshIn c os) (stageUpload E kind digest ob)"
    unfolding stageUpload_def stageAction_def
    by (intro keeps_rules fresh.kept_validations fresh.kept_failures fresh.kept_readings fresh_stages assms) simp_all
  show ?thesis
  proof (rule keepsI)
    fix s r s'
    assume pre: "freshIn c os s" and run: "finishUpload E key kind digest ob path n s = (r, s')"
    then have "packs s \<noteq> None" by (auto simp: freshIn_def fresh_def)
    with run have "s' = count DiscardedUploads s \<or> stageUpload E kind digest ob s = (r, s')"
      by (auto simp: finishUpload_def split: if_splits)
    with pre keepsD [OF staged pre] show "freshIn c os s'" by auto
  qed
qed

section \<open>Requests\<close>

lemma fresh_entered:
  assumes "fresh s" and "entered s r key kind digest path result t" and "reqContentLength r \<le> cfgMaxBlobSize (cfg s)"
  shows "fresh t"
proof (rule fresh_evolves [OF assms(1)])
  show ev: "evolves s t" and "packs t = packs s" using assms(2) by (auto simp: entered_def uploaded_def)
  fix key' ob
  assume ob: "objects t key' = Some ob"
  show "objSize ob \<le> cfgMaxBlobSize (cfg s)"
  proof (cases "objects s key' = Some ob")
    case True
    then show ?thesis using assms(1) by (auto simp: fresh_def)
  next
    case False
    with ob assms(2) have new: "key' = key" "ob = fst result" by (auto simp: entered_def split: if_splits)
    then have none: "objects s key = None"
      using False evolves_object [OF ev, of key] ob by (cases "objects s key") auto
    then have "objPath ob = path" "files t path = Some (concat (reqBody r))"
      "int (length (concat (reqBody r))) = reqContentLength r"
      using assms(2) new by (auto simp: entered_def uploaded_def)
    moreover have "storedOk t key' ob" using ev ob by (simp add: evolves_def serverInv_def)
    ultimately show ?thesis using assms(3) by (auto simp: storedOk_def)
  qed
qed

interpretation fresh: accepts E fresh for E
proof
  show "serverInv s \<and> 0 \<le> cfgMaxBlobSize (cfg s)" if "fresh s" for s using that by (simp add: fresh_def)
  show "fresh t" if "fresh s" "evolves s t" "unchanged s t" for s t
    using that by (intro fresh_evolves [OF that(1)]) (auto simp: unchanged_def fresh_def)
  show "fresh t" if "fresh s" "handleRead E r (objectKey (cfgKeyPrefix (cfg s)) kind digest) kind digest s = (response, t)"
    for s r kind digest response t
    using keepsD [OF fresh.kept_handleRead [of "cfg s" "objects s"] _ that(2)] that(1) by (simp add: freshIn_def)
  show "fresh (cleanUp path (snd result) t')"
    if s: "fresh s" and size: "reqContentLength r \<le> cfgMaxBlobSize (cfg s)"
      and up: "entered s r (objectKey (cfgKeyPrefix (cfg s)) kind digest) kind digest path result t"
      and run: "finishUpload E (objectKey (cfgKeyPrefix (cfg s)) kind digest) kind digest (fst result) path (reqContentLength r) t
        = (response, t')" for s r kind digest path result t response t'
  proof -
    let ?key = "objectKey (cfgKeyPrefix (cfg s)) kind digest"
    have t: "fresh t" "objects t ?key = Some (fst result)" "0 \<le> cfgMaxBlobSize (cfg s)"
      using fresh_entered [OF s up size] up s by (auto simp: entered_def uploaded_def fresh_def)
    then have "freshIn (cfg t) (objects t) t" by (simp add: freshIn_def)
    from keepsD [OF fresh_finishUpload [OF fresh_size [OF t(1,2)]] this run] have t': "fresh t'" by (simp add: freshIn_def)
    have "uploaded s r ?key kind digest path result t'"
      using keepsD [OF uploaded_finish [OF t(3)] _ run] up by (simp add: entered_def)
    from evolves_cleanUp [OF this] t' show ?thesis by (simp add: fresh_def evolves_def)
  qed
qed simp

section \<open>The backlog\<close>

definition backlog :: "'c ipld \<Rightarrow> 'w server \<Rightarrow> bool" where
  "backlog L s \<longleftrightarrow> pendingInv L s \<and> fresh s"

lemma backlog_served: "keeps (backlog (envIpld E)) (serveHTTP E r)" "keeps (backlog (envIpld E)) (serveAll E rs)"
  unfolding keeps_def backlog_def
  using triple_conj [OF pending.kept_serveHTTP [unfolded keeps_def] fresh.kept_serveHTTP [unfolded keeps_def]]
    triple_conj [OF pending.kept_serveAll [unfolded keeps_def] fresh.kept_serveAll [unfolded keeps_def]] by blast+

lemma backlog_New:
  assumes "New E c w = Inr s" and "packs s = Some emptyPackStore"
  shows "backlog L s" and "cfg s = c" and "cfgStorageMode c = ''packs''"
proof -
  note start = New_start [OF assms(1)]
  then show cfg: "cfg s = c" and "cfgStorageMode c = ''packs''"
    using assms(2) by (auto simp: systemInv_def split: if_splits)
  have "unflushed emptyPackStore"
    using stageInv_empty by (simp add: unflushed_def) (simp add: emptyPackStore_def)
  then have "fresh s"
    using start assms(2) unfolding fresh_def systemInv_def validConfig_def cfg by simp
  then show "backlog L s" using pending_New [OF assms(1)] by (simp add: backlog_def)
qed

text \<open>An accepted upload of a new object is pending, with the body that was sent.\<close>

lemma put_pending:
  assumes log: "backlog (envIpld E) s" and run: "serveHTTP E r s = (response, s')" and "reqMethod r = ''PUT''"
    and path: "parseObjectPath (reqPath r) = Some (''cas'', digest)" and "rsStatus response = 204"
    and "cfgWriteEnabled (cfg s)" and new: "objects s (casKey (cfgKeyPrefix (cfg s)) digest) = None"
  shows "\<exists>p ob. packs s' = Some p \<and> psPendingCAS p digest = Some ob \<and>
    objects s' (casKey (cfgKeyPrefix (cfg s)) digest) = Some ob \<and> fileContent s' (objPath ob) = concat (reqBody r)"
    (is "?pending s'")
proof -
  let ?key = "objectKey (cfgKeyPrefix (cfg s)) ''cas'' digest"
  have inv: "serverInv s" "0 \<le> cfgMaxBlobSize (cfg s)" using log by (simp_all add: backlog_def fresh_def)
  obtain p where p: "packs s = Some p" "pendingOf (envIpld E) s p" "unflushed p"
    using log by (auto simp: backlog_def fresh_def pendingInv_def)
  have none: "psPendingCAS p digest = None" "psCAS p digest = None"
  proof -
    show "psPendingCAS p digest = None" using p(2) new by (cases "psPendingCAS p digest") (auto simp: pendingOf_def)
    show "psCAS p digest = None" using p(3) by (simp add: unflushed_def)
  qed
  have "rsStatus response = 204 \<longrightarrow> ?pending s'"
  proof (rule triple_put [OF inv run assms(3) path, where Q = "\<lambda>response s'. rsStatus response = 204 \<longrightarrow> ?pending s'"])
    show "rsStatus q = 204 \<longrightarrow> ?pending t" if "rsStatus q \<in> refusedStatus" for q :: response and t
      using that by (auto simp: refusedStatus_def)
    show "triple (entered s r ?key ''cas'' digest path result)
      (finishUpload E ?key ''cas'' digest (fst result) path (reqContentLength r))
      (\<lambda>response t. rsStatus response = 204 \<longrightarrow> ?pending (cleanUp path (snd result) t))"
      for path and result :: "object \<times> bool"
    proof (rule tripleI)
      fix t q t'
      assume up: "entered s r ?key ''cas'' digest path result t"
        and finish: "finishUpload E ?key ''cas'' digest (fst result) path (reqContentLength r) t = (q, t')"
      have t: "packs t = Some p" "cfg t = cfg s" "objects t ?key = Some (fst result)" "snd result"
        "objPath (fst result) = path" "files t path = Some (concat (reqBody r))"
        using up p(1) new by (auto simp: entered_def uploaded_def evolves_def casKey_objectKey)
      have t': "t' = stageCAS digest (fst result) t"
        using finish t(1,2) assms(6) by (simp add: finishUpload_def stageUpload_def)
      have "psPendingCAS (stageCASLocked n digest (fst result) p) digest = Some (fst result)" for n
        using none by (simp add: stageCASLocked_def)
      then show "rsStatus q = 204 \<longrightarrow> ?pending (cleanUp path (snd result) t')"
        using t unfolding t' by (simp add: cleanUp_def stageCAS_def updatePacks_def fileContent_def casKey_objectKey)
    qed
  qed
  then show ?thesis using assms(5) by blast
qed

text \<open>What is pending stays pending until a flush.\<close>

definition stillPending :: "string \<Rightarrow> object \<Rightarrow> 'w server \<Rightarrow> bool" where
  "stillPending digest ob s \<longleftrightarrow> (\<exists>p. packs s = Some p \<and> psPendingCAS p digest = Some ob)"

lemma stillPending_update:
  "stillPending digest ob s \<Longrightarrow> (\<And>p. psPendingCAS p digest = Some ob \<Longrightarrow> psPendingCAS (f p) digest = Some ob) \<Longrightarrow>
     stillPending digest ob (updatePacks f s)"
  by (auto simp: stillPending_def updatePacks_def)

interpretation staying: serves E "stillPending digest ob" for E digest ob
proof
  show "keeps (stillPending digest ob) (fault E operation)" for operation
    by (rule keeps_fault) (simp add: stillPending_def)
  show "triple (\<lambda>s. stillPending digest ob s \<and> packs s = None) (publishOnce E key path n) (\<lambda>_. stillPending digest ob)"
    for key path n by (auto simp: triple_def stillPending_def)
  show "stillPending digest ob (updatePacks (stageCASLocked n d ob1) s)" if "stillPending digest ob s" for s n d ob1
    by (rule stillPending_update [OF that]) (auto simp: stageCASLocked_def requestFlushLocked_def)
  show "stillPending digest ob (updatePacks (stageActionLocked n d ob1 closure c) s)" if "stillPending digest ob s"
    for s n d ob1 closure c
    by (rule stillPending_update [OF that]) (auto simp: stageActionLocked_def requestFlushLocked_def split: option.splits)
  show "stillPending digest ob (updatePacks (\<lambda>p. p\<lparr>psLoadedPacks := g p\<rparr>) s)" if "stillPending digest ob s" for s g
    by (rule stillPending_update [OF that]) simp
qed (simp_all add: stillPending_def)

end
