(* ===== verification/Reader.thy ===== *)
theory Reader
  imports System
begin

text \<open>
  The reading half of a restore: with a cache service that can be reached and works, a new server discovers
  the manifest in the cache and resolves an object that the manifest names, with its content.
\<close>

section \<open>Computations that succeed\<close>

definition achieves :: "('s \<Rightarrow> bool) \<Rightarrow> ('s, 'a) io \<Rightarrow> ('a \<Rightarrow> 's \<Rightarrow> bool) \<Rightarrow> bool" where
  "achieves P m Q \<longleftrightarrow> triple P m (\<lambda>r s. \<exists>x. r = Inr x \<and> Q x s)"

lemma achievesI: "(\<And>s. P s \<Longrightarrow> \<exists>x s'. m s = (Inr x, s') \<and> Q x s') \<Longrightarrow> achieves P m Q"
  unfolding achieves_def triple_def by fastforce

lemma achievesD: "achieves P m Q \<Longrightarrow> P s \<Longrightarrow> \<exists>x s'. m s = (Inr x, s') \<and> Q x s'"
  unfolding achieves_def triple_def by (metis prod.collapse)

lemma achieves_attempt:
  "achieves P m R \<Longrightarrow> (\<And>x. achieves (R x) (k x) Q) \<Longrightarrow> achieves P (attempt m k) Q"
  by (rule achievesI) (drule (1) achievesD, force simp: attempt_def andThen_def dest: achievesD)

lemma achieves_ok: "(\<And>s. P s \<Longrightarrow> Q x s) \<Longrightarrow> achieves P (ok x) Q"
  by (rule achievesI) simp

lemma achieves_reading: "(\<And>x. achieves (\<lambda>s. P s \<and> f s = x) (k x) Q) \<Longrightarrow> achieves P (reading f k) Q"
  by (auto simp: achieves_def intro: triple_reading)

lemma achieves_known: "(\<And>s. P s \<Longrightarrow> f s = v) \<Longrightarrow> achieves P (k v) Q \<Longrightarrow> achieves P (reading f k) Q"
  by (auto simp: achieves_def triple_def reading_def)

lemma achieves_updating: "(\<And>s. P s \<Longrightarrow> P' (f s)) \<Longrightarrow> achieves P' k Q \<Longrightarrow> achieves P (updating f k) Q"
  by (auto simp: achieves_def intro: triple_update)

lemma achieves_pre: "achieves P' m Q \<Longrightarrow> (\<And>s. P s \<Longrightarrow> P' s) \<Longrightarrow> achieves P m Q"
  by (auto simp: achieves_def intro: triple_pre)

lemma achieves_assume: "(b \<Longrightarrow> achieves P m Q) \<Longrightarrow> achieves (\<lambda>s. P s \<and> b) m Q"
  by (auto simp: achieves_def intro: triple_assume)

section \<open>A cache service that works\<close>

text \<open>
  Nothing fails, an entry is delivered in some chunks, and a listing that the limit admits has exactly the
  keys with the prefix. Nothing of this changes the entries.
\<close>

definition workingBackend :: "('w, 'c) env \<Rightarrow> ('w \<Rightarrow> (string \<times> bytes) set) \<Rightarrow> bool" where
  "workingBackend F contents \<longleftrightarrow>
     (\<forall>operation w. \<exists>w'. envFault F operation w = (None, w') \<and> contents w' = contents w) \<and>
     (\<forall>key w. key \<in> fst ` contents w \<longrightarrow> (\<exists>data chunks w'. (key, data) \<in> contents w \<and>
        envLoad F key w = ((chunks, Inr True), w') \<and> concat chunks = data \<and> contents w' = contents w)) \<and>
     (\<forall>keyPrefix limit w. finite (contents w) \<and> int (card {key \<in> fst ` contents w. prefix keyPrefix key}) \<le> limit \<longrightarrow> (\<exists>keys w'.
        envList F keyPrefix limit w = (Inr keys, w') \<and> set keys = {key \<in> fst ` contents w. prefix keyPrefix key} \<and>
        distinct keys \<and> contents w' = contents w))"

text \<open>A server with entries \<open>C\<close> in the cache, a packed store \<open>p\<close> and no objects yet.\<close>

definition ready ::
    "('w \<Rightarrow> (string \<times> bytes) set) \<Rightarrow> (string \<times> bytes) set \<Rightarrow> config \<Rightarrow> packStore option \<Rightarrow> 'w server \<Rightarrow> bool" where
  "ready contents C c p s \<longleftrightarrow> stored contents s = C \<and> cfg s = c \<and> packs s = p \<and> objects s = Map.empty"

lemma ready_fields [simp]:
  "ready contents C c p (count a s) = ready contents C c p s"
  "ready contents C c p (countBytes a k s) = ready contents C c p s"
  "ready contents C c p (s\<lparr>files := fs\<rparr>) = ready contents C c p s"
  "ready contents C c p (s\<lparr>nextFile := n\<rparr>) = ready contents C c p s"
  "ready contents C c p (appendFile path data s) = ready contents C c p s"
  by (simp_all add: ready_def stored_def count_def countBytes_def appendFile_def)

lemma fault_works:
  assumes "workingBackend F contents"
  shows "\<exists>w. fault F operation s = (Inr (), s\<lparr>world := w\<rparr>) \<and> contents w = stored contents s"
proof -
  have "\<exists>w'. envFault F operation (world s) = (None, w') \<and> contents w' = contents (world s)"
    using assms by (simp only: workingBackend_def)
  then obtain w where "envFault F operation (world s) = (None, w)" "contents w = contents (world s)" by blast
  then show ?thesis by (auto simp: fault_def stored_def)
qed

text \<open>An assertion about the server that only reads the entries of the world.\<close>

definition worldless :: "('w \<Rightarrow> (string \<times> bytes) set) \<Rightarrow> ('w server \<Rightarrow> bool) \<Rightarrow> bool" where
  "worldless contents P \<longleftrightarrow> (\<forall>s w. P s \<longrightarrow> contents w = stored contents s \<longrightarrow> P (s\<lparr>world := w\<rparr>))"

lemma worldlessD: "worldless contents P \<Longrightarrow> P s \<Longrightarrow> contents w = stored contents s \<Longrightarrow> P (s\<lparr>world := w\<rparr>)"
  by (simp add: worldless_def)

lemma achieves_fault:
  "workingBackend F contents \<Longrightarrow> worldless contents P \<Longrightarrow> achieves P (fault F operation) (\<lambda>_. P)"
  by (rule achievesI) (metis fault_works worldless_def)

lemma achieves_after_fault:
  assumes "workingBackend F contents" and "worldless contents P" and "achieves P (k ()) Q"
  shows "achieves P (attempt (fault F operation) k) Q"
  by (rule achieves_attempt [OF achieves_fault [OF assms(1,2)]]) (simp add: assms(3))

text \<open>A file with the content that it is said to have.\<close>

definition holding ::
    "('w \<Rightarrow> (string \<times> bytes) set) \<Rightarrow> (string \<times> bytes) set \<Rightarrow> config \<Rightarrow> packStore option \<Rightarrow> nat \<Rightarrow> bytes \<Rightarrow>
      'w server \<Rightarrow> bool" where
  "holding contents C c p path data s \<longleftrightarrow> ready contents C c p s \<and> files s path = Some data"

lemma worldless_ready [simp]: "worldless contents (ready contents C c p)"
  "worldless contents (holding contents C c p path data)"
  by (simp_all add: worldless_def holding_def ready_def stored_def)

lemma holding_count [simp]: "holding contents C c p path data (count n s) = holding contents C c p path data s"
  by (simp add: holding_def)

lemma achieves_createTemp:
  assumes "workingBackend F contents"
  shows "achieves (ready contents C c p) (createTemp F) (\<lambda>path. holding contents C c p path [])"
  unfolding createTemp_def
  by (rule achieves_after_fault [OF assms]) (auto simp: achieves_def triple_def createFile_def holding_def)

lemma achieves_writeFile:
  assumes "workingBackend F contents"
  shows "achieves (holding contents C c p path old) (writeFile F path data) (\<lambda>_. holding contents C c p path (old @ data))"
  unfolding writeFile_def
  by (rule achieves_after_fault [OF assms])
    (auto simp: achieves_def triple_def holding_def appendFile_def fileContent_def ready_def stored_def)

lemma achieves_statSize:
  assumes "workingBackend F contents"
  shows "achieves (holding contents C c p path data) (statSize F path)
     (\<lambda>n s. holding contents C c p path data s \<and> n = int (length data))"
  unfolding statSize_def
  by (rule achieves_after_fault [OF assms]) (auto simp: achieves_def triple_def holding_def fileContent_def)

lemma achieves_openFile:
  assumes "workingBackend F contents"
  shows "achieves (holding contents C c p path data) (openFile F path) (\<lambda>_. holding contents C c p path data)"
  unfolding openFile_def
  by (rule achieves_after_fault [OF assms]) (auto simp: achieves_def triple_def holding_def)

lemma achieves_hashFile:
  assumes "workingBackend F contents"
  shows "achieves (holding contents C c p path data) (hashFile F path)
     (\<lambda>d s. holding contents C c p path data s \<and> d = sha256_hex data)"
  unfolding hashFile_def
  apply (rule achieves_after_fault [OF assms], simp)
  apply (rule achieves_after_fault [OF assms], simp)
  apply (rule achieves_known [where v = data], simp add: holding_def fileContent_def)
  apply (rule achieves_after_fault [OF assms], simp)
  apply (simp add: achieves_ok)
  done

section \<open>Downloading\<close>

lemma achieves_copyChunks:
  assumes "workingBackend F contents"
  shows "int (length (concat chunks)) \<le> remaining \<Longrightarrow>
    achieves (holding contents C c p path old) (forEach (maxWriter_Write F path) chunks remaining)
      (\<lambda>_. holding contents C c p path (old @ concat chunks))"
proof (induction chunks arbitrary: old remaining)
  case Nil
  then show ?case by (simp only: forEach.simps) (rule achieves_ok, simp)
next
  case (Cons chunk chunks)
  have chunk: "achieves (holding contents C c p path old) (maxWriter_Write F path chunk remaining)
      (\<lambda>r s. holding contents C c p path (old @ chunk) s \<and> r = remaining - int (length chunk))"
    using Cons.prems unfolding maxWriter_Write_def
    by (auto intro!: achieves_attempt [OF achieves_writeFile [OF assms]] achieves_ok)
  have rest: "achieves (\<lambda>s. holding contents C c p path (old @ chunk) s \<and> r = remaining - int (length chunk))
      (forEach (maxWriter_Write F path) chunks r) (\<lambda>_. holding contents C c p path (old @ concat (chunk # chunks)))" for r
    by (rule achieves_assume) (use Cons.IH [of r "old @ chunk"] Cons.prems in auto)
  show ?case by (simp only: forEach.simps) (rule achieves_attempt [OF chunk rest])
qed

text \<open>The one entry of the cache under a key.\<close>

definition soleEntry :: "(string \<times> bytes) set \<Rightarrow> string \<Rightarrow> bytes \<Rightarrow> bool" where
  "soleEntry C key data \<longleftrightarrow> (key, data) \<in> C \<and> (\<forall>data'. (key, data') \<in> C \<longrightarrow> data' = data)"

lemma load_works:
  assumes "workingBackend F contents" and "soleEntry (contents w) key data"
  shows "\<exists>chunks w'. envLoad F key w = ((chunks, Inr True), w') \<and> concat chunks = data \<and> contents w' = contents w"
proof -
  have "key \<in> fst ` contents w" using assms(2) unfolding soleEntry_def by force
  with assms show ?thesis unfolding workingBackend_def soleEntry_def by metis
qed

lemma achieves_backendLoadInto:
  assumes "workingBackend F contents" and "soleEntry C key data" and "int (length data) \<le> bound"
  shows "achieves (holding contents C c p path []) (backendLoadInto F key path bound)
    (\<lambda>found s. holding contents C c p path data s \<and> found)"
proof (rule achievesI)
  fix s
  assume pre: "holding contents C c p path [] s"
  then have entry: "soleEntry (contents (world s)) key data"
    using assms(2) by (simp add: holding_def ready_def stored_def)
  from load_works [OF assms(1) this] obtain chunks w where
    load: "envLoad F key (world s) = ((chunks, Inr True), w)" "concat chunks = data" and same: "contents w = contents (world s)"
    by (elim exE conjE) (rule that)
  have w: "contents w = stored contents s" using same by (simp add: stored_def)
  have "holding contents C c p path [] (s\<lparr>world := w\<rparr>)"
    by (rule worldlessD [OF worldless_ready(2) pre w])
  from achievesD [OF achieves_copyChunks [OF assms(1), of chunks bound] this] assms(3) load(2) obtain r s' where
    "forEach (maxWriter_Write F path) chunks bound (s\<lparr>world := w\<rparr>) = (Inr r, s')" "holding contents C c p path data s'"
    by auto
  with load(1) show "\<exists>found s'. backendLoadInto F key path bound s = (Inr found, s') \<and> holding contents C c p path data s' \<and> found"
    by (intro exI [of _ True] exI [of _ s']) (simp add: backendLoadInto_def attempt_def andThen_def)
qed

lemma achieves_checkPack:
  assumes "workingBackend F contents" and "pkSize pack = int (length archive)" and "pkID pack = sha256_hex archive"
  shows "achieves (holding contents C c p path archive) (checkPack F pack path) (\<lambda>path. holding contents C c p path archive)"
  unfolding checkPack_def
  apply (rule achieves_attempt [OF achieves_statSize [OF assms(1)]], rule achieves_assume)
  using assms(2) apply simp
  apply (rule achieves_attempt [OF achieves_openFile [OF assms(1)]])
  apply (rule achieves_attempt [OF achieves_hashFile [OF assms(1)]], rule achieves_assume)
  apply (rule achieves_after_fault [OF assms(1)], simp)
  using assms(3) apply (simp add: achieves_ok)
  done

lemma achieves_downloadPack:
  assumes "workingBackend F contents" and "pkSize pack = int (length archive)" and "pkID pack = sha256_hex archive"
    and "soleEntry C (pkKey pack) archive" and "int (length archive) \<le> cfgMaxBlobSize c"
  shows "achieves (ready contents C c p) (downloadPack F pack) (\<lambda>path. holding contents C c p path archive)"
  unfolding downloadPack_def acquire_def
  apply (rule achieves_after_fault [OF assms(1)], simp)
  apply (rule achieves_attempt [OF achieves_createTemp [OF assms(1)]])
  apply (rule achieves_known [where v = "cfgMaxBlobSize c"], simp add: holding_def ready_def)
  apply (rule achieves_attempt [OF achieves_backendLoadInto [OF assms(1,4,5)]])
  apply (rule achieves_assume, rule achieves_after_fault [OF assms(1)], simp, simp)
  apply (rule achieves_updating, erule holding_count [THEN iffD2])
  apply (rule achieves_updating [OF _ achieves_checkPack [OF assms(1-3)]], simp)
  done

section \<open>Resolving from a pack\<close>

text \<open>An entry of a manifest from which the content of its object can be read back.\<close>

definition restores :: "'c ipld \<Rightarrow> bytes \<Rightarrow> bytes \<Rightarrow> manifestObject \<Rightarrow> bool" where
  "restores L archive data ob \<longleftrightarrow> moPackID ob = sha256_hex archive \<and> moSize ob = int (length data) \<and>
     moDigest ob = sha256_hex data \<and> checkCARBlock L (moCID ob) data = Inr data \<and>
     (\<exists>c. cidDecode L (moCID ob) = Inr c \<and>
        (\<forall>n. int (length data) + rawCIDSectionOverheadBytes \<le> n \<longrightarrow> carGet L archive n c = Inr data))"

lemma achieves_loadPack:
  assumes "workingBackend F contents" and "pkSize pack = int (length archive)" and "pkID pack = sha256_hex archive"
    and "soleEntry C (pkKey pack) archive" and "int (length archive) \<le> cfgMaxBlobSize c"
    and "psPacks p (pkID pack) = Some pack" and "psLoadedPacks p = Map.empty"
  shows "achieves (ready contents C c (Some p)) (loadPack F (pkID pack))
    (\<lambda>path s. \<exists>p'. holding contents C c (Some p') path archive s)"
proof -
  have run: "loadPack F (pkID pack) s = attempt (downloadPack F pack) (\<lambda>path.
      updating (updatePacks (\<lambda>p. p\<lparr>psLoadedPacks := (psLoadedPacks p)(pkID pack \<mapsto> path)\<rparr>)) (ok path)) s"
    if "ready contents C c (Some p) s" for s
    using that assms(6,7) by (simp add: loadPack_def ready_def thePacks_def)
  have "achieves (ready contents C c (Some p)) (attempt (downloadPack F pack) (\<lambda>path.
      updating (updatePacks (\<lambda>p. p\<lparr>psLoadedPacks := (psLoadedPacks p)(pkID pack \<mapsto> path)\<rparr>)) (ok path)))
    (\<lambda>path s. \<exists>p'. holding contents C c (Some p') path archive s)"
    apply (rule achieves_attempt [OF achieves_downloadPack [OF assms(1-5)]])
    apply (rule achievesI)
    apply (simp add: holding_def ready_def stored_def updatePacks_def)
    done
  then show ?thesis unfolding achieves_def triple_def by (simp add: run)
qed

lemma achieves_readCARBlock:
  assumes "workingBackend F contents" and "restores (envIpld F) archive data ob" and "int (length data) \<le> bound"
  shows "achieves (holding contents C c p path archive) (readCARBlock F path (moCID ob) bound)
    (\<lambda>d s. holding contents C c p path archive s \<and> d = data)"
proof -
  from assms(2) obtain content where "cidDecode (envIpld F) (moCID ob) = Inr content"
    "carGet (envIpld F) archive (bound + rawCIDSectionOverheadBytes) content = Inr data"
    "checkCARBlock (envIpld F) (moCID ob) data = Inr data"
    using assms(3) by (auto simp: restores_def)
  then show ?thesis
    unfolding readCARBlock_def
    apply (intro achieves_attempt [OF achieves_openFile [OF assms(1)]])
    apply (rule achieves_known [where v = archive], simp add: holding_def fileContent_def)
    apply (simp add: achieves_ok)
    done
qed

lemma achieves_materialize:
  assumes "workingBackend F contents"
  shows "achieves (ready contents C c p) (materialize F key data)
    (\<lambda>ob s. files s (objPath ob) = Some data \<and> objSize ob = int (length data))"
proof -
  have enter: "achieves (holding contents C c p path data)
      (andThen (enterObject key \<lparr>objPath = path, objSize = int (length data)\<rparr>) (\<lambda>r. ok (fst r)))
      (\<lambda>ob s. files s (objPath ob) = Some data \<and> objSize ob = int (length data))" for path
    by (rule achievesI) (simp add: andThen_def enterObject_def holding_def ready_def)
  have create: "achieves (ready contents C c p)
      (attempt (createTemp F) (\<lambda>path. attempt (fault F Chmod) (\<lambda>_. attempt (writeFile F path data) (\<lambda>_.
       attempt (fault F SyncFile) (\<lambda>_. attempt (fault F CloseFile) (\<lambda>_.
       andThen (enterObject key \<lparr>objPath = path, objSize = int (length data)\<rparr>) (\<lambda>r. ok (fst r))))))))
      (\<lambda>ob s. files s (objPath ob) = Some data \<and> objSize ob = int (length data))"
    apply (rule achieves_attempt [OF achieves_createTemp [OF assms]])
    apply (rule achieves_after_fault [OF assms], simp)
    apply (rule achieves_attempt [OF achieves_writeFile [OF assms]])
    apply (rule achieves_after_fault [OF assms], simp)
    apply (rule achieves_after_fault [OF assms], simp)
    apply (simp add: enter)
    done
  have "materialize F key data s = attempt (createTemp F) (\<lambda>path. attempt (fault F Chmod) (\<lambda>_.
       attempt (writeFile F path data) (\<lambda>_. attempt (fault F SyncFile) (\<lambda>_. attempt (fault F CloseFile) (\<lambda>_.
       andThen (enterObject key \<lparr>objPath = path, objSize = int (length data)\<rparr>) (\<lambda>r. ok (fst r))))))) s"
    if "ready contents C c p s" for s
    using that by (simp add: materialize_def ready_def)
  with create show ?thesis unfolding achieves_def triple_def by simp
qed

lemma achieves_server_resolve:
  assumes "workingBackend F contents" and "pkSize pack = int (length archive)" and "pkID pack = sha256_hex archive"
    and "soleEntry C (pkKey pack) archive" and "int (length archive) \<le> cfgMaxBlobSize c"
    and "psPacks p (pkID pack) = Some pack" and "psLoadedPacks p = Map.empty"
    and "psCAS p digest = Some ob" and "restores (envIpld F) archive data ob" and "sha256_hex data = digest"
    and "int (length data) \<le> cfgMaxBlobSize c"
  shows "achieves (ready contents C c (Some p)) (server_resolve F key ''cas'' digest)
    (\<lambda>found s. \<exists>ob. found = Some ob \<and> files s (objPath ob) = Some data \<and> objSize ob = int (length data))"
proof -
  let ?Q = "\<lambda>found s. \<exists>ob. found = Some ob \<and> files s (objPath ob) = Some data \<and> objSize ob = int (length data)"
  let ?rest = "\<lambda>path. reading (\<lambda>s. cfgMaxBlobSize (cfg s)) (\<lambda>maxBlobSize.
      attempt (readCARBlock F path (moCID ob) maxBlobSize) (\<lambda>data.
      if int (length data) \<noteq> moSize ob then fail (Failure ''packed object has the wrong size'')
      else if ''cas'' = ''cas'' \<and> sha256_hex data \<noteq> digest then fail (Failure ''packed CAS integrity check failed'')
      else attempt (materialize F key data) (\<lambda>value. ok (Some value))))"
  have entry: "moPackID ob = pkID pack" "moSize ob = int (length data)" using assms(3,9) by (simp_all add: restores_def)
  have materialized: "achieves (holding contents C c q path archive)
      (attempt (materialize F key data) (\<lambda>value. ok (Some value))) ?Q" for q path
    by (rule achieves_attempt [OF achieves_pre [OF achieves_materialize [OF assms(1)]]])
      (auto simp: holding_def intro: achieves_ok)
  have "achieves (holding contents C c (Some p') path archive) (?rest path) ?Q" for p' path
    apply (rule achieves_known [where v = "cfgMaxBlobSize c"], simp add: holding_def ready_def)
    apply (rule achieves_attempt [OF achieves_readCARBlock [OF assms(1,9,11)]], rule achieves_assume)
    apply (simp add: entry(2) assms(10) materialized)
    done
  then have loaded: "achieves (\<lambda>s. \<exists>p'. holding contents C c (Some p') path archive s) (?rest path) ?Q" for path
    unfolding achieves_def triple_def by blast
  have "achieves (ready contents C c (Some p)) (attempt (loadPack F (pkID pack)) ?rest) ?Q"
    by (rule achieves_attempt [OF achieves_loadPack [OF assms(1-7)] loaded])
  moreover have "server_resolve F key ''cas'' digest s = attempt (loadPack F (pkID pack)) ?rest s"
    if "ready contents C c (Some p) s" for s
    using that assms(8) entry(1)
    by (simp add: server_resolve_def packs_resolve_def lookupEntry_def ready_def thePacks_def andThen_def)
  ultimately show ?thesis unfolding achieves_def triple_def by simp
qed

section \<open>Discovering\<close>

lemma list_works:
  assumes "workingBackend F contents" and "{key \<in> fst ` contents w. prefix keyPrefix key} = {key}" and "1 \<le> limit" and "finite (contents w)"
  shows "\<exists>w'. envList F keyPrefix limit w = (Inr [key], w') \<and> contents w' = contents w"
proof -
  have all: "\<forall>keyPrefix limit w. finite (contents w) \<and> int (card {key \<in> fst ` contents w. prefix keyPrefix key}) \<le> limit \<longrightarrow> (\<exists>keys w'.
      envList F keyPrefix limit w = (Inr keys, w') \<and> set keys = {key \<in> fst ` contents w. prefix keyPrefix key} \<and>
      distinct keys \<and> contents w' = contents w)"
    by (rule assms(1) [unfolded workingBackend_def, THEN conjunct2, THEN conjunct2])
  have "finite (contents w) \<and> int (card {key \<in> fst ` contents w. prefix keyPrefix key}) \<le> limit" using assms by simp
  from all [rule_format, OF this] obtain keys w' where
    keys: "envList F keyPrefix limit w = (Inr keys, w')" "set keys = {key}" "distinct keys" "contents w' = contents w"
    unfolding assms(2) by (elim exE conjE) (rule that)
  from keys(2,3) have "keys = [key]" by (cases keys; cases "tl keys") auto
  with keys show ?thesis by simp
qed

lemma achieves_backendLoadBuffer:
  assumes "workingBackend F contents" and "soleEntry C key data"
  shows "achieves (ready contents C c p) (backendLoadBuffer F key) (\<lambda>r s. ready contents C c p s \<and> r = (data, True))"
proof (rule achievesI)
  fix s
  assume pre: "ready contents C c p s"
  then have entry: "soleEntry (contents (world s)) key data" using assms(2) by (simp add: ready_def stored_def)
  from load_works [OF assms(1) this] obtain chunks w where
    load: "envLoad F key (world s) = ((chunks, Inr True), w)" "concat chunks = data" and same: "contents w = contents (world s)"
    by (elim exE conjE) (rule that)
  have "ready contents C c p (s\<lparr>world := w\<rparr>)"
    by (rule worldlessD [OF worldless_ready(1) pre]) (simp add: same stored_def)
  with load show "\<exists>r s'. backendLoadBuffer F key s = (Inr r, s') \<and> ready contents C c p s' \<and> r = (data, True)"
    by (simp add: backendLoadBuffer_def)
qed

lemma achieves_loadManifest:
  assumes "workingBackend F contents" and "soleEntry C key data" and "int (length data) \<le> cfgMaxBlobSize c"
    and "decodeManifest (envIpld F) data manifestID = Inr m"
  shows "achieves (ready contents C c p) (loadManifest F key manifestID) (\<lambda>r s. ready contents C c p s \<and> r = m)"
  unfolding loadManifest_def acquire_def
  apply (rule achieves_after_fault [OF assms(1)], simp)
  apply (rule achieves_attempt [OF achieves_backendLoadBuffer [OF assms(1,2)]], rule achieves_assume)
  apply (simp only: prod.case not_True_eq_False if_False)
  apply (rule achieves_updating, erule ready_fields(1) [THEN iffD2])
  apply (rule achieves_known [where v = "cfgMaxBlobSize c"], simp add: ready_def)
  using assms(3,4) apply (simp add: achieves_ok)
  done

text \<open>The store that a process starts with when the cache has a single manifest.\<close>

definition discovered :: "string \<Rightarrow> manifest \<Rightarrow> packStore" where
  "discovered manifestID m = applyDiscovered (set (mfParents m)) (manifestID, m) emptyPackStore"

lemma achieves_discover:
  assumes "workingBackend F contents"
    and "{key \<in> fst ` C. prefix (manifestKeyFor (cfgKeyPrefix c) []) key} = {manifestKeyFor (cfgKeyPrefix c) manifestID}"
    and "soleEntry C (manifestKeyFor (cfgKeyPrefix c) manifestID) data"
    and "int (length data) \<le> cfgMaxBlobSize c" and "1 \<le> cfgMaxManifests c"
    and "decodeManifest (envIpld F) data manifestID = Inr m" and "validCID (envIpld F) manifestID" and "manifestID \<noteq> []"
    and "finite C"
  shows "achieves (ready contents C c (Some emptyPackStore)) (discover F)
    (\<lambda>_. ready contents C c (Some (discovered manifestID m)))"
proof -
  let ?key = "manifestKeyFor (cfgKeyPrefix c) manifestID" and ?ready = "ready contents C c (Some emptyPackStore)"
  have parse: "parseManifestKey (envIpld F) (cfgKeyPrefix c) ?key = Some manifestID"
    using assms(7,8) by (simp add: parseManifestKey_def manifestKeyFor_def Let_def)
  have list: "achieves ?ready (backendList F (manifestKeyFor (cfgKeyPrefix c) []) (cfgMaxManifests c))
      (\<lambda>keys s. ?ready s \<and> keys = [?key])"
  proof (rule achievesI)
    fix s
    assume pre: "?ready s"
    then have C: "contents (world s) = C" by (simp add: ready_def stored_def)
    from list_works [OF assms(1), of "world s", unfolded C, OF assms(2,5,9)] obtain w where
      w: "envList F (manifestKeyFor (cfgKeyPrefix c) []) (cfgMaxManifests c) (world s) = (Inr [?key], w)" "contents w = C"
      by (elim exE conjE) (rule that)
    have "?ready (s\<lparr>world := w\<rparr>)"
      by (rule worldlessD [OF worldless_ready(1) pre]) (simp add: w(2) C stored_def)
    then show "\<exists>ks s'. backendList F (manifestKeyFor (cfgKeyPrefix c) []) (cfgMaxManifests c) s = (Inr ks, s') \<and> ?ready s' \<and> ks = [?key]"
      using w(1) by (simp add: backendList_def)
  qed
  have load: "\<exists>s'. loadManifests F [?key] [] {} s = (([(manifestID, m)], set (mfParents m)), s') \<and> ?ready s'"
    if "?ready s" for s
    using achievesD [OF achieves_loadManifest [OF assms(1,3,4,6)] that] that parse
    by (auto simp: andThen_def ready_def)
  have merge: "achieves ?ready (andThen (loadManifests F [?key] [] {}) (\<lambda>(manifests, parents).
      updating (updatePacks (fold (applyDiscovered parents) (sort_key fst manifests))) (ok ())))
      (\<lambda>_. ready contents C c (Some (discovered manifestID m)))"
  proof (rule achievesI)
    fix s
    assume "?ready s"
    from load [OF this] obtain s' where
      "loadManifests F [?key] [] {} s = (([(manifestID, m)], set (mfParents m)), s')" "?ready s'" by blast
    then show "\<exists>x s'. andThen (loadManifests F [?key] [] {}) (\<lambda>(manifests, parents).
        updating (updatePacks (fold (applyDiscovered parents) (sort_key fst manifests))) (ok ())) s = (Inr x, s') \<and>
        ready contents C c (Some (discovered manifestID m)) s'"
      by (simp add: andThen_def ready_def stored_def updatePacks_def discovered_def)
  qed
  show ?thesis
    unfolding discover_def
    apply (rule achieves_known [where v = c], simp add: ready_def)
    apply (rule achieves_attempt [OF list], rule achieves_assume)
    apply (rule achieves_updating, erule ready_fields(2) [THEN iffD2])
    apply (hypsubst, rule merge)
    done
qed

lemma New_discovers:
  assumes "workingBackend F contents" and "validConfig c" and "cfgStorageMode c = ''packs''"
    and "{key \<in> fst ` contents w. prefix (manifestKeyFor (cfgKeyPrefix c) []) key} = {manifestKeyFor (cfgKeyPrefix c) manifestID}"
    and "soleEntry (contents w) (manifestKeyFor (cfgKeyPrefix c) manifestID) data"
    and "int (length data) \<le> cfgMaxBlobSize c"
    and "decodeManifest (envIpld F) data manifestID = Inr m" and "validCID (envIpld F) manifestID" and "manifestID \<noteq> []"
    and "finite (contents w)"
  shows "\<exists>s. New F c w = Inr s \<and> ready contents (contents w) c (Some (discovered manifestID m)) s"
proof -
  have check: "checkConfig c = Inr c" using assms(2,3) by (simp add: checkConfig_Inr)
  have limits: "1 \<le> cfgMaxManifests c" "cfgCatalog c" using assms(2,3) by (auto simp: validConfig_def)
  obtain w1 where start: "fault F MkdirAll (initialServer c w) = (Inr (), (initialServer c w)\<lparr>world := w1\<rparr>)"
    and w1: "contents w1 = contents w"
    using fault_works [OF assms(1), of MkdirAll "initialServer c w"] by (auto simp: stored_def initialServer_def)
  let ?s = "((initialServer c w)\<lparr>world := w1\<rparr>)\<lparr>packs := Some emptyPackStore\<rparr>"
  have "ready contents (contents w) c (Some emptyPackStore) ?s"
    by (simp add: ready_def stored_def initialServer_def w1)
  from achievesD [OF achieves_discover [OF assms(1,4-6) limits(1) assms(7-10)] this] obtain s where
    s: "discover F ?s = (Inr (), s)" "ready contents (contents w) c (Some (discovered manifestID m)) s" by auto
  have "newPackStore F ((initialServer c w)\<lparr>world := w1\<rparr>) = (Inr (), s)"
    using s(1) limits(2) by (simp add: newPackStore_def andThen_def initialServer_def)
  with check start assms(3) s(2) show ?thesis by (simp add: New_def)
qed

lemma discovered_fields:
  "psLoadedPacks (discovered manifestID m) = Map.empty"
  "mfPacks m = [pack] \<Longrightarrow> psPacks (discovered manifestID m) (pkID pack) = Some pack"
  "ob \<in> set (mfCAS m) \<Longrightarrow> moDigest ob = digest \<Longrightarrow>
     \<exists>ob \<in> set (mfCAS m). moDigest ob = digest \<and> psCAS (discovered manifestID m) digest = Some ob"
proof -
  show "psLoadedPacks (discovered manifestID m) = Map.empty"
    by (simp add: discovered_def applyDiscovered_def Let_def applyManifest_fields emptyPackStore_def)
  show "mfPacks m = [pack] \<Longrightarrow> psPacks (discovered manifestID m) (pkID pack) = Some pack"
    by (simp add: discovered_def applyDiscovered_def Let_def applyManifest_fields applyPack_def emptyPackStore_def)
  assume digest: "ob \<in> set (mfCAS m)" "moDigest ob = digest"
  have source: "psCAS (fold applyCAS obs p) digest = Some o1 \<Longrightarrow> psCAS p digest = Some o1 \<or> o1 \<in> set obs \<and> moDigest o1 = digest"
    for obs o1 p
  proof (induction obs arbitrary: p)
    case (Cons x obs)
    from Cons.IH [of "applyCAS x p"] Cons.prems show ?case
      by (auto simp: applyCAS_def split: option.splits if_splits)
  qed simp
  let ?p = "fold applyPack (mfPacks m) emptyPackStore"
  have none: "psCAS ?p digest = None" using fold_field [where g = psCAS and f = applyPack] by (simp add: emptyPackStore_def)
  have "digest \<in> dom (psCAS (fold applyCAS (mfCAS m) ?p))" using digest by (auto simp: applyCAS_dom)
  with source none obtain o1 where "psCAS (fold applyCAS (mfCAS m) ?p) digest = Some o1" "o1 \<in> set (mfCAS m)" "moDigest o1 = digest"
    by (metis domD option.distinct(1))
  then show "\<exists>ob \<in> set (mfCAS m). moDigest ob = digest \<and> psCAS (discovered manifestID m) digest = Some ob"
    by (auto simp: discovered_def applyDiscovered_def Let_def applyManifest_fields)
qed

end
