(* ===== verification/Restore.thy ===== *)
theory Restore
  imports Reader
begin

text \<open>
  The packed store across processes: what a first process flushes, a later process with a cache that works
  restores. The writing half follows \<open>flushOneLocked\<close> to the two entries that it adds to the cache; the
  reading half follows \<open>New\<close>, \<open>discover\<close> and \<open>resolve\<close> of a new server.
\<close>

section \<open>The libraries\<close>

text \<open>
  Documented of CARv2 archives and of CIDs: an archive is not empty, and \<open>Get\<close> returns the first block that was
  put under a CID, when the section fits into the limit; a CID can be read back from its text, which is not
  empty, and different hashes have different CIDs.
\<close>

definition ipld_laws :: "'c ipld \<Rightarrow> bool" where
  "ipld_laws L \<longleftrightarrow>
     (\<forall>roots blocks archive. carWrite L roots blocks = Inr archive \<longrightarrow> archive \<noteq> [] \<and>
        (\<forall>c data n. map_of blocks c = Some data \<longrightarrow> int (length data) + rawCIDSectionOverheadBytes \<le> n \<longrightarrow>
           carGet L archive n c = Inr data)) \<and>
     (\<forall>digest hash. multihashEncode L digest = Inr hash \<longrightarrow>
        cidDecode L (cidString L (newCidV1Raw L hash)) = Inr (newCidV1Raw L hash)) \<and>
     (\<forall>data c. dagCBORSum L data = Inr c \<longrightarrow> cidDecode L (cidString L c) = Inr c \<and> cidString L c \<noteq> []) \<and>
     (\<forall>a b h. multihashEncode L a = Inr h \<longrightarrow> multihashEncode L b = Inr h \<longrightarrow> a = b) \<and> inj (newCidV1Raw L)"

lemma rawCID_facts:
  assumes "ipld_laws L" and "rawCIDForDigest L digest = Inr c"
  shows "cidDecode L (cidString L c) = Inr c" and "digestPattern digest"
    and "rawCIDForDigest L digest' = Inr c \<Longrightarrow> digest' = digest"
proof -
  have parts: "\<exists>bs h. digestPattern d \<and> hex_DecodeString d = Inr bs \<and> multihashEncode L bs = Inr h \<and> c = newCidV1Raw L h"
    if "rawCIDForDigest L d = Inr c" for d
    using that by (auto simp: rawCIDForDigest_def success_iffs split: if_splits)
  show "cidDecode L (cidString L c) = Inr c" "digestPattern digest"
    using parts [OF assms(2)] assms(1) by (auto simp: ipld_laws_def)
  assume other: "rawCIDForDigest L digest' = Inr c"
  obtain bs h where d: "digestPattern digest" "hex_DecodeString digest = Inr bs" "multihashEncode L bs = Inr h"
    "c = newCidV1Raw L h" using parts [OF assms(2)] by blast
  obtain bs' h' where d': "digestPattern digest'" "hex_DecodeString digest' = Inr bs'" "multihashEncode L bs' = Inr h'"
    "c = newCidV1Raw L h'" using parts [OF other] by blast
  have laws: "inj (newCidV1Raw L)" "\<forall>a b h. multihashEncode L a = Inr h \<longrightarrow> multihashEncode L b = Inr h \<longrightarrow> a = b"
    using assms(1) by (simp_all add: ipld_laws_def)
  have "h' = h" using laws(1) d(4) d'(4) by (metis injD)
  then have "bs' = bs" using laws(2) d(3) d'(3) by blast
  then show "digest' = digest"
    using hex_EncodeToString_DecodeString d(1,2) d'(1,2) by (metis digestPattern_def)
qed

lemma checkCARBlock_ok:
  assumes "rawCIDForDigest L (sha256_hex data) = Inr c"
  shows "checkCARBlock L (cidString L c) data = Inr data"
  using assms by (simp add: checkCARBlock_def rawCIDForData_def sha256_hex_def)

section \<open>What a flush writes\<close>

text \<open>A commit that succeeds: the runs of its two uploads and the manifest between them.\<close>

lemma commitPack_runs:
  assumes "commitPack E ds as (packPath, entries, packSize, packID) s = (Inr b, s')"
  shows "\<exists>s1 s2 s3 data manifestID manifestPath f.
    publishFile E (packKeyFor (cfgKeyPrefix (cfg s)) packID) packPath packSize s = (Inr (), s1) \<and>
    encodeManifest (envIpld E) (manifestForPackLocked (thePacks s)
      \<lparr>pkID = packID, pkKey = packKeyFor (cfgKeyPrefix (cfg s)) packID, pkSize = packSize\<rparr> entries (set ds)) =
      Inr (data, manifestID) \<and>
    writePrivateTemp E data (count PackUploads s1) = (Inr manifestPath, s2) \<and>
    publishFile E (manifestKeyFor (cfgKeyPrefix (cfg s)) manifestID) manifestPath (int (length data)) s2 = (Inr (), s3) \<and>
    s' = updatePacks f (count ManifestUploads s3)"
proof -
  let ?pack = "\<lparr>pkID = packID, pkKey = packKeyFor (cfgKeyPrefix (cfg s)) packID, pkSize = packSize\<rparr>"
  obtain r1 s1 where first: "publishFile E (pkKey ?pack) packPath packSize s = (r1, s1)" by (metis surj_pair)
  have packs: "thePacks (count PackUploads s1) = thePacks s"
    using samePacks_run [OF samePacks_publishFile first] by (simp add: thePacks_def count_def)
  from assms first packs obtain data manifestID manifestPath s2 s3 where
    "r1 = Inr ()" "encodeManifest (envIpld E) (manifestForPackLocked (thePacks s) ?pack entries (set ds)) = Inr (data, manifestID)"
    "writePrivateTemp E data (count PackUploads s1) = (Inr manifestPath, s2)"
    "publishFile E (manifestKeyFor (cfgKeyPrefix (cfg s)) manifestID) manifestPath (int (length data)) s2 = (Inr (), s3)"
    "s' = updatePacks (\<lambda>p. removePendingLocked ds as (applyManifestLocked manifestID
        (manifestForPackLocked (thePacks s) ?pack entries (set ds)) p)) (count ManifestUploads s3)"
    by (auto simp: commitPack_def Let_def attempt_Inr_iff case_sum_run case_prod_run)
  with first show ?thesis by auto
qed

text \<open>Neither the cache nor this process knows a key of the packed store with this prefix.\<close>

definition unused :: "string \<Rightarrow> string set \<Rightarrow> bool" where
  "unused keyPrefix K \<longleftrightarrow> (\<forall>key \<in> K. \<not> prefix (keyPrefix @ ''-car-'') key)"

lemma unused_keys:
  "unused keyPrefix K \<Longrightarrow> packKeyFor keyPrefix packID \<notin> K" "unused keyPrefix K \<Longrightarrow> manifestKeyFor keyPrefix manifestID \<notin> K"
  by (auto simp: unused_def packKeyFor_def manifestKeyFor_def prefix_def)

lemma publishFile_writes:
  assumes "storingBackend E contents" and "files s path = Some data" and "n = int (length data)"
    and "publishFile E key path n s = (Inr (), s')" and "key \<notin> published s" and "key \<notin> fst ` stored contents s"
  shows "stored contents s' = insert (key, data) (stored contents s)" "published s' \<subseteq> insert key (published s)"
proof -
  note run = publishFile_stored [OF assms(1-4)]
  then have "key \<in> fst ` stored contents s'" using assms(5) by blast
  then have "stored contents s' \<noteq> stored contents s" using assms(6) by metis
  with run show "stored contents s' = insert (key, data) (stored contents s)" by blast
  from run show "published s' \<subseteq> insert key (published s)" by blast
qed

lemma flushOneLocked_writes:
  assumes store: "storingBackend E contents" and run: "flushOneLocked E s = (Inr True, s')"
    and new: "unused (cfgKeyPrefix (cfg s)) (fst ` stored contents s)" "unused (cfgKeyPrefix (cfg s)) (published s)"
  shows "\<exists>ds as entries archive m data manifestID.
    ds = selectCASLocked (cfgPackSize (cfg s)) (thePacks s) \<and> as = selectActionsLocked (thePacks s) (set ds) \<and>
    packHolds E s ds as entries archive \<and>
    m = manifestForPackLocked (thePacks s) \<lparr>pkID = sha256_hex archive,
      pkKey = packKeyFor (cfgKeyPrefix (cfg s)) (sha256_hex archive), pkSize = int (length archive)\<rparr> entries (set ds) \<and>
    encodeManifest (envIpld E) m = Inr (data, manifestID) \<and>
    stored contents s' = insert (manifestKeyFor (cfgKeyPrefix (cfg s)) manifestID, data)
      (insert (packKeyFor (cfgKeyPrefix (cfg s)) (sha256_hex archive), archive) (stored contents s))"
proof -
  let ?ds = "selectCASLocked (cfgPackSize (cfg s)) (thePacks s)"
  let ?as = "selectActionsLocked (thePacks s) (set ?ds)"
  let ?prefix = "cfgKeyPrefix (cfg s)"
  from run obtain path entries packSize packID s1 where build: "buildPackLocked E ?ds ?as s = (Inr (path, entries, packSize, packID), s1)"
    and commit: "commitPack E ?ds ?as (path, entries, packSize, packID) s1 = (Inr True, s')"
    by (auto simp: flushOneLocked_def attempt_Inr_iff split: if_splits)
  from buildPackLocked_run [OF build] obtain archive where holds: "packHolds E s ?ds ?as entries archive"
    and archive: "packSize = int (length archive)" "packID = sha256_hex archive" "files s1 path = Some archive" by blast
  have s1: "published s1 = published s" "cfg s1 = cfg s" "stored contents s1 = stored contents s"
    using samePublished_run [OF samePublished_build world_buildPackLocked store build] by auto
  have packs1: "thePacks s1 = thePacks s"
    using samePacks_run [OF samePacks_build build] by (simp add: thePacks_def)
  from commitPack_runs [OF commit] obtain t1 t2 t3 data manifestID manifestPath f where
    first: "publishFile E (packKeyFor ?prefix packID) path packSize s1 = (Inr (), t1)"
    and enc: "encodeManifest (envIpld E) (manifestForPackLocked (thePacks s)
      \<lparr>pkID = packID, pkKey = packKeyFor ?prefix packID, pkSize = packSize\<rparr> entries (set ?ds)) = Inr (data, manifestID)"
    and temp: "writePrivateTemp E data (count PackUploads t1) = (Inr manifestPath, t2)"
    and second: "publishFile E (manifestKeyFor ?prefix manifestID) manifestPath (int (length data)) t2 = (Inr (), t3)"
    and s': "s' = updatePacks f (count ManifestUploads t3)"
    unfolding s1 packs1 by blast
  have t1: "stored contents t1 = insert (packKeyFor ?prefix packID, archive) (stored contents s)"
    "published t1 \<subseteq> insert (packKeyFor ?prefix packID) (published s)"
    using publishFile_writes [OF store archive(3,1) first, unfolded s1] unused_keys(1) [OF new(1)] unused_keys(1) [OF new(2)]
    by blast+
  have t2: "published t2 = published t1" "stored contents t2 = stored contents t1"
    using samePublished_run [OF samePublished_write world_writePrivateTemp store temp] by auto
  have absent: "manifestKeyFor ?prefix manifestID \<notin> published t2" "manifestKeyFor ?prefix manifestID \<notin> fst ` stored contents t2"
    using t1 t2 unused_keys(2) [OF new(1), of manifestID] unused_keys(2) [OF new(2), of manifestID] by auto
  from publishFile_writes(1) [OF store writePrivateTemp_run [OF temp] refl second absent]
  have "stored contents s' = insert (manifestKeyFor ?prefix manifestID, data)
      (insert (packKeyFor ?prefix packID, archive) (stored contents s))"
    unfolding s' by (simp add: t2 t1)
  with holds enc archive(1,2) show ?thesis by blast
qed

lemma map_of_blocks:
  assumes "list_all2 (casBlock E s) ds bs" and "casBlock E s digest ((c, data), ob)" and "((c, data), ob) \<in> set bs"
    and "ipld_laws (envIpld E)"
  shows "map_of (map fst bs @ cs) c = Some data"
proof -
  have same: "data' = data" if block: "((c, data'), ob') \<in> set bs" for data' ob'
  proof -
    obtain digest' where d': "casBlock E s digest' ((c, data'), ob')"
      using list_all2_right [OF assms(1) block] by blast
    have "rawCIDForDigest (envIpld E) digest = Inr c" "rawCIDForDigest (envIpld E) digest' = Inr c"
      using assms(2) d' by (auto simp: casBlock_def)
    then have "digest' = digest" using rawCID_facts(3) [OF assms(4)] by blast
    then show ?thesis using assms(2) d' by (auto simp: casBlock_def)
  qed
  have "(c, data) \<in> set (map fst bs)" using assms(3) by force
  then obtain d where d: "map_of (map fst bs) c = Some d" using weak_map_of_SomeI by fast
  then have "(c, d) \<in> set (map fst bs)" by (rule map_of_SomeD)
  then have "d = data" using same by auto
  with d show ?thesis by (simp add: map_add_Some_iff)
qed

lemma packed_object:
  assumes laws: "ipld_laws (envIpld E)" and holds: "packHolds E s ds as entries archive" and digest: "digest \<in> set ds"
    and pending: "psPendingCAS (thePacks s) digest = Some value" "files s (objPath value) = Some data"
      "objSize value = int (length data)" "sha256_hex data = digest"
  shows "\<exists>ob \<in> set (peCAS entries). moDigest ob = digest"
    and "ob \<in> set (peCAS entries) \<Longrightarrow> moDigest ob = digest \<Longrightarrow>
      restores (envIpld E) archive data (ob\<lparr>moPackID := sha256_hex archive\<rparr>)"
proof -
  from holds obtain bs cs where bs: "list_all2 (casBlock E s) ds bs"
    and entries: "entries = \<lparr>peCAS = map snd bs, peActions = map snd cs\<rparr>"
    and archive: "carWrite (envIpld E) [fst (hd (map fst bs @ map fst cs))] (map fst bs @ map fst cs) = Inr archive"
    unfolding packHolds_def by blast
  have cas: "peCAS entries = map snd bs" by (simp add: entries)
  from packHolds_digests(1) [OF holds] digest show "\<exists>ob \<in> set (peCAS entries). moDigest ob = digest"
    by (metis in_set_conv_nth length_map nth_map nth_mem)
  assume "ob \<in> set (peCAS entries)" and ob: "moDigest ob = digest"
  then obtain b where b: "b \<in> set bs" "snd b = ob" using cas by auto
  then obtain d where "casBlock E s d b" using list_all2_right [OF bs(1)] by blast
  with ob b(2) have block: "casBlock E s digest b" by (auto simp: casBlock_def)
  then obtain c where c: "rawCIDForDigest (envIpld E) digest = Inr c" "b = ((c, data), ob)"
    "ob = \<lparr>moDigest = digest, moCID = cidString (envIpld E) c, moPackID = [], moSize = objSize value\<rparr>"
    using pending b(2) by (auto simp: casBlock_def)
  have "map_of (map fst bs @ map fst cs) c = Some data"
    using map_of_blocks [OF bs(1) _ _ laws] block b(1) unfolding c(2) by blast
  with archive laws have get: "int (length data) + rawCIDSectionOverheadBytes \<le> n \<Longrightarrow> carGet (envIpld E) archive n c = Inr data" for n
    unfolding ipld_laws_def by blast
  show "restores (envIpld E) archive data (ob\<lparr>moPackID := sha256_hex archive\<rparr>)"
    using get rawCID_facts(1) [OF laws c(1)] checkCARBlock_ok [of "envIpld E" data c] c(1,3) pending(3,4)
    by (simp add: restores_def)
qed

section \<open>The manifest of a flush is valid\<close>

text \<open>
  The pending work of a server in order: every pending object is a file within the size limit, under its own
  digest, and what the store knows of earlier manifests is well-formed.
\<close>

definition stagedWork :: "'c ipld \<Rightarrow> 'w server \<Rightarrow> bool" where
  "stagedWork L s \<longleftrightarrow> stageInv (thePacks s) \<and> distinct (psPendingACOrder (thePacks s)) \<and>
     (\<forall>digest value. psPendingCAS (thePacks s) digest = Some value \<longrightarrow> (\<exists>data. files s (objPath value) = Some data \<and>
        objSize value = int (length data) \<and> sha256_hex data = digest \<and> objSize value \<le> cfgMaxBlobSize (cfg s))) \<and>
     (\<forall>digest pa. psPendingActions (thePacks s) digest = Some pa \<longrightarrow> digestPattern digest \<and>
        objSize (paObject pa) \<in> {0..cfgMaxBlobSize (cfg s)}) \<and>
     (\<forall>digest ob. psCAS (thePacks s) digest = Some ob \<longrightarrow> digestPattern (moPackID ob)) \<and>
     (\<forall>manifestID \<in> psHeads (thePacks s). validCID L manifestID) \<and> card (psHeads (thePacks s)) \<le> 4096"

lemma packed_entries:
  assumes "packHolds E s ds as entries archive" and "ob \<in> set (peCAS entries)"
  shows "\<exists>value c. psPendingCAS (thePacks s) (moDigest ob) = Some value \<and> moSize ob = objSize value \<and>
    rawCIDForDigest (envIpld E) (moDigest ob) = Inr c \<and> moCID ob = cidString (envIpld E) c"
proof -
  from assms(1) obtain bs cs where "list_all2 (casBlock E s) ds bs" "list_all2 (actionBlock E s) as cs" "entries = \<lparr>peCAS = map snd bs, peActions = map snd cs\<rparr>"
    unfolding packHolds_def by blast
  with assms(2) obtain b where b: "b \<in> set bs" "snd b = ob" by auto
  from list_all2_right [OF \<open>list_all2 (casBlock E s) ds bs\<close> b(1)] b(2) show ?thesis by (auto simp: casBlock_def)
qed

lemma packed_actions:
  assumes "packHolds E s ds as entries archive" and "a \<in> set (peActions entries)"
  shows "\<exists>pa. psPendingActions (thePacks s) (maDigest a) = Some pa \<and> maSize a = objSize (paObject pa) \<and>
    validCID (envIpld E) (maCID a)"
proof -
  from assms(1) obtain bs cs where "list_all2 (casBlock E s) ds bs" "list_all2 (actionBlock E s) as cs" "entries = \<lparr>peCAS = map snd bs, peActions = map snd cs\<rparr>"
    unfolding packHolds_def by blast
  with assms(2) obtain b where b: "b \<in> set cs" "snd b = a" by auto
  from list_all2_right [OF \<open>list_all2 (actionBlock E s) as cs\<close> b(1)] b(2) show ?thesis
    by (auto simp: actionBlock_def validCID_def)
qed

lemma staged_sizes:
  assumes "stagedWork L s" and "cfgMaxBlobSize (cfg s) \<le> bound" and "isInt64 bound"
  shows "psPendingCAS (thePacks s) digest = Some value \<Longrightarrow> 0 \<le> objSize value \<and> isInt64 (objSize value)"
    and "psPendingActions (thePacks s) digest = Some pa \<Longrightarrow>
      digestPattern digest \<and> 0 \<le> objSize (paObject pa) \<and> isInt64 (objSize (paObject pa))"
proof -
  have fits: "0 \<le> n \<Longrightarrow> n \<le> cfgMaxBlobSize (cfg s) \<Longrightarrow> isInt64 n" for n
    using assms(2,3) by (simp add: isInt64_def)
  show "psPendingCAS (thePacks s) digest = Some value \<Longrightarrow> 0 \<le> objSize value \<and> isInt64 (objSize value)"
    using assms(1) fits unfolding stagedWork_def by (metis of_nat_0_le_iff)
  show "psPendingActions (thePacks s) digest = Some pa \<Longrightarrow>
      digestPattern digest \<and> 0 \<le> objSize (paObject pa) \<and> isInt64 (objSize (paObject pa))"
    using assms(1) fits unfolding stagedWork_def by (metis atLeastAtMost_iff)
qed

lemma flushed_manifest_valid:
  assumes holds: "packHolds E s ds as entries archive" and staged: "stagedWork (envIpld E) s"
    and m: "m = manifestForPackLocked (thePacks s) \<lparr>pkID = sha256_hex archive,
      pkKey = packKeyFor keyPrefix (sha256_hex archive), pkSize = int (length archive)\<rparr> entries selected"
    and "distinct ds" "distinct as" "length ds \<le> 100000" "length as \<le> 100000" "archive \<noteq> []"
    and "int (length archive) \<le> bound" "cfgMaxBlobSize (cfg s) \<le> bound" "isInt64 bound"
  shows "validManifest (envIpld E) m" and "sizesFit m"
proof -
  let ?L = "envIpld E" and ?id = "sha256_hex archive"
  note digests = packHolds_digests [OF holds]
  have lengths: "length (peCAS entries) = length ds" "length (peActions entries) = length as"
    using digests by (metis length_map)+
  have closure: "closurePackOk {?id} packID"
    if "packID \<in> set (closurePack (thePacks s) ?id selected ref)" for packID ref
    using that staged by (auto simp: closurePack_def closurePackOk_def stagedWork_def split: if_splits option.splits)
  have objects: "objectOk ?L {?id} (ob\<lparr>moPackID := ?id\<rparr>)" "isInt64 (moSize ob)" if "ob \<in> set (peCAS entries)" for ob
  proof -
    from packed_entries [OF holds that] obtain pending c where v: "psPendingCAS (thePacks s) (moDigest ob) = Some pending"
      "moSize ob = objSize pending" "rawCIDForDigest ?L (moDigest ob) = Inr c" "moCID ob = cidString ?L c" by blast
    have "digestPattern (moDigest ob)" using v(3) by (simp add: rawCIDForDigest_def split: if_splits)
    with v staged_sizes(1) [OF staged assms(10,11) v(1)]
    show "objectOk ?L {?id} (ob\<lparr>moPackID := ?id\<rparr>)" "isInt64 (moSize ob)"
      by (simp_all add: objectOk_def validRawCID_def)
  qed
  have actions: "actionOk ?L {?id} (a\<lparr>maPackID := ?id, maClosurePacks :=
        sortedStrings (concat (map (closurePack (thePacks s) ?id selected) refs))\<rparr>)" "isInt64 (maSize a)"
    if "a \<in> set (peActions entries)" for a refs
  proof -
    from packed_actions [OF holds that] obtain pa where a: "psPendingActions (thePacks s) (maDigest a) = Some pa"
      "maSize a = objSize (paObject pa)" "validCID ?L (maCID a)" by blast
    with staged_sizes(2) [OF staged assms(10,11) a(1)] closure
    show "actionOk ?L {?id} (a\<lparr>maPackID := ?id, maClosurePacks :=
        sortedStrings (concat (map (closurePack (thePacks s) ?id selected) refs))\<rparr>)" "isInt64 (maSize a)"
      by (auto simp: actionOk_def list_all_iff sortedStrings_def)
  qed
  have pattern: "digestPattern ?id" by simp
  have suffix: "suffix (''-car-pack-v1-'' @ ?id) (packKeyFor keyPrefix ?id)" by (simp add: packKeyFor_def suffix_def)
  have heads: "set (sorted_list_of_set (psHeads (thePacks s))) = psHeads (thePacks s)"
    "length (sorted_list_of_set (psHeads (thePacks s))) \<le> 4096"
    using staged by (auto simp: stagedWork_def stageInv_def)
  show "validManifest ?L m"
    using assms(4-8) pattern suffix heads staged objects(1) actions(1) lengths digests
    by (simp add: validManifest_def m manifestForPackLocked_def packOk_def list_all_iff comp_def stagedWork_def)
  show "sizesFit m"
    using assms(8-11) objects(2) actions(2)
    by (auto simp: sizesFit_def m manifestForPackLocked_def list_all_iff isInt64_def)
qed

section \<open>From one process to the next\<close>

text \<open>What the cache holds after a first flush: the entries before, one pack and one manifest.\<close>

lemma flushed_entries:
  assumes "C' = insert (manifestKeyFor keyPrefix manifestID, data) (insert (packKeyFor keyPrefix packID, archive) C)"
    and "unused keyPrefix (fst ` C)"
  shows "{key \<in> fst ` C'. prefix (manifestKeyFor keyPrefix []) key} = {manifestKeyFor keyPrefix manifestID}"
    and "soleEntry C' (manifestKeyFor keyPrefix manifestID) data" and "soleEntry C' (packKeyFor keyPrefix packID) archive"
proof -
  have pack: "\<not> prefix (manifestKeyFor keyPrefix []) (packKeyFor keyPrefix packID)"
    by (simp add: manifestKeyFor_def packKeyFor_def)
  have manifest: "prefix (manifestKeyFor keyPrefix []) (manifestKeyFor keyPrefix manifestID)"
    by (simp add: manifestKeyFor_def)
  have old: "\<not> prefix (manifestKeyFor keyPrefix []) key" if "key \<in> fst ` C" for key
  proof
    assume "prefix (manifestKeyFor keyPrefix []) key"
    then have "prefix (keyPrefix @ ''-car-'') key" by (auto simp: manifestKeyFor_def prefix_def)
    with that assms(2) show False unfolding unused_def by blast
  qed
  have keys: "fst ` C' = insert (manifestKeyFor keyPrefix manifestID) (insert (packKeyFor keyPrefix packID) (fst ` C))"
    unfolding assms(1) by simp
  show "{key \<in> fst ` C'. prefix (manifestKeyFor keyPrefix []) key} = {manifestKeyFor keyPrefix manifestID}"
    unfolding keys using pack manifest old by blast
  have other: "manifestKeyFor keyPrefix manifestID \<noteq> packKeyFor keyPrefix packID" using pack manifest by metis
  have new: "(manifestKeyFor keyPrefix manifestID, x) \<notin> C" "(packKeyFor keyPrefix packID, x) \<notin> C" for x
    using unused_keys [OF assms(2)] by force+
  show "soleEntry C' (manifestKeyFor keyPrefix manifestID) data"
    unfolding soleEntry_def assms(1) using other new by blast
  show "soleEntry C' (packKeyFor keyPrefix packID) archive"
    unfolding soleEntry_def assms(1) using new(2) by simp
qed

lemma encodeManifest_id:
  assumes "ipld_laws L" and "encodeManifest L m = Inr (data, manifestID)"
  shows "validCID L manifestID" and "manifestID \<noteq> []"
proof -
  from assms(2) obtain c where "dagCBORSum L data = Inr c" "manifestID = cidString L c"
    by (auto simp: encodeManifest_def dagCBORCID_def success_iffs)
  then show "validCID L manifestID" "manifestID \<noteq> []" using assms(1) by (auto simp: ipld_laws_def validCID_def)
qed

text \<open>
  A process that starts with the cache in which a first flush has left its pack and its manifest discovers them,
  and from there on resolves every CAS object of the flush.
\<close>

lemma flush_discovered:
  assumes "storingBackend E contents" and "ipld_laws (envIpld E)" and "dagcbor_laws (envIpld E)"
    and "stagedWork (envIpld E) s" and "flushOneLocked E s = (Inr True, s')"
    and "unused (cfgKeyPrefix (cfg s)) (fst ` stored contents s)" and "unused (cfgKeyPrefix (cfg s)) (published s)"
    and "digest \<in> set (selectCASLocked (cfgPackSize (cfg s)) (thePacks s))"
    and "psPendingCAS (thePacks s) digest = Some pending"
    and "length (selectCASLocked (cfgPackSize (cfg s)) (thePacks s)) \<le> 100000"
    and "length (psPendingACOrder (thePacks s)) \<le> 100000"
    and "workingBackend F contents'" and "envIpld F = envIpld E" and "contents' w = stored contents s'"
    and "finite (stored contents s)" and "\<forall>entry \<in> stored contents s'. int (length (snd entry)) \<le> cfgMaxBlobSize c"
    and "validConfig c" and "cfgStorageMode c = ''packs''" and "cfgKeyPrefix c = cfgKeyPrefix (cfg s)"
    and "cfgMaxBlobSize (cfg s) \<le> cfgMaxBlobSize c" and "isInt64 (cfgMaxBlobSize c)"
  shows "\<exists>t p data. New F c w = Inr t \<and> ready contents' (contents' w) c (Some p) t \<and>
    files s (objPath pending) = Some data \<and> objSize pending = int (length data) \<and>
    (\<forall>key. achieves (ready contents' (contents' w) c (Some p)) (server_resolve F key ''cas'' digest)
      (\<lambda>found s. \<exists>ob. found = Some ob \<and> files s (objPath ob) = Some data \<and> objSize ob = int (length data)))"
proof -
  let ?L = "envIpld E" and ?prefix = "cfgKeyPrefix (cfg s)" and ?ds = "selectCASLocked (cfgPackSize (cfg s)) (thePacks s)"
  from flushOneLocked_writes [OF assms(1,5-7)] obtain as entries archive m mdata manifestID where
    as: "as = selectActionsLocked (thePacks s) (set ?ds)" and holds: "packHolds E s ?ds as entries archive"
    and m: "m = manifestForPackLocked (thePacks s) \<lparr>pkID = sha256_hex archive,
      pkKey = packKeyFor ?prefix (sha256_hex archive), pkSize = int (length archive)\<rparr> entries (set ?ds)"
    and enc: "encodeManifest ?L m = Inr (mdata, manifestID)"
    and C': "contents' w = insert (manifestKeyFor ?prefix manifestID, mdata)
      (insert (packKeyFor ?prefix (sha256_hex archive), archive) (stored contents s))"
    unfolding assms(14) by blast
  note entries = flushed_entries [OF C' assms(6)]
  have sizes: "int (length mdata) \<le> cfgMaxBlobSize c" "int (length archive) \<le> cfgMaxBlobSize c"
    using assms(16) unfolding assms(14) [symmetric] C' by auto
  have stage: "stageInv (thePacks s)" "distinct (psPendingACOrder (thePacks s))" using assms(4) by (simp_all add: stagedWork_def)
  have distinct: "distinct ?ds" "distinct as" "length as \<le> 100000"
    using stage assms(11) selectCASFrom_distinct
    by (simp_all add: stageInv_def selectCASLocked_def as selectActionsLocked_def le_trans [OF length_filter_le])
  have "archive \<noteq> []" using holds assms(2) unfolding packHolds_def ipld_laws_def by blast
  note valid = flushed_manifest_valid [OF holds assms(4) m distinct(1,2) assms(10) distinct(3) this sizes(2) assms(20,21)]
  let ?m = "canonicalManifest m"
  have decoded: "decodeManifest ?L mdata manifestID = Inr ?m"
    by (rule decodeManifest_encoded [OF assms(3) valid enc])
  let ?pack = "\<lparr>pkID = sha256_hex archive, pkKey = packKeyFor ?prefix (sha256_hex archive), pkSize = int (length archive)\<rparr>"
  have parts: "mfPacks ?m = [?pack]" "set (mfCAS ?m) = (\<lambda>ob. ob\<lparr>moPackID := sha256_hex archive\<rparr>) ` set (peCAS entries)"
    by (simp_all add: m canonicalManifest_def manifestForPackLocked_def)
  from assms(4,9) obtain data where data: "files s (objPath pending) = Some data" "objSize pending = int (length data)"
    "sha256_hex data = digest" "objSize pending \<le> cfgMaxBlobSize (cfg s)" unfolding stagedWork_def by blast
  note object = packed_object [OF assms(2) holds assms(8,9) data(1-3)]
  from object(1) parts(2) obtain ob0 where ob0: "ob0 \<in> set (mfCAS ?m)" "moDigest ob0 = digest" by fastforce
  from discovered_fields(3) [OF ob0] obtain ob where ob: "ob \<in> set (mfCAS ?m)" "moDigest ob = digest"
    "psCAS (discovered manifestID ?m) digest = Some ob" by blast
  have restores: "restores (envIpld F) archive data ob"
    using ob(1,2) object(2) unfolding parts(2) assms(13) by auto
  have finite: "finite (contents' w)" unfolding C' using assms(15) by simp
  from New_discovers [OF assms(12,17,18) _ _ sizes(1) _ _ encodeManifest_id(2) [OF assms(2) enc] finite]
  obtain t where t: "New F c w = Inr t" "ready contents' (contents' w) c (Some (discovered manifestID ?m)) t"
    using entries(1,2) decoded encodeManifest_id(1) [OF assms(2) enc] unfolding assms(13,19) by blast
  have pack: "psPacks (discovered manifestID ?m) (pkID ?pack) = Some ?pack" by (rule discovered_fields(2) [OF parts(1)])
  have fits: "int (length data) \<le> cfgMaxBlobSize c" using data(2,4) assms(20) by simp
  have "achieves (ready contents' (contents' w) c (Some (discovered manifestID ?m)))
      (server_resolve F key ''cas'' digest)
      (\<lambda>found s. \<exists>ob. found = Some ob \<and> files s (objPath ob) = Some data \<and> objSize ob = int (length data))" for key
    by (rule achieves_server_resolve [OF assms(12) _ _ _ sizes(2) pack discovered_fields(1) ob(3) restores data(3) fits])
      (simp_all add: entries(3))
  with t data(1,2) show ?thesis by blast
qed

text \<open>
  C18. Round trip between processes: a process with pending work in order flushes to a cache that has no
  packs yet, and a process that starts later with this cache, when the cache works and the limits of the
  formats and of the configuration are kept, discovers the manifest and resolves every CAS object of the flush
  to a file with the same bytes.
\<close>

theorem flush_restored:
  assumes "storingBackend E contents" and "ipld_laws (envIpld E)" and "dagcbor_laws (envIpld E)"
    and "stagedWork (envIpld E) s" and "flushOneLocked E s = (Inr True, s')"
    and "unused (cfgKeyPrefix (cfg s)) (fst ` stored contents s)" and "unused (cfgKeyPrefix (cfg s)) (published s)"
    and "digest \<in> set (selectCASLocked (cfgPackSize (cfg s)) (thePacks s))"
    and "psPendingCAS (thePacks s) digest = Some pending"
    and "length (selectCASLocked (cfgPackSize (cfg s)) (thePacks s)) \<le> 100000"
    and "length (psPendingACOrder (thePacks s)) \<le> 100000"
    and "workingBackend F contents'" and "envIpld F = envIpld E" and "contents' w = stored contents s'"
    and "finite (stored contents s)" and "\<forall>entry \<in> stored contents s'. int (length (snd entry)) \<le> cfgMaxBlobSize c"
    and "validConfig c" and "cfgStorageMode c = ''packs''" and "cfgKeyPrefix c = cfgKeyPrefix (cfg s)"
    and "cfgMaxBlobSize (cfg s) \<le> cfgMaxBlobSize c" and "isInt64 (cfgMaxBlobSize c)"
  shows "\<exists>t ob t'. New F c w = Inr t \<and>
    server_resolve F (casKey (cfgKeyPrefix c) digest) ''cas'' digest t = (Inr (Some ob), t') \<and>
    files t' (objPath ob) = files s (objPath pending) \<and> objSize ob = objSize pending"
proof -
  from flush_discovered [OF assms] obtain t p data where t: "New F c w = Inr t" "ready contents' (contents' w) c (Some p) t"
    and data: "files s (objPath pending) = Some data" "objSize pending = int (length data)"
    and found: "achieves (ready contents' (contents' w) c (Some p))
      (server_resolve F (casKey (cfgKeyPrefix c) digest) ''cas'' digest)
      (\<lambda>found s. \<exists>ob. found = Some ob \<and> files s (objPath ob) = Some data \<and> objSize ob = int (length data))"
    by blast
  from achievesD [OF found t(2)] data t(1) show ?thesis by auto
qed

end
