(* ===== verification/EndToEnd.thy ===== *)
theory EndToEnd
  imports Backlog Restore
begin

text \<open>
  From one job to the next: an upload to a packed server, its \<open>Close\<close>, and a download from the server of a
  later job over the same cache.
\<close>

section \<open>What a backlog flushes\<close>

lemma backlog_parts:
  assumes "backlog L s"
  obtains p where "packs s = Some p" "thePacks s = p" "pendingOf L s p" "unflushed p"
  using assms that by (auto simp: backlog_def fresh_def pendingInv_def thePacks_def)

lemma backlog_stagedWork:
  assumes "backlog L s"
  shows "stagedWork L s"
proof -
  obtain p where the: "thePacks s = p" and p: "pendingOf L s p" "unflushed p" using backlog_parts [OF assms] by blast
  have object: "\<exists>data. files s (objPath ob) = Some data \<and> objSize ob = int (length data) \<and>
      objSize ob \<le> cfgMaxBlobSize (cfg s) \<and> (\<forall>d. key = casKey (cfgKeyPrefix (cfg s)) d \<longrightarrow> sha256_hex data = d)"
    if "objects s key = Some ob" for key ob
    using assms that by (auto simp: backlog_def fresh_def serverInv_def storedOk_def)
  have cas: "\<exists>data. files s (objPath ob) = Some data \<and> objSize ob = int (length data) \<and>
      sha256_hex data = digest \<and> objSize ob \<le> cfgMaxBlobSize (cfg s)" if "psPendingCAS p digest = Some ob" for digest ob
  proof -
    have "objects s (casKey (cfgKeyPrefix (cfg s)) digest) = Some ob" using p(1) that by (simp add: pendingOf_def)
    from object [OF this] show ?thesis by auto
  qed
  have action: "digestPattern digest \<and> objSize (paObject pa) \<in> {0..cfgMaxBlobSize (cfg s)}"
    if "psPendingActions p digest = Some pa" for digest pa
  proof -
    have pending: "actionPending L s digest pa" using p(1) that by (simp add: pendingOf_def)
    then have "objects s (objectKey (cfgKeyPrefix (cfg s)) ''ac'' digest) = Some (paObject pa)" by (simp add: actionPending_def)
    from object [OF this] pending show ?thesis by (auto simp: actionPending_def)
  qed
  from p cas action show ?thesis unfolding stagedWork_def the pendingOf_def unflushed_def by simp
qed

text \<open>While the pending bytes are below the size of a pack, everything that is pending fits into one.\<close>

lemma selectCASFrom_all:
  assumes "\<And>d ob. pending d = Some ob \<Longrightarrow> 0 \<le> objSize ob"
  shows "n + totalSize pending order < targetSize \<Longrightarrow>
    selectCASFrom targetSize pending order selected n = selected @ filter (\<lambda>d. pending d \<noteq> None) order"
proof (induction order arbitrary: selected n)
  case (Cons d order)
  have rest: "0 \<le> totalSize pending order"
    unfolding totalSize_def by (rule sum_list_nonneg) (auto split: option.splits dest: assms)
  show ?case
  proof (cases "pending d")
    case None
    then show ?thesis using Cons by (simp add: totalSize_def)
  next
    case (Some ob)
    then show ?thesis using Cons rest by simp
  qed
qed simp

lemma backlog_selects:
  assumes "backlog L s" and "packs s = Some p" and "psPendingBytes p < cfgPackSize (cfg s)"
  shows "selectCASLocked (cfgPackSize (cfg s)) p = psPendingCASOrder p"
proof -
  have p: "pendingOf L s p" "unflushed p" using backlog_parts [OF assms(1)] assms(2) by auto
  have nonneg: "0 \<le> objSize ob" if "psPendingCAS p d = Some ob" for d ob
  proof -
    have "objects s (casKey (cfgKeyPrefix (cfg s)) d) = Some ob" using p(1) that by (simp add: pendingOf_def)
    then show ?thesis using fresh_size assms(1) by (auto simp: backlog_def)
  qed
  have "0 + totalSize (psPendingCAS p) (psPendingCASOrder p) < cfgPackSize (cfg s)"
    using p(2) assms(3) by (simp add: unflushed_def)
  from selectCASFrom_all [where selected = "[]", OF nonneg this] have
    "selectCASLocked (cfgPackSize (cfg s)) p = filter (\<lambda>d. psPendingCAS p d \<noteq> None) (psPendingCASOrder p)"
    by (simp add: selectCASLocked_def)
  also have "\<dots> = psPendingCASOrder p"
    using p(2) unfolding unflushed_def stageInv_def by (intro filter_True) auto
  finally show ?thesis .
qed

text \<open>After a flush that took every CAS object, there is nothing left to flush.\<close>

lemma flushed_everything:
  assumes "packs s = Some p" and "stageInv p" and run: "flushOneLocked E s = (Inr True, s')"
    and all: "selectCASLocked (cfgPackSize (cfg s)) p = psPendingCASOrder p"
  shows "flushOneLocked E s' = (Inr False, s')"
proof -
  let ?ds = "psPendingCASOrder p"
  let ?as = "selectActionsLocked p (set ?ds)"
  have the: "thePacks s = p" using assms(1) by (simp add: thePacks_def)
  from flushOneLocked_packs [OF run refl refl] obtain pack entries m manifestID path s1 where
    build: "buildPackLocked E ?ds ?as s = (Inr (path, entries, pkSize pack, pkID pack), s1)"
    and m: "m = manifestForPackLocked p pack entries (set ?ds)"
    and packs': "packs s' = Some (removePendingLocked ?ds ?as (applyManifestLocked manifestID m p))"
    and cfg: "cfg s' = cfg s"
    unfolding the all using assms(1) by auto
  let ?q = "removePendingLocked ?ds ?as (applyManifestLocked manifestID m p)"
  from buildPackLocked_run [OF build] have "map moDigest (peCAS entries) = ?ds" by (auto dest: packHolds_digests(1))
  then have "map moDigest (mfCAS m) = ?ds" unfolding m by (simp add: manifestForPackLocked_def comp_def)
  then have "moDigest ` set (mfCAS m) = set ?ds" by (metis set_map)
  then have known: "psCAS ?q d \<noteq> None" if "psCAS p d \<noteq> None \<or> d \<in> set ?ds" for d
    using that applyManifest_dom [of manifestID m p] by (auto simp: removePending_fields)
  have pending: "psPendingCAS ?q = Map.empty"
    using assms(2) by (auto simp: removePending_fields applyManifest_fields stageInv_def restrict_map_def fun_eq_iff)
  then have "selectCASLocked n ?q = []" for n
    by (simp add: selectCASLocked_def selectCASFrom_empty)
  moreover have "selectActionsLocked ?q {} = []"
  proof -
    have "\<not> list_all (publishable ?q {}) (paClosure pa)" if d: "d \<in> set (psPendingACOrder p)" "d \<notin> set ?as"
      and pa: "psPendingActions p d = Some pa" for d pa
    proof
      assume "list_all (publishable ?q {}) (paClosure pa)"
      then have "list_all (publishable p (set ?ds)) (paClosure pa)"
        using applyManifest_dom [of manifestID m p] \<open>moDigest ` set (mfCAS m) = set ?ds\<close>
        by (auto simp: list_all_iff publishable_def removePending_fields)
      with d pa show False by (simp add: selectActionsLocked_def)
    qed
    then show ?thesis
      by (auto simp: selectActionsLocked_def [of ?q] removePending_fields applyManifest_fields filterPending_def
          restrict_map_def filter_empty_conv split: option.splits if_splits)
  qed
  ultimately show ?thesis using packs' by (simp add: flushOneLocked_def thePacks_def)
qed

lemma close_flushes:
  assumes log: "backlog (envIpld E) s" and p: "packs s = Some p" and "psPendingBytes p < cfgPackSize (cfg s)"
    and digest: "psPendingCAS p digest = Some ob" and run: "server_Close E s = (Inr (), s')"
  shows "flushOneLocked E s = (Inr True, s')" and "digest \<in> set (selectCASLocked (cfgPackSize (cfg s)) p)"
proof -
  note all = backlog_selects [OF log p assms(3)]
  have inv: "stageInv p" using backlog_parts [OF log] p by (auto simp: unflushed_def)
  show selected: "digest \<in> set (selectCASLocked (cfgPackSize (cfg s)) p)"
    using inv digest unfolding all stageInv_def by auto
  have loop: "flushLoop E True s = (Inr (), s')"
    using run p by (simp add: server_Close_def packs_close_def flush_def)
  obtain q s1 where q: "flushOneLocked E s = (q, s1)" by (metis surj_pair)
  have "q = Inr True"
  proof (cases q)
    case (Inl e)
    with loop q show ?thesis by (simp add: flushLoop.simps [of E True s])
  next
    case (Inr flushed)
    with flushOneLocked_packs [OF q refl refl] selected p show ?thesis
      by (cases flushed) (auto simp: thePacks_def)
  qed
  with q have one: "flushOneLocked E s = (Inr True, s1)" by simp
  have "flushLoop E True s1 = (Inr (), s')" using loop one by (simp add: flushLoop.simps [of E True s])
  with flushed_everything [OF p inv one all] have "s' = s1" by (simp add: flushLoop.simps [of E True s1])
  with one show "flushOneLocked E s = (Inr True, s')" by simp
qed

section \<open>Downloading\<close>

lemma openFile_works:
  assumes "workingBackend F contents" and "files s path = Some data"
  shows "\<exists>w. openFile F path s = (Inr (), s\<lparr>world := w\<rparr>)" "\<exists>w. readFile F path s = (Inr data, s\<lparr>world := w\<rparr>)"
proof -
  obtain w where "fault F OpenFile s = (Inr (), s\<lparr>world := w\<rparr>)" using fault_works [OF assms(1)] by blast
  then show "\<exists>w. openFile F path s = (Inr (), s\<lparr>world := w\<rparr>)"
    using assms(2) by (intro exI [of _ w]) (simp add: openFile_def attempt_def andThen_def)
  obtain w where "fault F ReadFile s = (Inr (), s\<lparr>world := w\<rparr>)" using fault_works [OF assms(1)] by blast
  then show "\<exists>w. readFile F path s = (Inr data, s\<lparr>world := w\<rparr>)"
    using assms(2) by (intro exI [of _ w]) (simp add: readFile_def attempt_def andThen_def)
qed

lemma serveObject_works:
  assumes "workingBackend F contents" and "files s (objPath ob) = Some data" and "reqMethod r \<noteq> ''HEAD''" and "reqTakes r = None"
  shows "\<exists>response s'. serveObject F r ob s = (response, s') \<and> rsStatus response = 200 \<and> rsBody response = data \<and> \<not> rsBroken response"
proof -
  obtain w where opened: "openFile F (objPath ob) s = (Inr (), s\<lparr>world := w\<rparr>)" using openFile_works(1) [OF assms(1,2)] by blast
  let ?s = "count Hits (s\<lparr>world := w\<rparr>)"
  have "files ?s (objPath ob) = Some data" using assms(2) by simp
  from openFile_works(2) [OF assms(1) this] obtain w' where "readFile F (objPath ob) ?s = (Inr data, ?s\<lparr>world := w'\<rparr>)" by blast
  then show ?thesis
    using opened assms(3,4) by (simp add: serveObject_def andThen_def Let_def respond_def)
qed

lemma get_works:
  assumes "workingBackend F contents" and "ready contents C c p t" and path: "parseObjectPath (reqPath r) = Some (''cas'', digest)"
    and "reqMethod r = ''GET''" and "reqTakes r = None" and "digest \<noteq> emptySHA256Digest"
    and found: "\<And>key. achieves (ready contents C c p) (server_resolve F key ''cas'' digest)
      (\<lambda>found s. \<exists>ob. found = Some ob \<and> files s (objPath ob) = Some data \<and> objSize ob = int (length data))"
  shows "\<exists>response t'. serveHTTP F r t = (response, t') \<and> rsStatus response = 200 \<and> rsBody response = data \<and> \<not> rsBroken response"
proof -
  let ?key = "objectKey (cfgKeyPrefix (cfg t)) ''cas'' digest"
  have "ready contents C c p (count Requests t)" using assms(2) by simp
  from achievesD [OF found this, of ?key] obtain ob t1 where
    t1: "server_resolve F ?key ''cas'' digest (count Requests t) = (Inr (Some ob), t1)" "files t1 (objPath ob) = Some data"
    by (elim exE conjE) simp
  from serveObject_works [OF assms(1) t1(2) _ assms(5)] assms(4) obtain response t' where
    "serveObject F r ob t1 = (response, t')" "rsStatus response = 200" "rsBody response = data" "\<not> rsBroken response" by auto
  moreover have "serveHTTP F r t = serveObject F r ob t1"
    using t1(1) assms(4,6) by (simp add: serveHTTP_object [OF path] Let_def readMethod_def handleRead_def andThen_def)
  ultimately show ?thesis by auto
qed

section \<open>The cache across jobs\<close>

text \<open>Requests to a packed server leave the cache as it is, and publish nothing.\<close>

definition untouched :: "('w \<Rightarrow> (string \<times> bytes) set) \<Rightarrow> (string \<times> bytes) set \<Rightarrow> config \<Rightarrow> 'w server \<Rightarrow> bool" where
  "untouched contents C c s \<longleftrightarrow> stored contents s = C \<and> published s = {} \<and> cfg s = c \<and> packs s \<noteq> None"

lemma untouched_serves: "storingBackend E contents \<Longrightarrow> serves E (untouched contents C c)"
  by (rule serves_stored) (auto simp only: untouched_def)

lemma untouched_New:
  assumes "storingBackend E contents" and "New E c w = Inr s" and "packs s = Some emptyPackStore"
  shows "untouched contents (contents w) c s"
proof -
  have reads: "closedReads E (\<lambda>w'. contents w' = contents w)" using assms(1) by (simp add: storingBackend_def)
  from New_world [OF reads assms(2)] New_start [OF assms(2)] assms(3) backlog_New(2) [OF assms(2,3)]
  show ?thesis by (simp add: untouched_def stored_def)
qed

text \<open>
  A job that uploads: a packed server starts and finds no manifest, serves requests, accepts the upload of an
  object that it does not have, serves more requests, in the state \<open>s\<close> after them is closed, and ends in \<open>s'\<close>.
\<close>

definition uploadJob ::
    "('w, 'c) env \<Rightarrow> config \<Rightarrow> 'w \<Rightarrow> request list \<Rightarrow> request \<Rightarrow> request list \<Rightarrow> string \<Rightarrow> 'w server \<Rightarrow> 'w server \<Rightarrow> bool" where
  "uploadJob E c w before r after digest s s' \<longleftrightarrow> (\<exists>s0 s1 s2 responses1 response responses2.
     New E c w = Inr s0 \<and> packs s0 = Some emptyPackStore \<and> serveAll E before s0 = (responses1, s1) \<and>
     objects s1 (casKey (cfgKeyPrefix c) digest) = None \<and> reqMethod r = ''PUT'' \<and>
     parseObjectPath (reqPath r) = Some (''cas'', digest) \<and> serveHTTP E r s1 = (response, s2) \<and> rsStatus response = 204 \<and>
     serveAll E after s2 = (responses2, s) \<and> server_Close E s = (Inr (), s'))"

text \<open>A later job with the entries \<open>C\<close> in its cache, which works and admits their sizes.\<close>

definition laterJob ::
    "('v, 'c) env \<Rightarrow> ('v \<Rightarrow> (string \<times> bytes) set) \<Rightarrow> (string \<times> bytes) set \<Rightarrow> config \<Rightarrow> config \<Rightarrow> 'v \<Rightarrow> bool" where
  "laterJob F contents C c c' w \<longleftrightarrow> workingBackend F contents \<and> contents w = C \<and>
     (\<forall>entry \<in> C. int (length (snd entry)) \<le> cfgMaxBlobSize c') \<and> validConfig c' \<and> cfgStorageMode c' = ''packs'' \<and>
     cfgKeyPrefix c' = cfgKeyPrefix c \<and> cfgMaxBlobSize c \<le> cfgMaxBlobSize c' \<and> isInt64 (cfgMaxBlobSize c')"

text \<open>Before it is closed, the first job has the uploaded body pending, and has not changed the cache.\<close>

lemma uploadJob_pending:
  assumes store: "storingBackend E contents" and job: "uploadJob E c w before r after digest s s'" and "cfgWriteEnabled c"
  shows "\<exists>p ob. backlog (envIpld E) s \<and> untouched contents (contents w) c s \<and> packs s = Some p \<and>
    psPendingCAS p digest = Some ob \<and> fileContent s (objPath ob) = concat (reqBody r)"
proof -
  from job obtain s0 s1 s2 responses1 response responses2 where
    new: "New E c w = Inr s0" "packs s0 = Some emptyPackStore" and first: "serveAll E before s0 = (responses1, s1)"
    and put: "objects s1 (casKey (cfgKeyPrefix c) digest) = None" "reqMethod r = ''PUT''"
      "parseObjectPath (reqPath r) = Some (''cas'', digest)" "serveHTTP E r s1 = (response, s2)" "rsStatus response = 204"
    and second: "serveAll E after s2 = (responses2, s)"
    unfolding uploadJob_def by blast
  have s1: "backlog (envIpld E) s1" "untouched contents (contents w) c s1"
    using keepsD [OF backlog_served(2) backlog_New(1) [OF new] first] untouched_New [OF store new]
      keepsD [OF serves.kept_serveAll [OF untouched_serves [OF store]] _ first] by auto
  then have cfg: "cfg s1 = c" by (simp add: untouched_def)
  from put_pending [OF s1(1) put(4,2,3,5), unfolded cfg, OF assms(3) put(1)] obtain p1 ob where
    p1: "packs s2 = Some p1" "psPendingCAS p1 digest = Some ob" "objects s2 (casKey (cfgKeyPrefix c) digest) = Some ob"
      "fileContent s2 (objPath ob) = concat (reqBody r)"
    by blast
  have s2: "backlog (envIpld E) s2" by (rule keepsD [OF backlog_served(1) s1(1) put(4)])
  have "untouched contents (contents w) c s2"
    by (rule keepsD [OF serves.kept_serveHTTP [OF untouched_serves [OF store]] s1(2) put(4)])
  then have un: "untouched contents (contents w) c s"
    by (rule keepsD [OF serves.kept_serveAll [OF untouched_serves [OF store]] _ second])
  have "stillPending digest ob s"
    by (rule keepsD [OF staying.kept_serveAll _ second]) (use p1 in \<open>simp add: stillPending_def\<close>)
  then obtain p where p: "packs s = Some p" "psPendingCAS p digest = Some ob" by (auto simp: stillPending_def)
  have "evolves s2 s" using s2 serveAll_evolves [OF _ _ second] by (simp add: backlog_def fresh_def)
  then have "fileContent s (objPath ob) = concat (reqBody r)"
    using p1(4) owned_object [OF p1(3)] by (simp add: evolves_def fileContent_def)
  with keepsD [OF backlog_served(2) s2 second] un p show ?thesis by blast
qed

text \<open>
  C1. What one job uploads, a later job downloads (\<open>New\<close>, \<open>handlePut\<close>, \<open>Close\<close>, \<open>handleRead\<close>): a packed server
  that may write starts with a cache in which its prefix is not in use, and serves any requests; one of them
  uploads a CAS object that it does not have, and is answered with 204. When it is closed without an error while
  what is pending is less than a pack, then the server of a later job with this cache, when the cache works and the
  limits of the formats and of the configuration are kept, starts, and answers a GET of the object with 200 and
  exactly the bytes that were uploaded. (The empty object is served without being stored.)
\<close>

theorem uploaded_served_later:
  assumes "storingBackend E contents" and "ipld_laws (envIpld E)" and "dagcbor_laws (envIpld E)"
    and "uploadJob E c w before r after digest s s'" and "cfgWriteEnabled c"
    and "unused (cfgKeyPrefix c) (fst ` contents w)" and "finite (contents w)"
    and "psPendingBytes (thePacks s) < cfgPackSize c" and "pendingWork (thePacks s) \<le> 100000"
    and "laterJob F contents' (stored contents s') c c' w'" and "envIpld F = envIpld E"
    and "reqMethod g = ''GET''" and "parseObjectPath (reqPath g) = Some (''cas'', digest)" and "reqTakes g = None"
    and "digest \<noteq> emptySHA256Digest"
  shows "\<exists>t answer t'. New F c' w' = Inr t \<and> serveHTTP F g t = (answer, t') \<and>
    rsStatus answer = 200 \<and> rsBody answer = concat (reqBody r) \<and> \<not> rsBroken answer"
proof -
  from uploadJob_pending [OF assms(1,4,5)] obtain p ob where log: "backlog (envIpld E) s"
    and un: "stored contents s = contents w" "published s = {}" "cfg s = c"
    and p: "packs s = Some p" "psPendingCAS p digest = Some ob" and body: "fileContent s (objPath ob) = concat (reqBody r)"
    unfolding untouched_def by blast
  have the: "thePacks s = p" using p(1) by (simp add: thePacks_def)
  have close: "server_Close E s = (Inr (), s')" using assms(4) by (auto simp: uploadJob_def)
  from close_flushes [OF log p(1) _ p(2) close] assms(8) have
    flush: "flushOneLocked E s = (Inr True, s')" "digest \<in> set (selectCASLocked (cfgPackSize c) p)"
    unfolding un(3) the by blast+
  have selected: "selectCASLocked (cfgPackSize c) p = psPendingCASOrder p"
    using backlog_selects [OF log p(1)] assms(8) unfolding un(3) the by blast
  have small: "length (selectCASLocked (cfgPackSize c) p) \<le> 100000" "length (psPendingACOrder p) \<le> 100000"
    using assms(9) unfolding the selected pendingWork_def by simp_all
  note later = assms(10) [unfolded laterJob_def]
  have fresh: "unused (cfgKeyPrefix c) {}" by (simp add: unused_def)
  from flush_discovered [OF assms(1-3) backlog_stagedWork [OF log] flush(1), unfolded un the,
      OF assms(6) fresh flush(2) p(2) small _ assms(11) _ assms(7)] later
  obtain t q data where t: "New F c' w' = Inr t" "ready contents' (contents' w') c' (Some q) t"
    and data: "files s (objPath ob) = Some data"
    and found: "\<And>key. achieves (ready contents' (contents' w') c' (Some q)) (server_resolve F key ''cas'' digest)
      (\<lambda>found s. \<exists>ob. found = Some ob \<and> files s (objPath ob) = Some data \<and> objSize ob = int (length data))"
    by blast
  have "data = concat (reqBody r)" using data body by (simp add: fileContent_def)
  moreover have "workingBackend F contents'" using later by blast
  ultimately show ?thesis using get_works [OF _ t(2) assms(13,12,14,15) found] t(1) by blast
qed

end
