(* ===== verification/Loading.thy ===== *)
theory Loading
  imports Resolve
begin

text \<open>
  \<open>loadPack\<close> with many callers at once (\<open>pack_store.go\<close>): its critical sections under \<open>mu\<close>, the wait for the
  download of another caller and the download outside of the lock are the steps of an interleaving relation.
  Unlike \<open>publishOnce\<close>, a caller that waits returns what the download returned, an error too. A download may
  end with any result at any time, and the packs that manifests describe may change between the steps.
\<close>

section \<open>The state\<close>

text \<open>
  Downloads are numbered in order of creation; \<open>loDone\<close> are those whose channel is closed, with the path or
  the error of the \<open>packLoad\<close>. \<open>loDownloads\<close> is the history of what \<open>downloadPack\<close> returned.
\<close>

datatype loadPhase =
    Calling
  | Awaiting nat
  | Downloading nat packDescriptor
  | Downloaded nat "go_error + nat"
  | Answered "go_error + nat"

record loadState =
  loLoaded :: "string \<rightharpoonup> nat"
  loLoading :: "string \<rightharpoonup> nat"
  loDone :: "nat \<rightharpoonup> go_error + nat"
  loNext :: nat
  loPhase :: "loadPhase list"
  loDownloads :: "(string \<times> (go_error + nat)) list"

definition setLoadPhase :: "nat \<Rightarrow> loadPhase \<Rightarrow> loadState \<Rightarrow> loadState" where
  "setLoadPhase i ph s = s\<lparr>loPhase := (loPhase s)[i := ph]\<rparr>"

section \<open>The steps\<close>

text \<open>The first critical section; \<open>known\<close> is what \<open>packs\<close> has under the ID at this moment.\<close>

definition loadLocked :: "string \<Rightarrow> nat \<Rightarrow> packDescriptor option \<Rightarrow> loadState \<Rightarrow> loadState" where
  "loadLocked packID i known s =
     (case loLoaded s packID of
        Some path \<Rightarrow> setLoadPhase i (Answered (Inr path)) s
      | None \<Rightarrow>
        (case loLoading s packID of
           Some loading \<Rightarrow> setLoadPhase i (Awaiting loading) s
         | None \<Rightarrow>
           (case known of
              None \<Rightarrow> setLoadPhase i (Answered (Inl (Failure (''manifest references unavailable pack '' @ packID)))) s
            | Some descriptor \<Rightarrow> setLoadPhase i (Downloading (loNext s) descriptor)
                (s\<lparr>loLoading := (loLoading s)(packID \<mapsto> loNext s), loNext := Suc (loNext s)\<rparr>))))"

text \<open>\<open>downloadPack\<close> returns; then the second critical section.\<close>

definition downloadReturns :: "string \<Rightarrow> nat \<Rightarrow> nat \<Rightarrow> go_error + nat \<Rightarrow> loadState \<Rightarrow> loadState" where
  "downloadReturns packID i loading r s =
     setLoadPhase i (Downloaded loading r) (s\<lparr>loDownloads := loDownloads s @ [(packID, r)]\<rparr>)"

definition loadFinished :: "string \<Rightarrow> nat \<Rightarrow> nat \<Rightarrow> go_error + nat \<Rightarrow> loadState \<Rightarrow> loadState" where
  "loadFinished packID i loading r s =
     setLoadPhase i (Answered r) (s\<lparr>
       loLoaded := (case r of Inl _ \<Rightarrow> loLoaded s | Inr path \<Rightarrow> (loLoaded s)(packID \<mapsto> path)),
       loLoading := (loLoading s)(packID := None), loDone := (loDone s)(loading \<mapsto> r)\<rparr>)"

text \<open>The caller \<open>i\<close> asks for the pack \<open>packIDs ! i\<close>. The flag of a step says whether it is a cancellation.\<close>

inductive loadStep :: "string list \<Rightarrow> bool \<Rightarrow> loadState \<Rightarrow> loadState \<Rightarrow> bool" for packIDs where
  enter: "i < length packIDs \<Longrightarrow> loPhase s ! i = Calling \<Longrightarrow>
    loadStep packIDs False s (loadLocked (packIDs ! i) i known s)"
| wake: "i < length packIDs \<Longrightarrow> loPhase s ! i = Awaiting loading \<Longrightarrow> loDone s loading = Some r \<Longrightarrow>
    loadStep packIDs False s (setLoadPhase i (Answered r) s)"
| cancel: "i < length packIDs \<Longrightarrow> loPhase s ! i = Awaiting loading \<Longrightarrow>
    loadStep packIDs True s (setLoadPhase i (Answered (Inl (Failure m))) s)"
| downloads: "i < length packIDs \<Longrightarrow> loPhase s ! i = Downloading loading descriptor \<Longrightarrow>
    loadStep packIDs False s (downloadReturns (packIDs ! i) i loading r s)"
| finish: "i < length packIDs \<Longrightarrow> loPhase s ! i = Downloaded loading r \<Longrightarrow>
    loadStep packIDs False s (loadFinished (packIDs ! i) i loading r s)"

definition loadStart :: "string list \<Rightarrow> (string \<rightharpoonup> nat) \<Rightarrow> loadState" where
  "loadStart packIDs loaded = \<lparr>loLoaded = loaded, loLoading = Map.empty, loDone = Map.empty, loNext = 0,
     loPhase = replicate (length packIDs) Calling, loDownloads = []\<rparr>"

inductive loadReachable :: "string list \<Rightarrow> (string \<rightharpoonup> nat) \<Rightarrow> nat \<Rightarrow> loadState \<Rightarrow> bool" for packIDs loaded where
  start: "loadReachable packIDs loaded 0 (loadStart packIDs loaded)"
| more: "loadReachable packIDs loaded n s \<Longrightarrow> loadStep packIDs c s s' \<Longrightarrow> loadReachable packIDs loaded (Suc n) s'"

section \<open>The invariant\<close>

fun fetches :: "loadPhase \<Rightarrow> nat option" where
  "fetches (Downloading n descriptor) = Some n"
| "fetches (Downloaded n r) = Some n"
| "fetches _ = None"

definition loadingInv :: "string list \<Rightarrow> loadState \<Rightarrow> bool" where
  "loadingInv packIDs s \<longleftrightarrow> length (loPhase s) = length packIDs \<and> dom (loDone s) \<subseteq> {..< loNext s} \<and>
     (\<forall>packID n. loLoading s packID = Some n \<longrightarrow> loLoaded s packID = None \<and> n < loNext s \<and> loDone s n = None \<and>
        (\<exists>i < length packIDs. packIDs ! i = packID \<and> fetches (loPhase s ! i) = Some n)) \<and>
     (\<forall>i < length packIDs. \<forall>n. fetches (loPhase s ! i) = Some n \<longrightarrow> loLoading s (packIDs ! i) = Some n) \<and>
     (\<forall>i < length packIDs. \<forall>j < length packIDs. \<forall>n.
        fetches (loPhase s ! i) = Some n \<longrightarrow> fetches (loPhase s ! j) = Some n \<longrightarrow> i = j) \<and>
     (\<forall>i < length packIDs. \<forall>n. loPhase s ! i = Awaiting n \<longrightarrow>
        (loDone s n = None \<longrightarrow> loLoading s (packIDs ! i) = Some n) \<and>
        (\<forall>path. loDone s n = Some (Inr path) \<longrightarrow> loLoaded s (packIDs ! i) = Some path))"

definition downloadsInv :: "string list \<Rightarrow> (string \<rightharpoonup> nat) \<Rightarrow> loadState \<Rightarrow> bool" where
  "downloadsInv packIDs loaded s \<longleftrightarrow>
     (\<forall>packID path. (packID, Inr path) \<in> set (loDownloads s) \<longrightarrow> loLoaded s packID = Some path \<or>
        (\<exists>i < length packIDs. \<exists>n. packIDs ! i = packID \<and> loPhase s ! i = Downloaded n (Inr path))) \<and>
     (\<forall>packID path. loLoaded s packID = Some path \<longrightarrow>
        loaded packID = Some path \<or> (packID, Inr path) \<in> set (loDownloads s)) \<and>
     (\<forall>packID path xs ys. loDownloads s = xs @ (packID, Inr path) # ys \<longrightarrow> packID \<notin> fst ` set ys) \<and>
     (\<forall>packID path. loaded packID = Some path \<longrightarrow>
        loLoaded s packID = Some path \<and> packID \<notin> fst ` set (loDownloads s)) \<and>
     (\<forall>i < length packIDs. \<forall>path. loPhase s ! i = Answered (Inr path) \<longrightarrow> loLoaded s (packIDs ! i) = Some path) \<and>
     (\<forall>i < length packIDs. \<forall>n path. loPhase s ! i = Downloaded n (Inr path) \<longrightarrow>
        (packIDs ! i, Inr path) \<in> set (loDownloads s))"

lemma setLoadPhase_fields [simp]:
  "loLoaded (setLoadPhase i ph s) = loLoaded s" "loLoading (setLoadPhase i ph s) = loLoading s"
  "loDone (setLoadPhase i ph s) = loDone s" "loNext (setLoadPhase i ph s) = loNext s"
  "loDownloads (setLoadPhase i ph s) = loDownloads s" "loPhase (setLoadPhase i ph s) = (loPhase s)[i := ph]"
  by (simp_all add: setLoadPhase_def)

lemma loadStart_inv: "loadingInv packIDs (loadStart packIDs loaded)" "downloadsInv packIDs loaded (loadStart packIDs loaded)"
  by (auto simp: loadingInv_def downloadsInv_def loadStart_def)

lemma loadPhase_at [simp]:
  "i < length (loPhase s) \<Longrightarrow> (loPhase s)[i := ph] ! j = (if j = i then ph else loPhase s ! j)"
  by (auto simp: nth_list_update)

lemma loadingD:
  assumes "loadingInv packIDs s"
  shows "length (loPhase s) = length packIDs"
    and "loLoading s packID = Some n \<Longrightarrow> loLoaded s packID = None \<and> n < loNext s \<and> loDone s n = None"
    and "loLoading s packID = Some n \<Longrightarrow> \<exists>i < length packIDs. packIDs ! i = packID \<and> fetches (loPhase s ! i) = Some n"
    and "i < length packIDs \<Longrightarrow> fetches (loPhase s ! i) = Some n \<Longrightarrow> loLoading s (packIDs ! i) = Some n"
    and "i < length packIDs \<Longrightarrow> j < length packIDs \<Longrightarrow> fetches (loPhase s ! i) = Some n \<Longrightarrow>
      fetches (loPhase s ! j) = Some n \<Longrightarrow> i = j"
    and "i < length packIDs \<Longrightarrow> loPhase s ! i = Awaiting n \<Longrightarrow> loDone s n = None \<Longrightarrow> loLoading s (packIDs ! i) = Some n"
    and "i < length packIDs \<Longrightarrow> loPhase s ! i = Awaiting n \<Longrightarrow> loDone s n = Some (Inr path) \<Longrightarrow>
      loLoaded s (packIDs ! i) = Some path"
    and "loDone s n = Some r \<Longrightarrow> n < loNext s"
  using assms unfolding loadingInv_def by (elim conjE, fastforce)+

section \<open>Preservation\<close>

lemma loading_setPhase:
  assumes inv: "loadingInv packIDs s" and i: "i < length packIDs" and "fetches (loPhase s ! i) = fetches ph"
    and "\<And>n. ph = Awaiting n \<Longrightarrow> loLoading s (packIDs ! i) = Some n"
  shows "loadingInv packIDs (setLoadPhase i ph s)"
proof -
  have len: "i < length (loPhase s)" using i loadingD(1) [OF inv] by simp
  have same: "fetches ((loPhase s)[i := ph] ! j) = fetches (loPhase s ! j)" for j
    using assms(3) len by simp
  show ?thesis
    unfolding loadingInv_def setLoadPhase_fields same
  proof (intro conjI allI impI, goal_cases)
    case 1 show ?case using loadingD(1) [OF inv] by simp
  next
    case 2 show ?case using loadingD(8) [OF inv] by auto
  next
    case (9 j n) then show ?case using loadingD(6) [OF inv] assms(4) len by (auto split: if_splits)
  next
    case (10 j n path)
    then show ?case using loadingD(7) [OF inv] loadingD(2) [OF inv] assms(4) len by (fastforce split: if_splits)
  qed (use loadingD(2-5) [OF inv] in blast)+
qed

lemma loading_lead:
  assumes inv: "loadingInv packIDs s" and i: "i < length packIDs" and ph: "loPhase s ! i = Calling"
    and free: "loLoaded s (packIDs ! i) = None" "loLoading s (packIDs ! i) = None"
  shows "loadingInv packIDs (setLoadPhase i (Downloading (loNext s) descriptor)
    (s\<lparr>loLoading := (loLoading s)(packIDs ! i \<mapsto> loNext s), loNext := Suc (loNext s)\<rparr>))"
proof -
  have len: "i < length (loPhase s)" using i loadingD(1) [OF inv] by simp
  have old: "j \<noteq> i" "n < loNext s" "packIDs ! j \<noteq> packIDs ! i"
    if "j < length packIDs" "fetches (loPhase s ! j) = Some n" for j n
    using that loadingD(2,4) [OF inv] ph free by fastforce+
  have waits: "packIDs ! j \<noteq> packIDs ! i" if "j < length packIDs" "loPhase s ! j = Awaiting n" "loDone s n = None" for j n
    using loadingD(6) [OF inv that] free by auto
  have fresh: "loDone s (loNext s) = None" using loadingD(8) [OF inv] by (metis less_irrefl not_None_eq)
  show ?thesis
    unfolding loadingInv_def
  proof (intro conjI allI impI, goal_cases)
    case 1 show ?case using loadingD(1) [OF inv] by simp
  next
    case 2 show ?case using loadingD(8) [OF inv] by (auto simp: less_Suc_eq)
  next
    case (3 packID n) then show ?case using loadingD(2) [OF inv] free by (auto split: if_splits)
  next
    case (4 packID n) then show ?case using loadingD(2) [OF inv] by (auto simp: less_Suc_eq split: if_splits)
  next
    case (5 packID n) then show ?case using loadingD(2) [OF inv] fresh by (auto split: if_splits)
  next
    case (6 packID n)
    show ?case
    proof (cases "packID = packIDs ! i")
      case True then show ?thesis using 6 i len by (intro exI [of _ i]) simp
    next
      case False
      with 6 obtain j where "j < length packIDs" "packIDs ! j = packID" "fetches (loPhase s ! j) = Some n"
        using loadingD(3) [OF inv, of packID n] by auto
      then show ?thesis using old(1) len by (intro exI [of _ j]) auto
    qed
  next
    case (7 j n) then show ?case using old(3) loadingD(4) [OF inv] len by (auto split: if_splits)
  next
    case (8 j k n)
    let ?at = "\<lambda>l. fetches (if l = i then Downloading (loNext s) descriptor else loPhase s ! l) = Some n"
    have now: "?at j" "?at k" using 8 len by simp_all
    show ?case
    proof (cases "n = loNext s")
      case True
      have "l = i" if "l < length packIDs" "?at l" for l
        using old(2) [OF that(1), of n] that(2) True by (cases "l = i") auto
      with 8 now show ?thesis by metis
    next
      case False
      then have "fetches (loPhase s ! j) = Some n" "fetches (loPhase s ! k) = Some n"
        using now by (auto split: if_splits)
      then show ?thesis using loadingD(5) [OF inv] 8 by blast
    qed
  next
    case (9 j n) then show ?case using waits loadingD(6) [OF inv] len by (auto split: if_splits)
  next
    case (10 j n path) then show ?case using loadingD(7) [OF inv] len by (auto split: if_splits)
  qed
qed

lemma loading_history: "loadingInv packIDs (s\<lparr>loDownloads := h\<rparr>) = loadingInv packIDs s"
  by (simp add: loadingInv_def)

lemma loading_finish:
  assumes inv: "loadingInv packIDs s" and i: "i < length packIDs" and ph: "loPhase s ! i = Downloaded p r"
  shows "loadingInv packIDs (loadFinished (packIDs ! i) i p r s)"
proof -
  have len: "i < length (loPhase s)" using i loadingD(1) [OF inv] by simp
  have lead: "fetches (loPhase s ! i) = Some p" using ph by simp
  have mine: "loLoading s (packIDs ! i) = Some p" by (rule loadingD(4) [OF inv i lead])
  have p: "p < loNext s" "loDone s p = None" using loadingD(2) [OF inv mine] by simp_all
  have other: "q \<noteq> p" "packIDs ! j \<noteq> packIDs ! i" if "j < length packIDs" "j \<noteq> i" "fetches (loPhase s ! j) = Some q" for j q
  proof -
    show q: "q \<noteq> p" using loadingD(5) [OF inv that(1) i that(3)] that(2) lead by auto
    then show "packIDs ! j \<noteq> packIDs ! i" using loadingD(4) [OF inv that(1,3)] mine by auto
  qed
  have own: "packID = packIDs ! i" if "loLoading s packID = Some p" for packID
    using loadingD(3) [OF inv that] loadingD(5) [OF inv _ i _ lead] by auto
  have waits: "packIDs ! j = packIDs ! i" if "j < length packIDs" "loPhase s ! j = Awaiting p" for j
    using loadingD(6) [OF inv that p(2)] own by simp
  have before: "loLoaded s (packIDs ! i) = None" using loadingD(2) [OF inv mine] by simp
  show ?thesis
    unfolding loadingInv_def loadFinished_def
  proof (intro conjI allI impI, goal_cases)
    case 1 show ?case using loadingD(1) [OF inv] by simp
  next
    case 2 show ?case using loadingD(8) [OF inv] p by (auto split: if_splits)
  next
    case (3 packID q) then show ?case using loadingD(2) [OF inv] by (auto split: if_splits sum.split)
  next
    case (4 packID q) then show ?case using loadingD(2) [OF inv] by (auto split: if_splits)
  next
    case (5 k q) then show ?case using loadingD(2) [OF inv] own by (auto split: if_splits)
  next
    case (6 k q)
    then have k: "k \<noteq> packIDs ! i" "loLoading s k = Some q" by (auto split: if_splits)
    then obtain j where "j < length packIDs" "packIDs ! j = k" "fetches (loPhase s ! j) = Some q"
      using loadingD(3) [OF inv] by blast
    then show ?case using k(1) len by (intro exI [of _ j]) auto
  next
    case (7 j q) then show ?case using other loadingD(4) [OF inv] len by (auto split: if_splits)
  next
    case (8 j k q) then show ?case using loadingD(5) [OF inv] len by (auto split: if_splits)
  next
    case (9 j q)
    then have q: "j \<noteq> i" "q \<noteq> p" "loDone s q = None" "loPhase s ! j = Awaiting q"
      using len by (auto split: if_splits)
    with loadingD(6) [OF inv 9(1)] have "loLoading s (packIDs ! j) = Some q" by simp
    then show ?case using q(2) mine by auto
  next
    case (10 j q path)
    then have j: "j \<noteq> i" "loPhase s ! j = Awaiting q" using len by (auto split: if_splits)
    show ?case
    proof (cases "q = p")
      case True
      with 10 j have "r = Inr path" "packIDs ! j = packIDs ! i" using waits by auto
      then show ?thesis by simp
    next
      case False
      with 10 j have "loLoaded s (packIDs ! j) = Some path" using loadingD(7) [OF inv 10(1)] by auto
      then show ?thesis using before by (auto split: sum.split)
    qed
  qed
qed

lemma loadStep_loading: "loadStep packIDs c s s' \<Longrightarrow> loadingInv packIDs s \<Longrightarrow> loadingInv packIDs s'"
proof (induction rule: loadStep.induct)
  case (enter i s known)
  show ?case
  proof (cases "loLoaded s (packIDs ! i) = None \<and> loLoading s (packIDs ! i) = None \<and> known \<noteq> None")
    case True
    with enter show ?thesis using loading_lead by (auto simp: loadLocked_def)
  next
    case False
    with enter show ?thesis by (auto simp: loadLocked_def intro!: loading_setPhase split: option.split)
  qed
next
  case (wake i s n r)
  then show ?case by (intro loading_setPhase) auto
next
  case (cancel i s n m)
  then show ?case by (intro loading_setPhase) auto
next
  case (downloads i s n descriptor r)
  then show ?case by (auto simp: downloadReturns_def loading_history intro!: loading_setPhase)
next
  case (finish i s n r)
  then show ?case by (intro loading_finish)
qed

lemma downloadsD:
  assumes "downloadsInv packIDs loaded s"
  shows "(packID, Inr path) \<in> set (loDownloads s) \<Longrightarrow> loLoaded s packID = Some path \<or>
      (\<exists>i < length packIDs. \<exists>n. packIDs ! i = packID \<and> loPhase s ! i = Downloaded n (Inr path))"
    and "loLoaded s packID = Some path \<Longrightarrow> loaded packID = Some path \<or> (packID, Inr path) \<in> set (loDownloads s)"
    and "loDownloads s = xs @ (packID, Inr path) # ys \<Longrightarrow> packID \<notin> fst ` set ys"
    and "loaded packID = Some path \<Longrightarrow> loLoaded s packID = Some path \<and> packID \<notin> fst ` set (loDownloads s)"
    and "i < length packIDs \<Longrightarrow> loPhase s ! i = Answered (Inr path) \<Longrightarrow> loLoaded s (packIDs ! i) = Some path"
    and "i < length packIDs \<Longrightarrow> loPhase s ! i = Downloaded n (Inr path) \<Longrightarrow>
      (packIDs ! i, Inr path) \<in> set (loDownloads s)"
  using assms unfolding downloadsInv_def by (elim conjE, metis)+

text \<open>A step of a caller that has no download to finish and does not begin to finish one.\<close>

fun finishing :: "loadPhase \<Rightarrow> bool" where
  "finishing (Downloaded n r) = True"
| "finishing _ = False"

lemma downloads_setPhase:
  assumes inv: "downloadsInv packIDs loaded s" and i: "i < length (loPhase s)"
    and "\<not> finishing (loPhase s ! i)" and "\<not> finishing ph"
    and "\<And>path. ph = Answered (Inr path) \<Longrightarrow> loLoaded s (packIDs ! i) = Some path"
  shows "downloadsInv packIDs loaded (setLoadPhase i ph s)"
  unfolding downloadsInv_def setLoadPhase_fields
proof (intro conjI allI impI, goal_cases)
  case (1 packID path)
  from downloadsD(1) [OF inv this] show ?case
  proof (elim disjE exE conjE)
    fix j n
    assume j: "j < length packIDs" "packIDs ! j = packID" "loPhase s ! j = Downloaded n (Inr path)"
    then have "j \<noteq> i" using assms(3) by auto
    with j i show ?thesis by (intro disjI2 exI [of _ j]) auto
  qed simp
next
  case (2 packID path) then show ?case by (rule downloadsD(2) [OF inv])
next
  case (3 packID path xs ys) then show ?case by (rule downloadsD(3) [OF inv])
next
  case (4 packID path) then show ?case using downloadsD(4) [OF inv] by blast
next
  case (5 packID path) then show ?case using downloadsD(4) [OF inv] by blast
next
  case (6 j path) then show ?case using downloadsD(5) [OF inv] assms(5) i by (auto split: if_splits)
next
  case (7 j n path) then show ?case using downloadsD(6) [OF inv] assms(4) i by (auto split: if_splits)
qed

lemma downloads_fields: "downloadsInv packIDs loaded (s\<lparr>loLoading := l, loNext := n\<rparr>) = downloadsInv packIDs loaded s"
  by (simp add: downloadsInv_def)

lemma downloads_return:
  assumes inv: "loadingInv packIDs s" "downloadsInv packIDs loaded s" and i: "i < length packIDs"
    and ph: "loPhase s ! i = Downloading p descriptor"
  shows "downloadsInv packIDs loaded (downloadReturns (packIDs ! i) i p r s)"
proof -
  let ?id = "packIDs ! i"
  have len: "i < length (loPhase s)" using i loadingD(1) [OF inv(1)] by simp
  have mine: "loLoading s ?id = Some p" using loadingD(4) [OF inv(1) i] ph by simp
  have unloaded: "loLoaded s ?id = None" using loadingD(2) [OF inv(1) mine] by simp
  have none: "(?id, Inr path) \<notin> set (loDownloads s)" for path
  proof
    assume "(?id, Inr path) \<in> set (loDownloads s)"
    then obtain j n where j: "j < length packIDs" "packIDs ! j = ?id" "loPhase s ! j = Downloaded n (Inr path)"
      using downloadsD(1) [OF inv(2)] unloaded by fastforce
    then have "loLoading s ?id = Some n" using loadingD(4) [OF inv(1) j(1)] by simp
    then have "j = i" using loadingD(5) [OF inv(1) j(1) i] j(3) ph mine by simp
    with j(3) ph show False by simp
  qed
  show ?thesis
    unfolding downloadsInv_def downloadReturns_def
  proof (intro conjI allI impI, goal_cases)
    case (1 packID path)
    then consider "(packID, Inr path) \<in> set (loDownloads s)" | "packID = ?id" "r = Inr path" by auto
    then show ?case
    proof cases
      case 1
      from downloadsD(1) [OF inv(2) this] show ?thesis
      proof (elim disjE exE conjE)
        fix j n
        assume j: "j < length packIDs" "packIDs ! j = packID" "loPhase s ! j = Downloaded n (Inr path)"
        then have "j \<noteq> i" using ph by auto
        with j len show ?thesis by (intro disjI2 exI [of _ j]) auto
      qed simp
    next
      case 2
      then show ?thesis using i len by (intro disjI2 exI [of _ i]) auto
    qed
  next
    case (2 packID path) then show ?case using downloadsD(2) [OF inv(2)] by auto
  next
    case (3 packID path xs ys)
    then have history: "loDownloads s @ [(?id, r)] = xs @ (packID, Inr path) # ys" by simp
    show ?case
    proof (cases ys rule: rev_cases)
      case (snoc zs z)
      with history have "loDownloads s = xs @ (packID, Inr path) # zs" "z = (?id, r)" by simp_all
      moreover have "packID \<noteq> ?id" using none calculation(1) by auto
      ultimately show ?thesis using downloadsD(3) [OF inv(2)] snoc by auto
    qed simp
  next
    case (4 packID path) then show ?case using downloadsD(4) [OF inv(2)] by auto
  next
    case (5 packID path)
    then have "loLoaded s packID = Some path" "packID \<notin> fst ` set (loDownloads s)" using downloadsD(4) [OF inv(2)] by auto
    then show ?case using unloaded by auto
  next
    case (6 j path) then show ?case using downloadsD(5) [OF inv(2)] len by (auto split: if_splits)
  next
    case (7 j n path) then show ?case using downloadsD(6) [OF inv(2)] len by (auto split: if_splits)
  qed
qed

lemma downloads_finish:
  assumes inv: "loadingInv packIDs s" "downloadsInv packIDs loaded s" and i: "i < length packIDs"
    and ph: "loPhase s ! i = Downloaded p r"
  shows "downloadsInv packIDs loaded (loadFinished (packIDs ! i) i p r s)"
proof -
  let ?id = "packIDs ! i"
  let ?loaded = "case r of Inl _ \<Rightarrow> loLoaded s | Inr path \<Rightarrow> (loLoaded s)(?id \<mapsto> path)"
  have len: "i < length (loPhase s)" using i loadingD(1) [OF inv(1)] by simp
  have mine: "loLoading s ?id = Some p" using loadingD(4) [OF inv(1) i] ph by simp
  have unloaded: "loLoaded s ?id = None" using loadingD(2) [OF inv(1) mine] by simp
  have extends: "loLoaded s packID = Some path \<Longrightarrow> ?loaded packID = Some path" for packID path
    using unloaded by (auto split: sum.split)
  show ?thesis
    unfolding downloadsInv_def loadFinished_def setLoadPhase_fields
  proof (intro conjI allI impI, goal_cases)
    case (1 packID path)
    then have "(packID, Inr path) \<in> set (loDownloads s)" by simp
    from downloadsD(1) [OF inv(2) this] show ?case
    proof (elim disjE exE conjE)
      assume "loLoaded s packID = Some path"
      then show ?thesis using extends by simp
    next
      fix j n
      assume j: "j < length packIDs" "packIDs ! j = packID" "loPhase s ! j = Downloaded n (Inr path)"
      show ?thesis
      proof (cases "j = i")
        case True
        with j ph show ?thesis by auto
      next
        case False
        with j len show ?thesis by (intro disjI2 exI [of _ j]) auto
      qed
    qed
  next
    case (2 packID path)
    then show ?case
      using downloadsD(2) [OF inv(2), of packID path] downloadsD(6) [OF inv(2) i] ph by (auto split: sum.splits if_splits)
  next
    case (3 packID path xs ys) then show ?case using downloadsD(3) [OF inv(2)] by simp
  next
    case (4 packID path) then show ?case using downloadsD(4) [OF inv(2)] extends by simp
  next
    case (5 packID path) then show ?case using downloadsD(4) [OF inv(2)] by simp
  next
    case (6 j path)
    show ?case
    proof (cases "j = i")
      case True
      with 6 len show ?thesis by simp
    next
      case False
      with 6 len have "loLoaded s (packIDs ! j) = Some path" using downloadsD(5) [OF inv(2)] by simp
      then show ?thesis using extends by simp
    qed
  next
    case (7 j n path) then show ?case using downloadsD(6) [OF inv(2)] len by (auto split: if_splits)
  qed
qed

lemma loadStep_downloads:
  "loadStep packIDs c s s' \<Longrightarrow> loadingInv packIDs s \<Longrightarrow> downloadsInv packIDs loaded s \<Longrightarrow> downloadsInv packIDs loaded s'"
proof (induction rule: loadStep.induct)
  case (enter i s known)
  then have "i < length (loPhase s)" by (simp add: loadingD(1))
  with enter show ?case
    by (auto simp: loadLocked_def downloads_fields intro!: downloads_setPhase split: option.split)
next
  case (wake i s n r)
  then show ?case using loadingD(7) [of packIDs s i n] by (intro downloads_setPhase) (auto simp: loadingD(1))
next
  case (cancel i s n m)
  then show ?case by (intro downloads_setPhase) (auto simp: loadingD(1))
next
  case (downloads i s n descriptor r)
  then show ?case by (intro downloads_return)
next
  case (finish i s n r)
  then show ?case by (intro downloads_finish)
qed

lemma loadReachable_inv: "loadReachable packIDs loaded n s \<Longrightarrow> loadingInv packIDs s \<and> downloadsInv packIDs loaded s"
  by (induction rule: loadReachable.induct) (auto intro: loadStart_inv loadStep_loading loadStep_downloads)

section \<open>Every caller returns\<close>

text \<open>Every step lowers the weight of the caller that moves.\<close>

fun loadWeight :: "loadPhase \<Rightarrow> nat" where
  "loadWeight Calling = 3"
| "loadWeight (Awaiting n) = 1"
| "loadWeight (Downloading n descriptor) = 2"
| "loadWeight (Downloaded n r) = 1"
| "loadWeight (Answered r) = 0"

definition loadMeasure :: "loadState \<Rightarrow> nat" where
  "loadMeasure s = sum_list (map loadWeight (loPhase s))"

lemma loadMeasure_setPhase:
  assumes "i < length (loPhase s)" and "loadWeight ph < loadWeight (loPhase s ! i)"
  shows "loadMeasure (setLoadPhase i ph s) < loadMeasure s"
proof -
  have "loadWeight (loPhase s ! i) \<le> sum_list (map loadWeight (loPhase s))"
    using assms(1) by (intro member_le_sum_list) auto
  with assms show ?thesis by (simp add: loadMeasure_def map_update sum_list_update)
qed

lemma loadMeasure_fields:
  "loadMeasure (setLoadPhase i ph (s\<lparr>loLoading := l, loNext := n\<rparr>)) = loadMeasure (setLoadPhase i ph s)"
  "loadMeasure (setLoadPhase i ph (s\<lparr>loDownloads := h\<rparr>)) = loadMeasure (setLoadPhase i ph s)"
  "loadMeasure (setLoadPhase i ph (s\<lparr>loLoaded := ld, loLoading := l, loDone := d\<rparr>)) = loadMeasure (setLoadPhase i ph s)"
  by (simp_all add: loadMeasure_def)

lemma loadStep_measure: "loadStep packIDs c s s' \<Longrightarrow> loadingInv packIDs s \<Longrightarrow> loadMeasure s' < loadMeasure s"
proof (induction rule: loadStep.induct)
  case (enter i s known)
  then show ?case
    by (auto simp: loadLocked_def loadMeasure_fields loadingD(1) intro!: loadMeasure_setPhase split: option.split)
qed (auto simp: downloadReturns_def loadFinished_def loadMeasure_fields loadingD(1) intro!: loadMeasure_setPhase)

lemma loadReachable_measure: "loadReachable packIDs loaded n s \<Longrightarrow> n + loadMeasure s \<le> 3 * length packIDs"
proof (induction rule: loadReachable.induct)
  case start
  show ?case by (simp add: loadMeasure_def loadStart_def sum_list_replicate)
next
  case (more n s c s')
  then show ?case using loadStep_measure [OF more.hyps(2)] loadReachable_inv [OF more.hyps(1)] by fastforce
qed

lemma load_progress:
  assumes inv: "loadingInv packIDs s" and i: "i < length packIDs" and "\<And>r. loPhase s ! i \<noteq> Answered r"
  shows "\<exists>s'. loadStep packIDs False s s'"
proof -
  have moves: "\<exists>s'. loadStep packIDs False s s'" if "j < length packIDs" "fetches (loPhase s ! j) = Some n" for j n
    using that by (cases "loPhase s ! j") (auto intro: loadStep.downloads loadStep.finish)
  show ?thesis
  proof (cases "loPhase s ! i")
    case Calling then show ?thesis using i loadStep.enter by blast
  next
    case (Awaiting n)
    show ?thesis
    proof (cases "loDone s n")
      case None
      then obtain j where "j < length packIDs" "fetches (loPhase s ! j) = Some n"
        using loadingD(3) [OF inv loadingD(6) [OF inv i Awaiting]] by blast
      then show ?thesis by (rule moves)
    next
      case (Some r) then show ?thesis using i Awaiting loadStep.wake by blast
    qed
  qed (use assms moves in auto)
qed

text \<open>
  C38. Parallel calls of \<open>loadPack\<close>, however they interleave and whatever their downloads return: at most one
  download of a pack is in flight, a pack that has been restored is never downloaded again, a caller that is
  answered with a file is answered with the restored file of its pack, and all callers return: after at most
  three steps for each caller no step is left, and until all are answered one of them can move.
\<close>

theorem loadPack_coalesces:
  assumes "loadReachable packIDs loaded n s"
  shows "(\<forall>i < length packIDs. \<forall>j < length packIDs. packIDs ! i = packIDs ! j \<longrightarrow>
      fetches (loPhase s ! i) \<noteq> None \<longrightarrow> fetches (loPhase s ! j) \<noteq> None \<longrightarrow> i = j) \<and>
    (\<forall>packID path xs ys. loDownloads s = xs @ (packID, Inr path) # ys \<longrightarrow> packID \<notin> fst ` set ys) \<and>
    (\<forall>packID \<in> dom loaded. packID \<notin> fst ` set (loDownloads s)) \<and>
    (\<forall>i < length packIDs. \<forall>path. loPhase s ! i = Answered (Inr path) \<longrightarrow>
      loLoaded s (packIDs ! i) = Some path \<and>
      (loaded (packIDs ! i) = Some path \<or> (packIDs ! i, Inr path) \<in> set (loDownloads s))) \<and>
    n \<le> 3 * length packIDs \<and>
    ((\<forall>i < length packIDs. \<exists>r. loPhase s ! i = Answered r) \<or> (\<exists>s'. loadStep packIDs False s s'))"
proof (intro conjI allI impI ballI, goal_cases)
  note inv = conjunct1 [OF loadReachable_inv [OF assms]] conjunct2 [OF loadReachable_inv [OF assms]]
  {
    case (1 i j)
    then obtain p q where "fetches (loPhase s ! i) = Some p" "fetches (loPhase s ! j) = Some q" by auto
    with 1 show ?case using loadingD(4,5) [OF inv(1)] by (metis option.inject)
  next
    case (2 packID path xs ys) then show ?case by (rule downloadsD(3) [OF inv(2)])
  next
    case (3 packID) then show ?case using downloadsD(4) [OF inv(2)] by (auto simp: dom_def)
  next
    case (4 i path) then show ?case by (rule downloadsD(5) [OF inv(2)])
  next
    case (5 i path) then show ?case using downloadsD(2) [OF inv(2) downloadsD(5) [OF inv(2)]] by blast
  next
    case 6 show ?case using loadReachable_measure [OF assms] by simp
  next
    case 7 show ?case using load_progress [OF inv(1)] by blast
  }
qed

end
