(* ===== verification/RestoreExamples.thy ===== *)
theory RestoreExamples
  imports ServerExamples Restore Loading
begin

text \<open>
  The round trip between processes at a concrete input: a cache that is an association list, a library whose
  archives are lists of sections, and a process with one pending object. Also two callers for one pack.
\<close>

section \<open>A library that keeps its laws\<close>

definition roundSection :: "bytes \<times> bytes \<Rightarrow> bytes" where
  "roundSection b = (case b of (c, d) \<Rightarrow> of_nat (length c) # c @ of_nat (length d) # d)"

definition shortBlocks :: "(bytes \<times> bytes) list \<Rightarrow> bool" where
  "shortBlocks blocks \<longleftrightarrow> list_all (\<lambda>(c, d). length c < 256 \<and> length d < 256) blocks"

definition roundIpld :: "node list \<Rightarrow> bytes ipld" where
  "roundIpld nodes = (exampleIpld nodes)\<lparr>
     multihashEncode := (\<lambda>hash. if hash = [] then Inl ''empty hash'' else Inr hash),
     carWrite := (\<lambda>roots blocks. if blocks = [] \<or> \<not> shortBlocks blocks then Inl ''unsupported archive''
       else Inr (concat (map roundSection blocks)))\<rparr>"

lemma roundSections:
  "shortBlocks blocks \<Longrightarrow> length blocks \<le> k \<Longrightarrow> exampleSections k (concat (map roundSection blocks)) = blocks"
proof (induction blocks arbitrary: k)
  case Nil
  then show ?case by (cases k) simp_all
next
  case (Cons b blocks)
  obtain c d where b: "b = (c, d)" by (cases b)
  from Cons.prems obtain j where k: "k = Suc j" "length blocks \<le> j" by (cases k) auto
  have short: "length c < 256" "length d < 256" "shortBlocks blocks" using Cons.prems by (auto simp: shortBlocks_def b)
  then have "unat (of_nat (length c) :: byte) = length c" "unat (of_nat (length d) :: byte) = length d"
    by (simp_all add: unat_of_nat)
  with Cons.IH [OF short(3) k(2)] show ?case by (simp add: k(1) b roundSection_def)
qed

lemma length_roundSections: "length blocks \<le> length (concat (map roundSection blocks))"
  by (induction blocks) (auto simp: roundSection_def)

lemma roundIpld_laws: "ipld_laws (roundIpld nodes)"
proof -
  have get: "carGet (roundIpld nodes) archive n c = Inr data"
    if "carWrite (roundIpld nodes) roots blocks = Inr archive" "map_of blocks c = Some data"
      "int (length data) + rawCIDSectionOverheadBytes \<le> n" for roots blocks archive c data n
  proof -
    from that(1) have blocks: "shortBlocks blocks" "archive = concat (map roundSection blocks)"
      by (auto simp: roundIpld_def split: if_splits)
    have "exampleSections (length archive) archive = blocks"
      unfolding blocks(2) by (rule roundSections [OF blocks(1) length_roundSections])
    with that(2,3) show ?thesis by (simp add: roundIpld_def exampleIpld_def rawCIDSectionOverheadBytes_def)
  qed
  have some: "archive \<noteq> []" if "carWrite (roundIpld nodes) roots blocks = Inr archive" for roots blocks archive
    using that by (cases blocks) (auto simp: roundIpld_def roundSection_def split: if_splits)
  have byte: "byteOfChar (charOfByte b) = b" for b by (simp add: byteOfChar_def charOfByte_def unat_byte_bound)
  have spelled: "bytesOfString (stringOfBytes bs) = bs" for bs
    by (simp add: stringOfBytes_def bytesOfString_def comp_def byte)
  show ?thesis
    unfolding ipld_laws_def
  proof (intro conjI allI impI)
    show "inj (newCidV1Raw (roundIpld nodes))" by (simp add: roundIpld_def exampleIpld_def)
  next
    fix digest hash
    assume "multihashEncode (roundIpld nodes) digest = Inr hash"
    then have "hash \<noteq> []" by (auto simp: roundIpld_def split: if_splits)
    then have "stringOfBytes hash \<noteq> []" by (simp add: stringOfBytes_def)
    then show "cidDecode (roundIpld nodes) (cidString (roundIpld nodes) (newCidV1Raw (roundIpld nodes) hash)) =
        Inr (newCidV1Raw (roundIpld nodes) hash)"
      by (simp add: roundIpld_def exampleIpld_def spelled)
  next
    fix data c
    assume "dagCBORSum (roundIpld nodes) data = Inr c"
    then have "c \<noteq> []" by (auto simp: roundIpld_def exampleIpld_def)
    then have "stringOfBytes c \<noteq> []" by (simp add: stringOfBytes_def)
    then show "cidDecode (roundIpld nodes) (cidString (roundIpld nodes) c) = Inr c" "cidString (roundIpld nodes) c \<noteq> []"
      by (simp_all add: roundIpld_def exampleIpld_def spelled)
  next
    fix a b h
    assume "multihashEncode (roundIpld nodes) a = Inr h" and "multihashEncode (roundIpld nodes) b = Inr h"
    then show "a = b" by (simp add: roundIpld_def split: if_splits)
  qed (use get some in blast)+
qed

section \<open>A cache in a list\<close>

definition roundEnv :: "node list \<Rightarrow> ((string \<times> bytes) list, bytes) env" where
  "roundEnv nodes = \<lparr>
     envFault = (\<lambda>_ w. (None, w)), envNow = (\<lambda>w. (0, w)),
     envExists = (\<lambda>key w. (Inr (map_of w key \<noteq> None), w)),
     envLoad = (\<lambda>key w. (case map_of w key of None \<Rightarrow> ([], Inr False) | Some data \<Rightarrow> ([data], Inr True), w)),
     envSave = (\<lambda>key data w. (None, if map_of w key = None then (key, data) # w else w)),
     envList = (\<lambda>keyPrefix _ w. (Inr (filter (prefix keyPrefix) (remdups (map fst w))), w)),
     envWire = exampleWire, envIpld = roundIpld nodes\<rparr>"

lemma roundEnv_stores: "storingBackend (roundEnv nodes) set"
  unfolding storingBackend_def closedReads_def
  by (auto simp: roundEnv_def map_of_eq_None_iff)

lemma roundEnv_works: "workingBackend (roundEnv nodes) set"
proof -
  have "\<exists>data chunks w'. (key, data) \<in> set w \<and> envLoad (roundEnv nodes) key w = ((chunks, Inr True), w') \<and>
      concat chunks = data \<and> set w' = set w" if "key \<in> fst ` set w" for key w
  proof -
    from that obtain data where "map_of w key = Some data" by (metis not_None_eq map_of_eq_None_iff)
    then show ?thesis by (intro exI [of _ data] exI [of _ "[data]"] exI [of _ w]) (auto simp: roundEnv_def dest: map_of_SomeD)
  qed
  moreover have "\<exists>keys w'. envList (roundEnv nodes) keyPrefix limit w = (Inr keys, w') \<and>
      set keys = {key \<in> fst ` set w. prefix keyPrefix key} \<and> distinct keys \<and> set w' = set w" for keyPrefix limit w
    by (intro exI conjI, simp add: roundEnv_def) auto
  moreover have "\<exists>w'. envFault (roundEnv nodes) operation w = (None, w') \<and> set w' = set w" for operation w
    by (simp add: roundEnv_def)
  ultimately show ?thesis unfolding workingBackend_def by blast
qed

section \<open>One pending object\<close>

definition roundData :: bytes where
  "roundData = [97, 98, 99]"

definition roundDigest :: string where
  "roundDigest = sha256_hex roundData"

definition roundStore :: packStore where
  "roundStore = emptyPackStore\<lparr>psPendingCAS := [roundDigest \<mapsto> \<lparr>objPath = 0, objSize = 3\<rparr>],
     psPendingCASOrder := [roundDigest], psPendingBytes := 3\<rparr>"

definition roundServer :: "(string \<times> bytes) list server" where
  "roundServer = \<lparr>cfg = packsConfig, stats = counters0, objects = Map.empty, published = {},
     limiter = newIntervalLimiter 100, packs = Some roundStore, files = [0 \<mapsto> roundData], nextFile = 1, world = []\<rparr>"

lemma roundServer_fields:
  "cfgKeyPrefix (cfg roundServer) = ''repo''" "cfgPackSize (cfg roundServer) = 100" "cfgMaxBlobSize (cfg roundServer) = 1000"
  "thePacks roundServer = roundStore" "files roundServer = [0 \<mapsto> roundData]" "world roundServer = []" "published roundServer = {}"
  by (simp_all add: roundServer_def packsConfig_def exampleConfig_def thePacks_def)

lemma roundServer_staged: "stagedWork (roundIpld nodes) roundServer"
proof -
  have "stageInv roundStore" by (auto simp: stageInv_def roundStore_def emptyPackStore_def)
  then show ?thesis
    unfolding stagedWork_def roundServer_fields
    by (simp add: roundStore_def emptyPackStore_def roundData_def roundDigest_def)
qed

lemma roundServer_selects:
  "selectCASLocked 100 roundStore = [roundDigest]" "selectActionsLocked roundStore {roundDigest} = []"
  by (simp_all add: roundStore_def emptyPackStore_def selectCASLocked_def selectActionsLocked_def)

definition roundHash :: bytes where
  "roundHash = (case hex_DecodeString roundDigest of Inl _ \<Rightarrow> [] | Inr bs \<Rightarrow> bs)"

lemma roundHash_facts: "hex_DecodeString roundDigest = Inr roundHash" "length roundHash = 32"
  using hex_DecodeString_digest [of roundDigest] by (auto simp: roundHash_def roundDigest_def)

definition roundArchive :: bytes where
  "roundArchive = roundSection (roundHash, roundData)"

definition roundEntries :: packedEntries where
  "roundEntries = \<lparr>peCAS = [\<lparr>moDigest = roundDigest, moCID = stringOfBytes roundHash, moPackID = [], moSize = 3\<rparr>],
     peActions = []\<rparr>"

definition roundPack :: packDescriptor where
  "roundPack = \<lparr>pkID = sha256_hex roundArchive, pkKey = packKeyFor ''repo'' (sha256_hex roundArchive), pkSize = 37\<rparr>"

definition roundManifest :: manifest where
  "roundManifest = manifestForPackLocked roundStore roundPack roundEntries {roundDigest}"

definition roundNodes :: "node list" where
  "roundNodes = (case manifestToNode roundManifest of Inl _ \<Rightarrow> [] | Inr n \<Rightarrow> [n])"

lemma roundManifest_encoded: "encodeManifest (roundIpld roundNodes) roundManifest = Inr ([0], stringOfBytes [1, 0])"
proof -
  obtain n where n: "manifestToNode roundManifest = Inr n"
    by (simp add: manifestToNode_def roundManifest_def manifestForPackLocked_def manifestFormatVersion_def)
  then show ?thesis
    by (simp add: encodeManifest_def roundNodes_def roundIpld_def exampleIpld_def dagCBORCID_def)
qed

lemma roundNodes_laws: "dagcbor_laws (roundIpld roundNodes)"
proof -
  have "dagcbor_laws (exampleIpld roundNodes)" by (rule exampleIpld_laws) (simp add: roundNodes_def split: sum.split)
  then show ?thesis by (simp add: dagcbor_laws_def roundIpld_def)
qed

section \<open>Its flush\<close>

lemma roundEnv_quiet:
  "fault (roundEnv nodes) operation t = (Inr (), t)"
  "\<exists>b l. limiter_wait (roundEnv nodes) s = (Inr b, s\<lparr>limiter := l\<rparr>)"
  "\<exists>w. backendSave (roundEnv nodes) key data t = (Inr (), t\<lparr>world := w\<rparr>) \<and> set w \<subseteq> insert (key, data) (set (world t))"
proof -
  show fault: "fault (roundEnv nodes) operation t = (Inr (), t)" for operation and t
    by (simp add: fault_def roundEnv_def)
  show "\<exists>b l. limiter_wait (roundEnv nodes) s = (Inr b, s\<lparr>limiter := l\<rparr>)"
    by (rule waits_quietly [OF fault]) (simp add: clockNow_def roundEnv_def)
  let ?w = "if map_of (world t) key = None then (key, data) # world t else world t"
  have "backendSave (roundEnv nodes) key data t = (Inr (), t\<lparr>world := ?w\<rparr>)"
    unfolding backendSave_def by (simp only: roundEnv_def env.simps prod.case option.case)
  then show "\<exists>w. backendSave (roundEnv nodes) key data t = (Inr (), t\<lparr>world := w\<rparr>) \<and> set w \<subseteq> insert (key, data) (set (world t))"
    by (intro exI [of _ ?w]) auto
qed

lemma round_publishes:
  assumes "files s path = Some data"
  shows "\<exists>s1. publishFile (roundEnv nodes) key path n s = (Inr (), s1) \<and> packs s1 = packs s \<and> cfg s1 = cfg s \<and>
    set (world s1) \<subseteq> insert (key, take (nat n) data) (set (world s))"
proof -
  obtain b l where wait: "limiter_wait (roundEnv nodes) s = (Inr b, s\<lparr>limiter := l\<rparr>)"
    using roundEnv_quiet(2) by blast
  let ?s1 = "(if b then count ThrottleWaits else id) (s\<lparr>limiter := l\<rparr>)"
  have content: "fileContent ?s1 path = data" "world ?s1 = world s" using assms by (simp_all add: fileContent_def count_def)
  obtain w where save: "backendSave (roundEnv nodes) key (take (nat n) data) ?s1 = (Inr (), ?s1\<lparr>world := w\<rparr>)"
    and w: "set w \<subseteq> insert (key, take (nat n) data) (set (world s))"
    using roundEnv_quiet(3) [of nodes key "take (nat n) data" ?s1] unfolding content(2) by blast
  have "publish (roundEnv nodes) key path n s = (Inr (), ?s1\<lparr>world := w\<rparr>)"
    unfolding publish_def acquire_def attempt_def andThen_def
    by (simp add: roundEnv_quiet(1) wait content(1) save del: if_split)
  then show ?thesis
    using assms w
    by (auto simp: publishFile_def publishOnce_def openFile_def attempt_def andThen_def roundEnv_quiet(1) count_def)
qed

text \<open>The object of \<open>roundServer\<close> is pending, and nothing else has happened.\<close>

definition roundPending :: "(string \<times> bytes) list server \<Rightarrow> bool" where
  "roundPending s \<longleftrightarrow> cfg s = packsConfig \<and> packs s = Some roundStore \<and> files s = [0 \<mapsto> roundData] \<and> nextFile s = 1 \<and> world s = []"

lemma roundServer_pending: "roundPending roundServer"
  by (simp add: roundPending_def roundServer_def)

lemma round_flushes:
  assumes "roundPending s"
  shows "\<exists>s'. flushOneLocked (roundEnv roundNodes) s = (Inr True, s') \<and> (\<forall>entry \<in> set (world s'). length (snd entry) \<le> 37)"
proof -
  let ?E = "roundEnv roundNodes" and ?built = "s\<lparr>files := (files s)(1 \<mapsto> roundArchive), nextFile := 2\<rparr>"
  have fields0: "cfgKeyPrefix (cfg s) = ''repo''" "cfgPackSize (cfg s) = 100" "thePacks s = roundStore" "files s = [0 \<mapsto> roundData]"
    "nextFile s = 1"
    using assms by (simp_all add: roundPending_def packsConfig_def exampleConfig_def thePacks_def)
  have ipld: "envIpld ?E = roundIpld roundNodes" by (simp add: roundEnv_def)
  have pattern: "digestPattern roundDigest" by (simp add: roundDigest_def)
  have nonempty: "roundHash \<noteq> []" using roundHash_facts(2) by auto
  have cid: "rawCIDForDigest (roundIpld roundNodes) roundDigest = Inr roundHash"
    using nonempty by (simp add: rawCIDForDigest_def pattern roundHash_facts(1)) (simp add: roundIpld_def exampleIpld_def)
  have archive: "carWrite (roundIpld roundNodes) [roundHash] [(roundHash, roundData)] = Inr roundArchive"
    by (simp add: roundIpld_def shortBlocks_def roundHash_facts(2) roundArchive_def roundData_def)
  have size: "length roundArchive = 37" by (simp add: roundArchive_def roundSection_def roundHash_facts(2) roundData_def)
  have spelled: "cidString (roundIpld roundNodes) roundHash = stringOfBytes roundHash" by (simp add: roundIpld_def exampleIpld_def)
  have pending: "psPendingCAS roundStore roundDigest = Some \<lparr>objPath = 0, objSize = 3\<rparr>" by (simp add: roundStore_def)
  have build: "buildPackLocked ?E [roundDigest] [] s = (Inr (1, roundEntries, 37, sha256_hex roundArchive), ?built)"
    using size nonempty
    by (simp add: buildPackLocked_def addCASBlock_def emptyDraft_def fields0 pending readFile_def attempt_def
        andThen_def roundEnv_quiet(1) ipld cid archive spelled writePrivateTemp_def createTemp_def createFile_def
        writeFile_def appendFile_def statSize_def openFile_def hashFile_def fileContent_def roundEntries_def)
  have fields: "thePacks ?built = roundStore" "cfg ?built = packsConfig" "files ?built 1 = Some roundArchive" "packs ?built = Some roundStore"
    "world ?built = []"
    using assms by (simp_all add: roundPending_def thePacks_def)
  obtain s1 where s1: "publishFile ?E (packKeyFor ''repo'' (sha256_hex roundArchive)) 1 37 ?built = (Inr (), s1)"
    "packs s1 = Some roundStore" "cfg s1 = packsConfig"
    "set (world s1) \<subseteq> {(packKeyFor ''repo'' (sha256_hex roundArchive), take (nat 37) roundArchive)}"
    using round_publishes [OF fields(3)] unfolding fields(2,4) by (metis fields(5) list.set(1))
  let ?s1 = "count PackUploads s1"
  let ?s2 = "?s1\<lparr>files := (files ?s1)(nextFile ?s1 \<mapsto> [0]), nextFile := Suc (nextFile ?s1)\<rparr>"
  have temp: "writePrivateTemp ?E [0] ?s1 = (Inr (nextFile ?s1), ?s2)"
    by (simp add: writePrivateTemp_def createTemp_def createFile_def writeFile_def appendFile_def attempt_def andThen_def
        roundEnv_quiet(1) fileContent_def)
  have "files ?s2 (nextFile ?s1) = Some [0]" by simp
  from round_publishes [OF this] obtain s3 where
    s3: "publishFile ?E (manifestKeyFor ''repo'' (stringOfBytes [1, 0])) (nextFile ?s1) 1 ?s2 = (Inr (), s3)"
    and w3: "set (world s3) \<subseteq> insert (manifestKeyFor ''repo'' (stringOfBytes [1, 0]), take (nat 1) [0]) (set (world ?s2))" by blast
  have the: "thePacks ?s1 = roundStore" using s1(2) by (simp add: thePacks_def count_def)
  have repo: "cfgKeyPrefix (cfg ?built) = ''repo''" by (simp add: fields0(1))
  let ?final = "updatePacks (\<lambda>p. removePendingLocked [roundDigest] [] (applyManifestLocked (stringOfBytes [1, 0]) roundManifest p))
      (count ManifestUploads s3)"
  have commit: "commitPack ?E [roundDigest] [] (1, roundEntries, 37, sha256_hex roundArchive) ?built = (Inr True, ?final)"
    unfolding commitPack_def Let_def attempt_def andThen_def prod.case reading_run repo packDescriptor.simps s1(1)
      sum.case updating_run the
    using temp s3 roundManifest_encoded
    by (simp add: ipld roundManifest_def roundPack_def attempt_def andThen_def)
  have "flushOneLocked ?E s = (Inr True, ?final)"
    using build commit by (simp add: flushOneLocked_def fields0 roundServer_selects attempt_def andThen_def)
  moreover have "length (snd entry) \<le> 37" if "entry \<in> set (world ?final)" for entry
  proof -
    have "set (world ?final) \<subseteq> {(manifestKeyFor ''repo'' (stringOfBytes [1, 0]), [0]),
        (packKeyFor ''repo'' (sha256_hex roundArchive), take (nat 37) roundArchive)}"
      using w3 s1(4) by (simp add: updatePacks_def count_def) blast
    with that have "snd entry = [0] \<or> snd entry = take (nat 37) roundArchive" by fastforce
    then show ?thesis using size by auto
  qed
  ultimately show ?thesis by blast
qed

theorem flush_restored_witness:
  "\<exists>s' t ob t'. flushOneLocked (roundEnv roundNodes) roundServer = (Inr True, s') \<and>
     New (roundEnv roundNodes) packsConfig (world s') = Inr t \<and>
     server_resolve (roundEnv roundNodes) (casKey ''repo'' roundDigest) ''cas'' roundDigest t = (Inr (Some ob), t') \<and>
     files t' (objPath ob) = Some [97, 98, 99]"
proof -
  let ?E = "roundEnv roundNodes"
  obtain s' where run: "flushOneLocked ?E roundServer = (Inr True, s')"
    and small: "\<forall>entry \<in> set (world s'). length (snd entry) \<le> 37" using round_flushes [OF roundServer_pending] by blast
  have ipld: "envIpld ?E = roundIpld roundNodes" by (simp add: roundEnv_def)
  have start: "stored set roundServer = {}" by (simp add: stored_def roundServer_fields)
  have limits: "validConfig packsConfig" "cfgStorageMode packsConfig = ''packs''" "cfgKeyPrefix packsConfig = ''repo''"
    "cfgMaxBlobSize packsConfig = 1000"
    using packsConfig_valid by (simp_all add: packsConfig_def exampleConfig_def)
  have pending: "psPendingCAS roundStore roundDigest = Some \<lparr>objPath = 0, objSize = 3\<rparr>" by (simp add: roundStore_def)
  have order: "psPendingACOrder roundStore = []" by (simp add: roundStore_def emptyPackStore_def)
  have sizes: "\<forall>entry \<in> stored set s'. int (length (snd entry)) \<le> 1000" using small by (force simp: stored_def)
  have int64: "isInt64 1000" by (simp add: isInt64_def maxInt64_def)
  have none: "unused ''repo'' (fst ` {})" "unused ''repo'' {}" by (simp_all add: unused_def)
  have "roundDigest \<in> set [roundDigest]" by simp
  from flush_restored [of ?E set roundServer s' roundDigest "\<lparr>objPath = 0, objSize = 3\<rparr>" ?E set "world s'" packsConfig,
      unfolded ipld start roundServer_fields roundServer_selects order limits,
      OF roundEnv_stores roundIpld_laws roundNodes_laws roundServer_staged run none this pending _ _ roundEnv_works refl _ _
        sizes limits(1) refl refl _ int64]
  obtain t ob t' where "New ?E packsConfig (world s') = Inr t"
    "server_resolve ?E (casKey ''repo'' roundDigest) ''cas'' roundDigest t = (Inr (Some ob), t')"
    "files t' (objPath ob) = [0 \<mapsto> roundData] (objPath \<lparr>objPath = 0, objSize = 3\<rparr>)"
    by (auto simp: stored_def)
  with run show ?thesis by (auto simp: roundData_def)
qed

section \<open>Two callers for one pack\<close>

text \<open>The first downloads, the second waits for it; the download succeeds, and both have the same file.\<close>

definition onePack :: packDescriptor where
  "onePack = \<lparr>pkID = ''pack'', pkKey = ''key'', pkSize = 1\<rparr>"

definition bothLoaded :: loadState where
  "bothLoaded = \<lparr>loLoaded = [''pack'' \<mapsto> 7], loLoading = Map.empty, loDone = [0 \<mapsto> Inr 7], loNext = 1,
     loPhase = [Answered (Inr 7), Answered (Inr 7)], loDownloads = [(''pack'', Inr 7)]\<rparr>"

lemma bothLoaded_run: "loadReachable [''pack'', ''pack''] Map.empty 5 bothLoaded"
proof -
  let ?ids = "[''pack'', ''pack'']"
  let ?s0 = "loadStart ?ids Map.empty"
  let ?s1 = "loadLocked (?ids ! 0) 0 (Some onePack) ?s0"
  let ?s2 = "loadLocked (?ids ! 1) 1 (Some onePack) ?s1"
  let ?s3 = "downloadReturns (?ids ! 0) 0 0 (Inr 7) ?s2"
  let ?s4 = "loadFinished (?ids ! 0) 0 0 (Inr 7) ?s3"
  note defs = loadStart_def loadLocked_def downloadReturns_def loadFinished_def setLoadPhase_def
  have s1: "?s1 = \<lparr>loLoaded = Map.empty, loLoading = [''pack'' \<mapsto> 0], loDone = Map.empty, loNext = 1,
      loPhase = [Downloading 0 onePack, Calling], loDownloads = []\<rparr>"
    by (simp add: defs)
  have s2: "?s2 = \<lparr>loLoaded = Map.empty, loLoading = [''pack'' \<mapsto> 0], loDone = Map.empty, loNext = 1,
      loPhase = [Downloading 0 onePack, Awaiting 0], loDownloads = []\<rparr>"
    unfolding s1 by (simp add: defs)
  have s3: "?s3 = \<lparr>loLoaded = Map.empty, loLoading = [''pack'' \<mapsto> 0], loDone = Map.empty, loNext = 1,
      loPhase = [Downloaded 0 (Inr 7), Awaiting 0], loDownloads = [(''pack'', Inr 7)]\<rparr>"
    unfolding s2 by (simp add: defs)
  have s4: "?s4 = \<lparr>loLoaded = [''pack'' \<mapsto> 7], loLoading = Map.empty, loDone = [0 \<mapsto> Inr 7], loNext = 1,
      loPhase = [Answered (Inr 7), Awaiting 0], loDownloads = [(''pack'', Inr 7)]\<rparr>"
    unfolding s3 by (simp add: defs)
  have "loadReachable ?ids Map.empty (Suc 0) ?s1"
    by (rule loadReachable.more [OF loadReachable.start loadStep.enter]) (simp_all add: loadStart_def)
  then have "loadReachable ?ids Map.empty (Suc (Suc 0)) ?s2"
    by (rule loadReachable.more [OF _ loadStep.enter]) (simp_all only: s1, simp_all)
  then have "loadReachable ?ids Map.empty (Suc (Suc (Suc 0))) ?s3"
    by (rule loadReachable.more [OF _ loadStep.downloads]) (simp_all only: s2, simp_all)
  then have "loadReachable ?ids Map.empty (Suc (Suc (Suc (Suc 0)))) ?s4"
    by (rule loadReachable.more [OF _ loadStep.finish]) (simp_all only: s3, simp_all)
  then have "loadReachable ?ids Map.empty (Suc (Suc (Suc (Suc (Suc 0))))) (setLoadPhase 1 (Answered (Inr 7)) ?s4)"
    by (rule loadReachable.more [OF _ loadStep.wake [where loading = 0]]) (simp_all only: s4, simp_all)
  moreover have "setLoadPhase 1 (Answered (Inr 7)) ?s4 = bothLoaded"
    unfolding s4 by (simp add: setLoadPhase_def bothLoaded_def)
  ultimately show ?thesis by (simp add: eval_nat_numeral)
qed

theorem loadPack_coalesces_witness:
  "loLoaded bothLoaded ''pack'' = Some 7 \<and> (5 :: nat) \<le> 3 * length [''pack'', ''pack'']"
proof -
  have second: "1 < length [''pack'', ''pack'']" "loPhase bothLoaded ! 1 = Answered (Inr 7)" by (simp_all add: bothLoaded_def)
  from loadPack_coalesces [OF bothLoaded_run] have
    "\<forall>i < length [''pack'', ''pack'']. \<forall>path. loPhase bothLoaded ! i = Answered (Inr path) \<longrightarrow>
      loLoaded bothLoaded ([''pack'', ''pack''] ! i) = Some path" and "(5 :: nat) \<le> 3 * length [''pack'', ''pack'']" by blast+
  with second show ?thesis by fastforce
qed

end
