(* ===== verification/Sha256Abc.thy ===== *)
theory Sha256Abc
  imports Sha256Vector
begin

text \<open>The SHA-256 of \<open>abc\<close>, evaluated in the kernel like that of the empty content.\<close>

text \<open>The first test vector of FIPS 180: the hash of \<open>abc\<close>.\<close>

definition abcSchedule :: "u32 list" where
  "abcSchedule =
    [1633837952, 0, 0, 0, 0, 0, 0, 0, 0, 0, 0, 0, 0, 0, 0, 24, 1633837952, 983040, 2108187653,
     1610613702, 1050508152, 25426944, 316456923, 3806512014, 3357629466, 3073800610,
     3854317833, 845560923, 2636160359, 3968280267, 1881225380, 3552024379, 2482346367,
     996719219, 2952069057, 4043988066, 176896406, 1924104970, 2483675966, 610538786,
     2672279444, 4037431130, 1042573945, 657669027, 206005234, 2215296807, 2049510749,
     106709978, 4215179723, 3430291419, 3118885940, 2845390439, 2226839261, 3256115900,
     344409900, 2987358873, 4015503821, 3957764664, 2682456414, 2025622859, 2755645205,
     1720397816, 4004225740, 313650667]"

definition abcHalfway :: sha256_state where
  "abcHalfway =
    (1941126133, 3935906338, 2684750640, 909411017, 3126399250, 17410874, 2917635127,
    1628611511)"

definition abcDigest :: string where
  "abcDigest = ''ba7816bf8f01cfea414140de5dae2223b00361a396177a9cb410ff61f20015ad''"

lemma abcSchedule_extends: "rev (sha256_extend 48 (rev (wordsOfBytes (sha256_pad [97, 98, 99])))) = abcSchedule"
  by code_simp

lemma abcHalfway_rounds: "sha256_rounds (take 32 (zip sha256_k abcSchedule)) sha256_init = abcHalfway"
  by code_simp

lemma abcOutput_rounds:
  "hex_EncodeToString (sha256_output (sha256_add sha256_init
     (sha256_rounds (drop 32 (zip sha256_k abcSchedule)) abcHalfway))) = abcDigest"
  by code_simp

lemma sha256_hex_abc: "sha256_hex [97, 98, 99] = abcDigest"
  by (rule sha256_one_block [OF _ abcSchedule_extends abcHalfway_rounds abcOutput_rounds]) code_simp

lemma abcDigest_new: "abcDigest \<noteq> emptySHA256Digest"
  by (simp add: abcDigest_def emptySHA256Digest_def)

end
