(* ===== verification/EndToEndExamples.thy ===== *)
theory EndToEndExamples
  imports EndToEnd RestoreExamples Sha256Abc
begin

text \<open>
  Two jobs at a concrete input: the first starts with an empty cache and is sent \<open>abc\<close>, the second is asked for it.
\<close>

lemma roundDigest_abc: "roundDigest = abcDigest"
  by (simp add: roundDigest_def roundData_def sha256_hex_abc)

lemma round_path: "parseObjectPath (''/cas/'' @ roundDigest) = Some (''cas'', roundDigest)"
  using object_path [of "''cas''" roundDigest] by (simp add: roundDigest_def)

definition roundPut :: request where
  "roundPut = putRequest (''/cas/'' @ roundDigest) roundData"

definition roundGet :: request where
  "roundGet = getRequest (''/cas/'' @ roundDigest)"

text \<open>The first job starts.\<close>

definition roundStarted :: "counters \<Rightarrow> (string \<times> bytes) list server" where
  "roundStarted st = (initialServer packsConfig [])\<lparr>packs := Some emptyPackStore, stats := st\<rparr>"

lemma round_starts: "\<exists>st. New (roundEnv nodes) packsConfig [] = Inr (roundStarted st)"
proof -
  have check: "checkConfig packsConfig = Inr packsConfig"
    using packsConfig_valid by (simp add: checkConfig_Inr defaultMode_def)
  have list: "backendList (roundEnv nodes) keyPrefix limit t = (Inr [], t)" if "world t = []"
    for keyPrefix limit and t :: "(string \<times> bytes) list server"
    using that by (simp add: backendList_def library_def roundEnv_def)
  have mode: "cfgStorageMode packsConfig = ''packs''" "cfgCatalog packsConfig" by (simp_all add: packsConfig_def)
  let ?st = "counter_Add ManifestsDiscovered 0 counters0"
  have "New (roundEnv nodes) packsConfig [] = Inr (roundStarted ?st)"
    by (simp add: New_def check roundEnv_quiet(1) list newPackStore_def discover_def andThen_def attempt_def mode initialServer_def
        roundStarted_def countBytes_def updatePacks_def)
  then show ?thesis by blast
qed

text \<open>It accepts the upload, which is then pending.\<close>

lemma round_staged: "stageCASLocked 100 roundDigest \<lparr>objPath = 0, objSize = 3\<rparr> emptyPackStore = roundStore"
  by (simp add: stageCASLocked_def requestFlushLocked_def roundStore_def emptyPackStore_def)

lemma round_put:
  "\<exists>response s'. serveHTTP (roundEnv nodes) roundPut (roundStarted st) = (response, s') \<and> rsStatus response = 204 \<and> roundPending s'"
proof -
  let ?E = "roundEnv nodes" and ?key = "objectKey ''repo'' ''cas'' roundDigest"
  have temp: "createTemp ?E t = (Inr (nextFile t), t\<lparr>files := (files t)(nextFile t \<mapsto> []), nextFile := Suc (nextFile t)\<rparr>)" for t
    by (simp add: createTemp_def createFile_def attempt_def andThen_def roundEnv_quiet(1))
  have written: "writeFile ?E p d t = (Inr (), appendFile p d t)" for p d t
    by (simp add: writeFile_def attempt_def andThen_def roundEnv_quiet(1))
  have request: "reqMethod roundPut = ''PUT''" "reqContentLength roundPut = 3" "reqBody roundPut = [roundData]"
    "reqBodyError roundPut = None" "reqContentEncoding roundPut = []" "\<not> readMethod roundPut"
    by (simp_all add: roundPut_def roundData_def)
  have path: "parseObjectPath (reqPath roundPut) = Some (''cas'', roundDigest)" using round_path by (simp add: roundPut_def)
  have limit: "uploadLimit 3 = 4" "length roundData = 3" "sha256_hex roundData = roundDigest"
    by (simp_all add: uploadLimit_def maxInt64_def roundData_def roundDigest_def)
  have config: "cfgKeyPrefix packsConfig = ''repo''" "cfgMaxBlobSize packsConfig = 1000" "cfgPackSize packsConfig = 100"
    "cfgWriteEnabled packsConfig" by (simp_all add: packsConfig_def exampleConfig_def)
  have finish: "\<exists>s'. finishUpload ?E ?key ''cas'' roundDigest \<lparr>objPath = 0, objSize = 3\<rparr> 0 3 t = (noContent, s') \<and> roundPending s'"
    if "cfg t = packsConfig" "packs t = Some emptyPackStore" "files t = [0 \<mapsto> roundData]" "nextFile t = 1" "world t = []" for t
    using that by (simp add: finishUpload_def stageUpload_def config stageCAS_def updatePacks_def round_staged roundPending_def)
  have receive: "\<exists>s'. receiveUpload ?E roundPut ?key ''cas'' roundDigest 0 t = ((noContent, True), s') \<and> roundPending s'"
    if "cfg t = packsConfig" "packs t = Some emptyPackStore" "files t = [0 \<mapsto> []]" "nextFile t = 1" "world t = []" "objects t = Map.empty" for t
  proof -
    let ?t = "(countBytes BytesReceived 3 (appendFile 0 roundData t))\<lparr>objects := [?key \<mapsto> \<lparr>objPath = 0, objSize = 3\<rparr>]\<rparr>"
    have "cfg ?t = packsConfig" "packs ?t = Some emptyPackStore" "files ?t = [0 \<mapsto> roundData]" "nextFile ?t = 1" "world ?t = []"
      using that by (simp_all add: countBytes_def appendFile_def fileContent_def)
    from finish [OF this] obtain s' where "finishUpload ?E ?key ''cas'' roundDigest \<lparr>objPath = 0, objSize = 3\<rparr> 0 3 ?t = (noContent, s')"
      "roundPending s'" by blast
    then show ?thesis
      using that by (simp add: receiveUpload_def Let_def request limit written andThen_def countBytes_def appendFile_def
          fileContent_def roundEnv_quiet(1) enterObject_def)
  qed
  let ?s = "(count Requests (roundStarted st))\<lparr>files := [0 \<mapsto> []], nextFile := 1\<rparr>"
  have "cfg ?s = packsConfig" "packs ?s = Some emptyPackStore" "files ?s = [0 \<mapsto> []]" "nextFile ?s = 1" "world ?s = []"
    "objects ?s = Map.empty"
    by (simp_all add: roundStarted_def initialServer_def)
  from receive [OF this] obtain s' where s': "receiveUpload ?E roundPut ?key ''cas'' roundDigest 0 ?s = ((noContent, True), s')"
    "roundPending s'" by blast
  have "serveHTTP ?E roundPut (roundStarted st) = (noContent, s')"
    unfolding serveHTTP_object [OF path]
    using s'(1) by (simp add: Let_def request handlePut_def temp andThen_def roundStarted_def initialServer_def config count_def)
  with s'(2) show ?thesis by (simp add: noContent_def respond_def)
qed

text \<open>It is closed, and the second job is asked for the object.\<close>

lemma round_closes:
  assumes "roundPending s"
  shows "\<exists>s'. server_Close (roundEnv roundNodes) s = (Inr (), s') \<and> (\<forall>entry \<in> set (world s'). length (snd entry) \<le> 37)"
proof -
  let ?E = "roundEnv roundNodes"
  from round_flushes [OF assms] obtain s' where flush: "flushOneLocked ?E s = (Inr True, s')"
    and small: "\<forall>entry \<in> set (world s'). length (snd entry) \<le> 37" by blast
  have s: "packs s = Some roundStore" "cfgPackSize (cfg s) = 100"
    using assms by (simp_all add: roundPending_def packsConfig_def exampleConfig_def)
  have inv: "stageInv roundStore" by (auto simp: stageInv_def roundStore_def emptyPackStore_def)
  have all: "selectCASLocked (cfgPackSize (cfg s)) roundStore = psPendingCASOrder roundStore"
    unfolding s(2) roundServer_selects(1) by (simp add: roundStore_def)
  from flushed_everything [OF s(1) inv flush all] flush have "flushLoop ?E True s = (Inr (), s')"
    by (simp add: flushLoop.simps [of ?E True s] flushLoop.simps [of ?E True s'])
  with s(1) small show ?thesis by (simp add: server_Close_def packs_close_def flush_def)
qed

theorem uploaded_served_later_witness:
  "\<exists>s s' t answer t'. uploadJob (roundEnv roundNodes) packsConfig [] [] roundPut [] roundDigest s s' \<and>
     New (roundEnv roundNodes) packsConfig (world s') = Inr t \<and> serveHTTP (roundEnv roundNodes) roundGet t = (answer, t') \<and>
     rsStatus answer = 200 \<and> rsBody answer = [97, 98, 99]"
proof -
  let ?E = "roundEnv roundNodes"
  obtain st where st: "New ?E packsConfig [] = Inr (roundStarted st)" using round_starts by blast
  from round_put obtain response s where put: "serveHTTP ?E roundPut (roundStarted st) = (response, s)" "rsStatus response = 204"
    and s: "roundPending s" by blast
  from round_closes [OF s] obtain s' where close: "server_Close ?E s = (Inr (), s')"
    and small: "\<forall>entry \<in> set (world s'). length (snd entry) \<le> 37" by blast
  have paths: "parseObjectPath (reqPath roundPut) = Some (''cas'', roundDigest)" "parseObjectPath (reqPath roundGet) = Some (''cas'', roundDigest)"
    using round_path by (simp_all add: roundPut_def roundGet_def)
  have start: "packs (roundStarted st) = Some emptyPackStore" "objects (roundStarted st) key = None" for key
    by (simp_all add: roundStarted_def initialServer_def)
  have job: "uploadJob ?E packsConfig [] [] roundPut [] roundDigest s s'"
    unfolding uploadJob_def serveAll.simps
    by (intro exI [of _ "roundStarted st"] exI [of _ s] exI [of _ "[]"] exI [of _ response] exI conjI)
      (use st put paths(1) close start in \<open>simp_all add: returning_def roundPut_def\<close>)
  have the: "thePacks s = roundStore" using s by (simp add: roundPending_def thePacks_def)
  have ipld: "envIpld ?E = roundIpld roundNodes" by (simp add: roundEnv_def)
  have limits: "cfgKeyPrefix packsConfig = ''repo''" "cfgMaxBlobSize packsConfig = 1000" "cfgPackSize packsConfig = 100"
    "cfgStorageMode packsConfig = ''packs''" "cfgWriteEnabled packsConfig"
    by (simp_all add: packsConfig_def exampleConfig_def)
  have later: "laterJob ?E set (stored set s') packsConfig packsConfig (world s')"
    unfolding laterJob_def limits
    using roundEnv_works packsConfig_valid(1) small by (auto simp: stored_def isInt64_def maxInt64_def)
  from uploaded_served_later [of ?E set packsConfig "[]" "[]" roundPut "[]" roundDigest s s' ?E set packsConfig "world s'" roundGet,
      unfolded ipld the limits, OF roundEnv_stores roundIpld_laws roundNodes_laws job limits(5) _ _ _ _ later refl _ paths(2)]
  obtain t answer t' where "New ?E packsConfig (world s') = Inr t" "serveHTTP ?E roundGet t = (answer, t')"
    "rsStatus answer = 200" "rsBody answer = concat (reqBody roundPut)"
    using abcDigest_new roundDigest_abc
    by (auto simp: unused_def roundGet_def getRequest_def roundStore_def emptyPackStore_def pendingWork_def)
  moreover have "concat (reqBody roundPut) = [97, 98, 99]" by (simp add: roundPut_def roundData_def)
  ultimately show ?thesis using job by metis
qed

text \<open>The state of the first job before it is closed.\<close>

theorem reachable_pending_witness:
  "\<exists>s data. reachable (roundEnv roundNodes) (=) packsConfig [] s \<and> objects s (casKey ''repo'' roundDigest) = Some \<lparr>objPath = 0, objSize = 3\<rparr> \<and>
     files s 0 = Some data \<and> sha256_hex data = roundDigest \<and> length data = 3"
proof -
  let ?E = "roundEnv roundNodes"
  obtain st where st: "New ?E packsConfig [] = Inr (roundStarted st)" using round_starts by blast
  from round_put obtain response s where put: "serveHTTP ?E roundPut (roundStarted st) = (response, s)" and s: "roundPending s" by blast
  have reach: "reachable ?E (=) packsConfig [] s" by (rule stepped [OF started [OF st] request [OF put]])
  have packs: "packs s = Some roundStore" "cfgKeyPrefix (cfg s) = ''repo''"
    using s by (simp_all add: roundPending_def packsConfig_def exampleConfig_def)
  have "psPendingCAS roundStore roundDigest = Some \<lparr>objPath = 0, objSize = 3\<rparr>" by (simp add: roundStore_def)
  with reachable_pending [OF reach packs(1)] packs(2) obtain data where
    "objects s (casKey ''repo'' roundDigest) = Some \<lparr>objPath = 0, objSize = 3\<rparr>" "files s 0 = Some data"
    "sha256_hex data = roundDigest" "3 = int (length data)" by force
  then have "length data = 3" by simp
  with reach \<open>objects s _ = _\<close> \<open>files s 0 = _\<close> \<open>sha256_hex data = _\<close> show ?thesis by blast
qed

end
