(* ===== verification/Spec2Isabelle.thy ===== *)
theory Spec2Isabelle
  imports ClientExamples EndToEndExamples
begin

text \<open>
  A verification of the Bazel remote cache for GitHub Actions: an HTTP server on the loopback interface that
  speaks Bazel's HTTP cache protocol (\<open>/cas/<sha256>\<close> for blobs, \<open>/ac/<sha256>\<close> for action results) and keeps
  its objects in the GitHub Actions cache, one entry per object or packed in CARv2 archives that a DAG of
  manifests describes.

  \<^bold>\<open>The parts and how they interact.\<close> \<open>cmd/cache-server/main.go\<close> makes the clients and the server and runs it until
  it is told to stop. A request goes through the dispatcher of \<open>server.go\<close>. A read is answered from the local
  spool directory or \<open>resolve\<close>s the object, from the backend directly (\<open>objects\<close> mode) or from a pack (\<open>packs\<close>
  mode, \<open>pack_store.go\<close>); an action result is served only after \<open>action_result_validation.go\<close> has found its whole
  closure, which it reads with the protobuf readers of \<open>action_result.go\<close> and \<open>reapi_directory.go\<close> over
  \<open>reapi_wire.go\<close>. An upload is checked against its digest and then published once per key (\<open>publishOnce\<close>), at
  the pace of \<open>limiter.go\<close>, or staged for the next pack, which the flush worker and \<open>Close\<close> upload together with
  a manifest (\<open>manifest.go\<close>). \<open>backend.go\<close> and \<open>catalog.go\<close> are the clients of the cache service.

  \<^bold>\<open>Theories and sources.\<close> Every Go function has a definition of its name; a method has its receiver before it
  where the bare name is taken (\<open>server_resolve\<close>, \<open>packs_resolve\<close>, \<open>backend_Save\<close>).
  \<^item> \<open>Prelude\<close>, \<open>Io\<close>, \<open>Worlds\<close>, \<open>Quiet\<close>: strings, errors, computations over a state with Hoare triples
    (\<open>triple\<close>), preservation (\<open>keeps\<close>), absence of crashes (\<open>calm\<close>), and what an environment may do.
  \<^item> \<open>Wire\<close> (\<open>reapi_wire.go\<close>), \<open>ActionResult\<close> (\<open>action_result.go\<close>), \<open>Directory\<close> (\<open>reapi_directory.go\<close>): the
    readers of protobuf messages; the locale \<open>field_visitor\<close> is what a visitor of fields has to keep.
  \<^item> \<open>Sha256\<close>, \<open>Sha256Vector\<close>, \<open>Sha256Abc\<close>: the hash of \<open>crypto/sha256\<close>, with two test vectors.
  \<^item> \<open>Manifest\<close> (\<open>manifest.go\<close>): nodes, encoding, decoding, validation. \<open>Limiter\<close>, \<open>Stats\<close>: \<open>limiter.go\<close>,
    \<open>stats.go\<close>.
  \<^item> \<open>ServerState\<close>: the structs \<open>Config\<close>, \<open>object\<close>, \<open>Server\<close> and \<open>packStore\<close>, the spool directory and the
    environment. \<open>Resolve\<close>: reading and publication in \<open>server.go\<close> and \<open>pack_store.go\<close>; the locale \<open>resolver\<close> is
    the contract of both storage modes. \<open>Validation\<close>, \<open>ClosureBound\<close>: \<open>action_result_validation.go\<close>, what a
    validation has checked, and how much it looks at.
  \<^item> \<open>PackStage\<close>, \<open>PackWrite\<close>, \<open>Commit\<close>: staging and selection, packs and flushes, and the order of the commit
    as the cache sees it, in \<open>pack_store.go\<close>.
  \<^item> \<open>Http\<close>, \<open>Serving\<close>, \<open>Guarantees\<close>: the handlers of \<open>server.go\<close>, what is served, and what a server promises. The
    locales \<open>resolves\<close>, \<open>reads\<close>, \<open>serves\<close> and \<open>accepts\<close> are what an assertion needs so that every handler keeps it.
  \<^item> \<open>System\<close>: \<open>New\<close>, and the states that a server reaches through requests, flushes and the work of others.
  \<^item> \<open>Reader\<close>, \<open>Restore\<close>: the round trip from the flush of one process to the objects that a later process resolves;
    \<open>achieves\<close> is the triple of computations that succeed.
  \<^item> \<open>Pending\<close>, \<open>Backlog\<close>, \<open>EndToEnd\<close>: the pending work of a packed server in every state that it reaches, what it is
    before the first flush, and the whole way of an object from the upload in one job to the download in a later one.
  \<^item> \<open>Coalescing\<close>, \<open>Loading\<close>: \<open>publishOnce\<close> and \<open>loadPack\<close> with many callers, as interleavings of their critical
    sections.
  \<^item> \<open>Backend\<close> (\<open>backend.go\<close>), \<open>Catalog\<close> (\<open>catalog.go\<close>), \<open>SafeError\<close> (\<open>safeError\<close> of \<open>server.go\<close>) and \<open>Command\<close>
    (\<open>main.go\<close>, \<open>SafeCacheDir\<close>, \<open>WriteStatsFile\<close>). The locale \<open>redactor\<close> is what a pattern and its replacement need.
  \<^item> \<open>Examples\<close>, \<open>PackExamples\<close>, \<open>ServerExamples\<close>, \<open>ClientExamples\<close>, \<open>RestoreExamples\<close>,
    \<open>EndToEndExamples\<close>: every property at a concrete input.

  \<^bold>\<open>State and environment.\<close> A Go function of a struct is a function of a record that returns its result and the
  new record; an error is the left side of a sum, a panic and an endless loop are values of \<open>go_error\<close> that the
  theorems exclude. The mutexes do not appear where one request runs at a time; \<open>Coalescing\<close> and \<open>Loading\<close>
  have them as the atomic steps. Files of the spool directory are numbered byte strings. Whatever the code asks of the outside,
  the backend, the catalog, the clock, file operations and contexts, is an \<open>env\<close> over an opaque world that
  every call may change, so that the properties hold for every order of answers and faults. The protobuf
  decoder, CIDs, DAG-CBOR and CARv2 archives are the parameters \<open>protowire\<close> and \<open>ipld\<close>; the client library of the
  cache is \<open>actionsCache\<close>, the HTTP client of the catalog \<open>restClient\<close>. Their documented behaviour is in
  \<open>protowire_laws\<close>, \<open>dagcbor_laws\<close>, \<open>ipld_laws\<close>, \<open>actionsCache_laws\<close>, \<open>storingBackend\<close>,
  \<open>workingBackend\<close>, and the properties name what they use.

  \<^bold>\<open>What is shown.\<close>
  \<^item> Integrity: what is resolved or served under a CAS digest has this digest, whatever the backend answers;
    uploads that do not match are refused; objects never change once they are entered.
  \<^item> Completeness: an action result is served, published or staged only with its whole closure; the readers
    collect exactly the references of a message; validation always returns, and accepts closures of at most 100000
    members.
  \<^item> The packed store: selection within the target size, what the merging of manifests makes independent of
    their order, the commit order by which in every reachable state a manifest names only packs that have been saved
    (GitHub may have evicted them since), pending work that
    is never lost or altered, a flush without an error that leaves no CAS object behind, and the restore of flushed objects by a later process,
    bit for bit.
  \<^item> End to end: what one job uploads and closes without an error, a later job downloads with the same bytes, when
    the cache has kept the entries and the limits of the formats and configurations are observed.
  \<^item> Manifests: acceptance exactly of valid ones, the round trip, a deterministic encoding.
  \<^item> Policy: fail-open and read-only servers, authorised shutdown, the spacing of uploads, the JSON of the
    statistics, texts of errors without URLs and tokens.
  \<^item> Concurrency: parallel publications of a key are coalesced, all return, and refine sequential ones; parallel
    restores of a pack share one download, and all return.
  \<^item> The clients: \<open>ActionsBackend\<close> refines the backend that the server assumes, a lost race is no error unless the
    context ends, a listing is complete and returns. The process: the order in which it stops, flushes, reports and
    cleans up, where a flush that fails is only logged.

  \<^bold>\<open>Bounds.\<close> No definition has fuel. The loop over the directories of a closure ends because the code counts
  objects up to 100000, which \<open>ClosureBound\<close> shows to be the size of the closure; the flush loop because every round shrinks the pending work; the listing over pages
  is a \<open>partial_function\<close> whose result is shown to exist; concurrent callers are bounded by a measure.

  \<^bold>\<open>Not modelled.\<close> The log apart from \<open>safeError\<close>; the timeouts of \<open>http.Server\<close> and of contexts, which are faults
  of the environment; handlers that run at the same time other than in \<open>publishOnce\<close> and \<open>loadPack\<close>; the HTTP, JSON and protobuf libraries; \<open>flag.Parse\<close>. The JavaScript of the
  action (\<open>src/action\<close>), which starts and stops the process, the build script and the metadata of the action are
  outside of the Go program.
\<close>

end
